(* ===== verification/Prelude.thy ===== *)
theory Prelude
  imports Main "HOL-Library.Word" "HOL-Library.Monad_Syntax"
begin

text \<open>
  Shared vocabulary of the development.

  \<^item> Kernel pointers are 64-bit words; \<open>NULL\<close> is the word 0.
  \<^item> A heap of C structures of one type is a partial map from addresses to records.
    \<open>deref\<close> is the C dereference: it fails (\<open>None\<close>) on \<open>NULL\<close> and on an address that
    holds no object of the type. Code that uses it is written in the option monad, so
    that \<open>None\<close> means a wild access (or, in a loop, that the loop does not end), and a
    theorem that the code returns \<open>Some\<close> is also a memory-safety theorem.
  \<^item> Error codes of \<open>kernel/inc/errno.h\<close> are integers; the code returns them negated.
  \<^item> A C identifier that starts with two underscores is written with the prefix
    \<open>i_\<close> here.
\<close>

unbundle bit_operations_syntax

named_theorems heap_simps \<open>rules that execute heap accesses symbolically\<close>

subsection \<open>Addresses and dereferencing\<close>

type_synonym addr = "64 word"
type_synonym u8 = "8 word"
type_synonym u32 = "32 word"
type_synonym u64 = "64 word"

abbreviation NULL :: addr where
  "NULL \<equiv> 0"

definition deref :: "(addr \<rightharpoonup> 'a) \<Rightarrow> addr \<Rightarrow> 'a option" where
  "deref h p = (if p = NULL then None else h p)"

definition alloc :: "(addr \<rightharpoonup> 'a) \<Rightarrow> addr \<Rightarrow> bool" where
  "alloc h p \<longleftrightarrow> p \<noteq> NULL \<and> p \<in> dom h"

definition modify :: "(addr \<rightharpoonup> 'a) \<Rightarrow> addr \<Rightarrow> ('a \<Rightarrow> 'a) \<Rightarrow> (addr \<rightharpoonup> 'a) option" where
  "modify h p f = do { n \<leftarrow> deref h p; Some (h(p \<mapsto> f n)) }"

lemma deref_NULL [simp]: "deref h NULL = None"
  by (simp add: deref_def)

lemma alloc_iff_deref: "alloc h p \<longleftrightarrow> (\<exists>n. deref h p = Some n)"
  by (auto simp: alloc_def deref_def)

lemma deref_SomeD: "deref h p = Some n \<Longrightarrow> alloc h p"
  by (auto simp: alloc_iff_deref)

lemma not_alloc_NULL [simp]: "\<not> alloc h NULL"
  by (simp add: alloc_def)

lemma alloc_not_NULL: "alloc h p \<Longrightarrow> p \<noteq> NULL"
  by (auto simp: alloc_def)

lemma modify_Some: "deref h p = Some n \<Longrightarrow> modify h p f = Some (h(p \<mapsto> f n))"
  by (simp add: modify_def)

lemma deref_upd [simp]:
  "deref (h(p \<mapsto> v)) q = (if q = p then (if p = NULL then None else Some v) else deref h q)"
  by (simp add: deref_def)

lemma alloc_upd [simp]: "alloc (h(p \<mapsto> v)) q \<longleftrightarrow> (q = p \<and> p \<noteq> NULL) \<or> alloc h q"
  by (auto simp: alloc_def)

subsection \<open>Error codes (\<open>kernel/inc/errno.h\<close>)\<close>

definition ENOENT :: int where "ENOENT = 2"
definition EINTR :: int where "EINTR = 4"
definition EAGAIN :: int where "EAGAIN = 11"
definition ENOMEM :: int where "ENOMEM = 12"
definition EINVAL :: int where "EINVAL = 22"
definition EMFILE :: int where "EMFILE = 24"
definition ENOTEMPTY :: int where "ENOTEMPTY = 39"
definition EOVERFLOW :: int where "EOVERFLOW = 75"

lemmas errno_defs = ENOENT_def EINTR_def EAGAIN_def ENOMEM_def EINVAL_def EMFILE_def
  ENOTEMPTY_def EOVERFLOW_def

subsection \<open>Generic list facts\<close>

lemma hd_append_ne [simp]: "xs \<noteq> [] \<Longrightarrow> hd (xs @ ys) = hd xs"
  by (cases xs) auto

lemma butlast_snoc_notin: "distinct (xs @ [x]) \<Longrightarrow> x \<notin> set xs"
  by simp

lemma last_notin_butlast: "distinct xs \<Longrightarrow> xs \<noteq> [] \<Longrightarrow> last xs \<notin> set (butlast xs)"
  by (metis append_butlast_last_id butlast_snoc_notin)

lemma hd_notin_tl: "distinct xs \<Longrightarrow> xs \<noteq> [] \<Longrightarrow> hd xs \<notin> set (tl xs)"
  by (cases xs) auto

lemma those_eq_Some:
  "those xs = Some ys \<longleftrightarrow> length ys = length xs \<and> (\<forall>k<length xs. xs ! k = Some (ys ! k))"
proof (induction xs arbitrary: ys)
  case (Cons x xs)
  then show ?case by (cases x; cases ys) (auto simp: nth_Cons split: nat.splits)
qed auto

lemma distinct_map_remove1: "distinct (map f xs) \<Longrightarrow> distinct (map f (remove1 x xs))"
proof (induction xs)
  case (Cons y ys)
  then show ?case using set_remove1_subset [of x ys] by auto
qed simp

lemma distinct_map_eqD: "distinct (map f xs) \<Longrightarrow> x \<in> set xs \<Longrightarrow> y \<in> set xs \<Longrightarrow> f x = f y \<Longrightarrow> x = y"
  by (auto simp: distinct_map dest: inj_onD)

lemma distinct_singletonD: "set xs = {x} \<Longrightarrow> distinct xs \<Longrightarrow> xs = [x]"
proof (cases xs)
  case (Cons y ys)
  moreover assume "set xs = {x}" "distinct xs"
  ultimately have "y = x" "set ys \<subseteq> {x}" "x \<notin> set ys" by auto
  then show ?thesis using Cons by (cases ys) auto
qed simp

lemma distinct_replace: "distinct (as @ xs @ bs) \<Longrightarrow> distinct ys \<Longrightarrow> set ys \<subseteq> set xs \<Longrightarrow> distinct (as @ ys @ bs)"
  by auto

lemma remove1_map_neq: "distinct (map f xs) \<Longrightarrow> x \<in> set xs \<Longrightarrow> y \<in> set (remove1 x xs) \<Longrightarrow> f y \<noteq> f x"
proof (induction xs)
  case (Cons z zs)
  then show ?case by (cases "z = x") (auto simp: image_iff)
qed simp

text \<open>Address arithmetic that does not wrap.\<close>

lemma unat_add_of_nat64: "unat (a::u64) + n < 2 ^ 64 \<Longrightarrow> unat (a + of_nat n) = unat a + n"
proof -
  assume "unat a + n < 2 ^ 64"
  moreover have "unat (a + of_nat n) = (unat a + n) mod 2 ^ 64"
    by (simp add: unat_word_ariths unat_of_nat mod_simps)
  ultimately show ?thesis by simp
qed

end
