(* ===== verification/Linked_List.thy ===== *)
theory Linked_List
  imports Prelude
begin

text \<open>
  The intrusive circular doubly linked list of \<open>kernel/inc/list.h\<close>.

  A \<open>list_node_t\<close> holds the two links; the list is circular through its head entry.
  Every operation of the header that follows or writes a link is translated statement by
  statement over an explicit heap of list nodes, so that aliasing between the entry, its
  neighbours and the head is the one of the C code. \<open>dlist h head xs\<close> is the abstraction:
  the ring starting at \<open>head\<close> visits exactly the entries \<open>xs\<close>, in both directions.
  The lemmas show, operation by operation, that the C code refines the list operation
  (append, cons, delete, splice) and touches no node outside its ring.
\<close>

subsection \<open>Nodes and link access\<close>

record list_node_t =
  ln_prev :: addr
  ln_next :: addr

type_synonym list_heap = "addr \<rightharpoonup> list_node_t"

definition get_next :: "list_heap \<Rightarrow> addr \<Rightarrow> addr option" where
  "get_next h p = map_option ln_next (deref h p)"

definition get_prev :: "list_heap \<Rightarrow> addr \<Rightarrow> addr option" where
  "get_prev h p = map_option ln_prev (deref h p)"

definition set_next :: "list_heap \<Rightarrow> addr \<Rightarrow> addr \<Rightarrow> list_heap option" where
  "set_next h p v = modify h p (ln_next_update (\<lambda>_. v))"

definition set_prev :: "list_heap \<Rightarrow> addr \<Rightarrow> addr \<Rightarrow> list_heap option" where
  "set_prev h p v = modify h p (ln_prev_update (\<lambda>_. v))"

subsection \<open>Operations on entries\<close>

definition list_entry_init :: "list_heap \<Rightarrow> addr \<Rightarrow> list_heap option" where
  "list_entry_init h entry = do {
     h1 \<leftarrow> set_next h entry entry;
     set_prev h1 entry entry }"

definition LIST_IS_EMPTY :: "list_heap \<Rightarrow> addr \<Rightarrow> bool option" where
  "LIST_IS_EMPTY h head = do { n \<leftarrow> get_next h head; Some (n = head) }"

definition LIST_ENTRY_IS_DETACHED :: "list_heap \<Rightarrow> addr \<Rightarrow> bool option" where
  "LIST_ENTRY_IS_DETACHED h entry = do { n \<leftarrow> get_next h entry; Some (n = entry) }"

definition LIST_ENTRY_IS_FIRST :: "list_heap \<Rightarrow> addr \<Rightarrow> addr \<Rightarrow> bool option" where
  "LIST_ENTRY_IS_FIRST h head entry = do { p \<leftarrow> get_prev h entry; Some (p = head) }"

definition LIST_ENTRY_IS_LAST :: "list_heap \<Rightarrow> addr \<Rightarrow> addr \<Rightarrow> bool option" where
  "LIST_ENTRY_IS_LAST h head entry = do { n \<leftarrow> get_next h entry; Some (n = head) }"

text \<open>
  \<open>LIST_FIRST_NODE\<close>, \<open>LIST_LAST_NODE\<close>, \<open>LIST_NEXT_NODE\<close>, \<open>LIST_PREV_NODE\<close> return the
  containing structure or \<open>NULL\<close>. \<open>container_of\<close> subtracts a constant offset, so a
  containing structure is named here by the address of its embedded entry.
\<close>

definition LIST_FIRST_NODE :: "list_heap \<Rightarrow> addr \<Rightarrow> addr option" where
  "LIST_FIRST_NODE h head = do {
     first_entry \<leftarrow> get_next h head;
     Some (if head \<noteq> first_entry then first_entry else NULL) }"

definition LIST_LAST_NODE :: "list_heap \<Rightarrow> addr \<Rightarrow> addr option" where
  "LIST_LAST_NODE h head = do {
     last_entry \<leftarrow> get_prev h head;
     Some (if head \<noteq> last_entry then last_entry else NULL) }"

definition LIST_NEXT_NODE :: "list_heap \<Rightarrow> addr \<Rightarrow> addr \<Rightarrow> addr option" where
  "LIST_NEXT_NODE h head node =
     (if node \<noteq> NULL then do {
        next_entry \<leftarrow> get_next h node;
        Some (if head \<noteq> next_entry then next_entry else NULL) }
      else Some NULL)"

definition LIST_PREV_NODE :: "list_heap \<Rightarrow> addr \<Rightarrow> addr \<Rightarrow> addr option" where
  "LIST_PREV_NODE h head node =
     (if node \<noteq> NULL then do {
        prev_entry \<leftarrow> get_prev h node;
        Some (if head \<noteq> prev_entry then prev_entry else NULL) }
      else Some NULL)"

definition list_entry_detach :: "list_heap \<Rightarrow> addr \<Rightarrow> list_heap option" where
  "list_entry_detach h entry = do {
     p \<leftarrow> get_prev h entry;
     n \<leftarrow> get_next h entry;
     h1 \<leftarrow> set_next h p n;
     n1 \<leftarrow> get_next h1 entry;
     p1 \<leftarrow> get_prev h1 entry;
     h2 \<leftarrow> set_prev h1 n1 p1;
     list_entry_init h2 entry }"

definition list_entry_insert :: "list_heap \<Rightarrow> addr \<Rightarrow> addr \<Rightarrow> list_heap option" where
  "list_entry_insert h prev entry = do {
     n \<leftarrow> get_next h prev;
     h1 \<leftarrow> set_prev h entry prev;
     h2 \<leftarrow> set_next h1 entry n;
     h3 \<leftarrow> set_next h2 prev entry;
     set_prev h3 n entry }"

definition list_entry_replace :: "list_heap \<Rightarrow> addr \<Rightarrow> addr \<Rightarrow> list_heap option" where
  "list_entry_replace h old new =
     (if old = NULL \<or> new = NULL then Some h
      else do {
        h1 \<leftarrow> list_entry_init h new;
        detached \<leftarrow> LIST_ENTRY_IS_DETACHED h1 old;
        if \<not> detached then do {
          p \<leftarrow> get_prev h1 old;
          h2 \<leftarrow> list_entry_detach h1 old;
          list_entry_insert h2 p new }
        else Some h1 })"

definition list_entry_push_back :: "list_heap \<Rightarrow> addr \<Rightarrow> addr \<Rightarrow> list_heap option" where
  "list_entry_push_back h head entry = list_entry_insert h head entry"

definition list_entry_push :: "list_heap \<Rightarrow> addr \<Rightarrow> addr \<Rightarrow> list_heap option" where
  "list_entry_push h head entry = do {
     p \<leftarrow> get_prev h head;
     list_entry_insert h p entry }"

definition list_entry_insert_bulk :: "list_heap \<Rightarrow> addr \<Rightarrow> addr \<Rightarrow> list_heap option" where
  "list_entry_insert_bulk h prev source_head = do {
     empty \<leftarrow> LIST_IS_EMPTY h source_head;
     if empty then Some h
     else do {
       source_first \<leftarrow> get_next h source_head;
       source_last \<leftarrow> get_prev h source_head;
       h1 \<leftarrow> set_prev h source_first prev;
       pn \<leftarrow> get_next h1 prev;
       h2 \<leftarrow> set_next h1 source_last pn;
       pn2 \<leftarrow> get_next h2 prev;
       h3 \<leftarrow> set_prev h2 pn2 source_last;
       h4 \<leftarrow> set_next h3 prev source_first;
       list_entry_init h4 source_head } }"

definition list_entry_pop_back :: "list_heap \<Rightarrow> addr \<Rightarrow> (addr \<times> list_heap) option" where
  "list_entry_pop_back h head = do {
     first_entry \<leftarrow> get_next h head;
     if head = first_entry then Some (NULL, h)
     else do { h1 \<leftarrow> list_entry_detach h first_entry; Some (first_entry, h1) } }"

definition list_entry_pop :: "list_heap \<Rightarrow> addr \<Rightarrow> (addr \<times> list_heap) option" where
  "list_entry_pop h head = do {
     last_entry \<leftarrow> get_prev h head;
     if head = last_entry then Some (NULL, h)
     else do { h1 \<leftarrow> list_entry_detach h last_entry; Some (last_entry, h1) } }"

text \<open>
  The traversal macros are \<open>for\<close> loops around a body. The model collects the entries the
  body sees: \<open>list_foreach_entry\<close> forwards, \<open>list_foreach_entry_inv\<close> backwards, and
  \<open>list_find\<close> stops at the first node the match condition accepts (\<open>NULL\<close> when the loop
  runs out), as \<open>list_find_first\<close> does.
\<close>

partial_function (option) list_walk :: "list_heap \<Rightarrow> addr \<Rightarrow> addr \<Rightarrow> addr list option" where
  "list_walk h head pos =
     (if head = pos then Some []
      else do { n \<leftarrow> get_next h pos; r \<leftarrow> list_walk h head n; Some (pos # r) })"

definition list_foreach_entry :: "list_heap \<Rightarrow> addr \<Rightarrow> addr list option" where
  "list_foreach_entry h head = do { pos \<leftarrow> get_next h head; list_walk h head pos }"

partial_function (option) list_walk_inv :: "list_heap \<Rightarrow> addr \<Rightarrow> addr \<Rightarrow> addr list option" where
  "list_walk_inv h head pos =
     (if head = pos then Some []
      else do { p \<leftarrow> get_prev h pos; r \<leftarrow> list_walk_inv h head p; Some (pos # r) })"

definition list_foreach_entry_inv :: "list_heap \<Rightarrow> addr \<Rightarrow> addr list option" where
  "list_foreach_entry_inv h head = do { pos \<leftarrow> get_prev h head; list_walk_inv h head pos }"

partial_function (option) list_find_from ::
  "list_heap \<Rightarrow> (addr \<Rightarrow> bool) \<Rightarrow> addr \<Rightarrow> addr \<Rightarrow> addr option" where
  "list_find_from h match head pos =
     (if pos = NULL then Some NULL
      else do {
        tmp \<leftarrow> LIST_NEXT_NODE h head pos;
        if match pos then Some pos else list_find_from h match head tmp })"

definition list_find_next :: "list_heap \<Rightarrow> (addr \<Rightarrow> bool) \<Rightarrow> addr \<Rightarrow> addr \<Rightarrow> addr option" where
  "list_find_next h match head lst = do {
     ret \<leftarrow> (if lst = NULL then LIST_FIRST_NODE h head else LIST_NEXT_NODE h head lst);
     if ret \<noteq> NULL then list_find_from h match head ret else Some ret }"

definition list_find_first :: "list_heap \<Rightarrow> (addr \<Rightarrow> bool) \<Rightarrow> addr \<Rightarrow> addr option" where
  "list_find_first h match head = list_find_next h match head NULL"

subsection \<open>RCU variants\<close>

text \<open>
  The RCU operations order their writes so that a concurrent reader, which only follows
  \<open>next\<close> links, always sees a well-formed list. To state that, the four stores of
  \<open>__list_entry_add_rcu\<close> and the two of \<open>list_entry_del_rcu\<close> are also given as lists of
  single writes; running all of them is the operation.
\<close>

datatype list_write = WNext addr addr | WPrev addr addr

fun list_write1 :: "list_heap \<Rightarrow> list_write \<Rightarrow> list_heap option" where
  "list_write1 h (WNext p v) = set_next h p v"
| "list_write1 h (WPrev p v) = set_prev h p v"

fun list_writes :: "list_heap \<Rightarrow> list_write list \<Rightarrow> list_heap option" where
  "list_writes h [] = Some h"
| "list_writes h (w # ws) = do { h1 \<leftarrow> list_write1 h w; list_writes h1 ws }"

definition list_entry_init_rcu :: "list_heap \<Rightarrow> addr \<Rightarrow> list_heap option" where
  "list_entry_init_rcu h entry = list_writes h [WNext entry entry, WPrev entry entry]"

definition i_list_entry_add_rcu_writes :: "addr \<Rightarrow> addr \<Rightarrow> addr \<Rightarrow> list_write list" where
  "i_list_entry_add_rcu_writes new prev nxt =
     [WNext new nxt, WPrev new prev, WNext prev new, WPrev nxt new]"

definition i_list_entry_add_rcu :: "list_heap \<Rightarrow> addr \<Rightarrow> addr \<Rightarrow> addr \<Rightarrow> list_heap option" where
  "i_list_entry_add_rcu h new prev nxt = list_writes h (i_list_entry_add_rcu_writes new prev nxt)"

definition list_entry_add_rcu :: "list_heap \<Rightarrow> addr \<Rightarrow> addr \<Rightarrow> list_heap option" where
  "list_entry_add_rcu h head entry = do {
     n \<leftarrow> get_next h head;
     i_list_entry_add_rcu h entry head n }"

definition list_entry_add_tail_rcu :: "list_heap \<Rightarrow> addr \<Rightarrow> addr \<Rightarrow> list_heap option" where
  "list_entry_add_tail_rcu h head entry = do {
     p \<leftarrow> get_prev h head;
     i_list_entry_add_rcu h entry p head }"

definition list_entry_del_rcu_writes :: "addr \<Rightarrow> addr \<Rightarrow> list_write list" where
  "list_entry_del_rcu_writes p n = [WNext p n, WPrev n p]"

definition list_entry_del_rcu :: "list_heap \<Rightarrow> addr \<Rightarrow> list_heap option" where
  "list_entry_del_rcu h entry = do {
     p \<leftarrow> get_prev h entry;
     n \<leftarrow> get_next h entry;
     list_writes h (list_entry_del_rcu_writes p n) }"

definition list_entry_del_init_rcu :: "list_heap \<Rightarrow> addr \<Rightarrow> list_heap option" where
  "list_entry_del_init_rcu h entry = do {
     h1 \<leftarrow> list_entry_del_rcu h entry;
     list_entry_init_rcu h1 entry }"

definition list_entry_replace_rcu :: "list_heap \<Rightarrow> addr \<Rightarrow> addr \<Rightarrow> list_heap option" where
  "list_entry_replace_rcu h old new = do {
     n \<leftarrow> get_next h old;
     h1 \<leftarrow> set_next h new n;
     p \<leftarrow> get_prev h1 old;
     h2 \<leftarrow> set_prev h1 new p;
     p2 \<leftarrow> get_prev h2 new;
     h3 \<leftarrow> set_next h2 p2 new;
     n3 \<leftarrow> get_next h3 new;
     set_prev h3 n3 new }"

definition i_list_entry_splice_rcu :: "list_heap \<Rightarrow> addr \<Rightarrow> addr \<Rightarrow> addr \<Rightarrow> list_heap option" where
  "i_list_entry_splice_rcu h lst prev nxt = do {
     first \<leftarrow> get_next h lst;
     last_e \<leftarrow> get_prev h lst;
     if first = lst then Some h
     else do {
       h1 \<leftarrow> list_entry_init_rcu h lst;
       h2 \<leftarrow> set_prev h1 first prev;
       h3 \<leftarrow> set_next h2 last_e nxt;
       h4 \<leftarrow> set_next h3 prev first;
       set_prev h4 nxt last_e } }"

definition list_entry_splice_head_rcu :: "list_heap \<Rightarrow> addr \<Rightarrow> addr \<Rightarrow> list_heap option" where
  "list_entry_splice_head_rcu h lst head = do {
     empty \<leftarrow> LIST_IS_EMPTY h lst;
     if \<not> empty then do { n \<leftarrow> get_next h head; i_list_entry_splice_rcu h lst head n }
     else Some h }"

definition list_entry_splice_tail_rcu :: "list_heap \<Rightarrow> addr \<Rightarrow> addr \<Rightarrow> list_heap option" where
  "list_entry_splice_tail_rcu h lst head = do {
     empty \<leftarrow> LIST_IS_EMPTY h lst;
     if \<not> empty then do { p \<leftarrow> get_prev h head; i_list_entry_splice_rcu h lst p head }
     else Some h }"

subsection \<open>Abstraction: the ring and its contents\<close>

fun links :: "list_heap \<Rightarrow> addr list \<Rightarrow> bool" where
  "links h [] = True"
| "links h [a] = True"
| "links h (a # b # zs) \<longleftrightarrow>
     get_next h a = Some b \<and> get_prev h b = Some a \<and> links h (b # zs)"

definition dlist :: "list_heap \<Rightarrow> addr \<Rightarrow> addr list \<Rightarrow> bool" where
  "dlist h head xs \<longleftrightarrow> distinct (head # xs) \<and> links h (head # xs @ [head])"

text \<open>The total counterparts of the two stores, for symbolic execution.\<close>

definition upd_next :: "list_heap \<Rightarrow> addr \<Rightarrow> addr \<Rightarrow> list_heap" where
  "upd_next h p v = h(p := map_option (ln_next_update (\<lambda>_. v)) (h p))"

definition upd_prev :: "list_heap \<Rightarrow> addr \<Rightarrow> addr \<Rightarrow> list_heap" where
  "upd_prev h p v = h(p := map_option (ln_prev_update (\<lambda>_. v)) (h p))"

lemma set_next_alloc [heap_simps]: "alloc h p \<Longrightarrow> set_next h p v = Some (upd_next h p v)"
  by (auto simp: set_next_def upd_next_def modify_def alloc_def deref_def)

lemma set_prev_alloc [heap_simps]: "alloc h p \<Longrightarrow> set_prev h p v = Some (upd_prev h p v)"
  by (auto simp: set_prev_def upd_prev_def modify_def alloc_def deref_def)

lemma alloc_upds [heap_simps]:
  "alloc (upd_next h p v) q \<longleftrightarrow> alloc h q"
  "alloc (upd_prev h p v) q \<longleftrightarrow> alloc h q"
  by (auto simp: upd_next_def upd_prev_def alloc_def)

lemma get_upd_next [heap_simps]:
  "get_next (upd_next h p v) q = (if q = p \<and> alloc h p then Some v else get_next h q)"
  "get_prev (upd_next h p v) q = get_prev h q"
  by (auto simp: get_next_def get_prev_def upd_next_def alloc_def deref_def split: option.splits)
    (cases "h p"; simp)+

lemma get_upd_prev [heap_simps]:
  "get_prev (upd_prev h p v) q = (if q = p \<and> alloc h p then Some v else get_prev h q)"
  "get_next (upd_prev h p v) q = get_next h q"
  by (auto simp: get_next_def get_prev_def upd_prev_def alloc_def deref_def split: option.splits)
    (cases "h p"; simp)+

lemma upd_frame [simp]:
  "q \<noteq> p \<Longrightarrow> upd_next h p v q = h q"
  "q \<noteq> p \<Longrightarrow> upd_prev h p v q = h q"
  by (auto simp: upd_next_def upd_prev_def)

lemma get_alloc:
  "get_next h p = Some v \<Longrightarrow> alloc h p"
  "get_prev h p = Some v \<Longrightarrow> alloc h p"
  by (auto simp: get_next_def get_prev_def dest: deref_SomeD)

lemma alloc_get: "alloc h p \<Longrightarrow> \<exists>n. get_next h p = Some n" "alloc h p \<Longrightarrow> \<exists>n. get_prev h p = Some n"
  by (auto simp: get_next_def get_prev_def alloc_iff_deref)

lemma links_append:
  "as \<noteq> [] \<Longrightarrow> bs \<noteq> [] \<Longrightarrow>
   links h (as @ bs) \<longleftrightarrow> links h as \<and> get_next h (last as) = Some (hd bs) \<and>
     get_prev h (hd bs) = Some (last as) \<and> links h bs"
proof (induction h as rule: links.induct)
  case (2 h a)
  then show ?case by (cases bs) auto
qed auto

lemma links_upd_next [heap_simps]:
  "p \<notin> set (butlast zs) \<Longrightarrow> links (upd_next h p v) zs = links h zs"
  by (induction h zs rule: links.induct) (auto simp: heap_simps)

lemma links_upd_prev [heap_simps]:
  "p \<notin> set (tl zs) \<Longrightarrow> links (upd_prev h p v) zs = links h zs"
  by (induction h zs rule: links.induct) (auto simp: heap_simps)

lemma links_alloc: "links h zs \<Longrightarrow> 2 \<le> length zs \<Longrightarrow> z \<in> set zs \<Longrightarrow> alloc h z"
proof (induction h zs rule: links.induct)
  case (3 h a b zs)
  then show ?case
    by (cases zs) (auto dest: get_alloc)
qed auto

lemma dlist_alloc: "dlist h head xs \<Longrightarrow> z \<in> insert head (set xs) \<Longrightarrow> alloc h z"
  by (auto simp: dlist_def intro: links_alloc)

lemma links_cong:
  "(\<And>z. z \<in> set zs \<Longrightarrow> h' z = h z) \<Longrightarrow> links h' zs = links h zs"
  by (induction h zs rule: links.induct) (auto simp: get_next_def get_prev_def deref_def)

lemma dlist_cong: "(\<And>z. z \<in> insert head (set xs) \<Longrightarrow> h' z = h z) \<Longrightarrow> dlist h' head xs = dlist h head xs"
  unfolding dlist_def by (subst links_cong [of _ h' h]) auto

definition same_off :: "addr set \<Rightarrow> list_heap \<Rightarrow> list_heap \<Rightarrow> bool" where
  "same_off S h h' \<longleftrightarrow> (\<forall>z. z \<notin> S \<longrightarrow> h' z = h z) \<and> (\<forall>z. alloc h' z = alloc h z)"

lemma same_off_refl [simp]: "same_off S h h"
  by (simp add: same_off_def)

lemma same_off_trans: "same_off S h h1 \<Longrightarrow> same_off S h1 h2 \<Longrightarrow> same_off S h h2"
  by (auto simp: same_off_def)

lemma same_off_mono: "same_off S h h' \<Longrightarrow> S \<subseteq> T \<Longrightarrow> same_off T h h'"
  by (auto simp: same_off_def)

lemma same_off_upd:
  "p \<in> S \<Longrightarrow> same_off S h (upd_next h p v)"
  "p \<in> S \<Longrightarrow> same_off S h (upd_prev h p v)"
  by (auto simp: same_off_def alloc_def upd_next_def upd_prev_def)

lemma same_off_step:
  "same_off S h h1 \<Longrightarrow> p \<in> S \<Longrightarrow> same_off S h (upd_next h1 p v)"
  "same_off S h h1 \<Longrightarrow> p \<in> S \<Longrightarrow> same_off S h (upd_prev h1 p v)"
  by (auto intro: same_off_trans same_off_upd)

lemma same_off_dlist:
  "same_off S h h' \<Longrightarrow> insert head (set xs) \<inter> S = {} \<Longrightarrow> dlist h head xs \<Longrightarrow> dlist h' head xs"
  by (subst dlist_cong [of _ _ h' h]) (auto simp: same_off_def)

text \<open>The ring cut open before \<open>ys\<close>: the form in which every insertion point is used.\<close>

lemma dlist_split:
  "dlist h head (xs @ ys) \<longleftrightarrow> distinct (head # xs @ ys) \<and> links h (head # xs) \<and>
     get_next h (last (head # xs)) = Some (hd (ys @ [head])) \<and>
     get_prev h (hd (ys @ [head])) = Some (last (head # xs)) \<and> links h (ys @ [head])"
  using links_append [of "head # xs" "ys @ [head]" h] by (auto simp: dlist_def)

lemma ring_hd_notin_tl: "distinct (head # xs @ ys) \<Longrightarrow> hd (ys @ [head]) \<notin> set (tl (ys @ [head]))"
  by (cases ys) auto

lemma ring_last_notin_butlast: "distinct (head # xs @ ys) \<Longrightarrow> last (head # xs) \<notin> set (butlast (head # xs))"
  by (rule last_notin_butlast) auto

lemma ring_last_notin_right: "distinct (head # xs @ ys) \<Longrightarrow> last (head # xs) \<notin> set (butlast (ys @ [head]))"
  using last_in_set [of xs] by (auto simp: disjoint_iff)

lemma ring_hd_notin_left: "distinct (head # xs @ ys) \<Longrightarrow> hd (ys @ [head]) \<notin> set (tl (head # xs))"
  by (cases ys) auto

lemma ring_hd_in: "hd (ys @ [head]) \<in> insert head (set ys)"
  by (cases ys) auto

lemma ring_last_in: "last (head # xs) \<in> insert head (set xs)"
  using last_in_set [of "head # xs"] by auto

lemmas ring_facts = ring_hd_notin_tl ring_last_notin_butlast ring_last_notin_right
  ring_hd_notin_left ring_hd_in ring_last_in

lemma list_entry_init_ok:
  assumes "alloc h e"
  shows "\<exists>h'. list_entry_init h e = Some h' \<and> dlist h' e [] \<and> same_off {e} h h'"
proof -
  let ?h = "upd_prev (upd_next h e e) e e"
  have "list_entry_init h e = Some ?h"
    using assms by (simp add: list_entry_init_def heap_simps)
  moreover have "dlist ?h e []"
    using assms by (simp add: dlist_def heap_simps)
  moreover have "same_off {e} h ?h"
    using assms by (auto simp: same_off_def heap_simps)
  ultimately show ?thesis by blast
qed

lemma list_entry_insert_ok:
  assumes d: "dlist h head (xs @ ys)" and e: "alloc h e" "e \<notin> insert head (set (xs @ ys))"
  shows "\<exists>h'. list_entry_insert h (last (head # xs)) e = Some h' \<and> dlist h' head (xs @ e # ys) \<and>
    same_off (insert e (insert head (set (xs @ ys)))) h h'"
proof -
  let ?p = "last (head # xs)" and ?n = "hd (ys @ [head])"
  let ?h = "upd_prev (upd_next (upd_next (upd_prev h e ?p) e ?n) ?p e) ?n e"
  from d have dist: "distinct (head # xs @ ys)" and L: "links h (head # xs)"
    and nx: "get_next h ?p = Some ?n" and pv: "get_prev h ?n = Some ?p" and R: "links h (ys @ [head])"
    by (simp_all add: dlist_split)
  have al: "alloc h ?p" "alloc h ?n" using nx pv by (auto dest: get_alloc)
  have pin: "?p \<in> insert head (set xs)" and nin: "?n \<in> insert head (set ys)"
    by (rule ring_last_in, rule ring_hd_in)
  have ne: "?p \<noteq> e" "?n \<noteq> e" using pin nin e(2) by auto
  have run: "list_entry_insert h ?p e = Some ?h"
    using al e ne nx by (simp add: list_entry_insert_def heap_simps)
  have eR: "e \<notin> set (ys @ [head])" and eL: "e \<notin> set (head # xs)" using e(2) by auto
  have bl: "e \<notin> set (butlast zs)" "e \<notin> set (tl zs)" if "e \<notin> set zs" for zs
    using that by (cases zs; auto dest: in_set_butlastD)+
  have "links ?h (head # xs)"
    using L al e ne ring_last_notin_butlast [OF dist] ring_hd_notin_left [OF dist] bl [OF eL]
    by (simp add: heap_simps del: butlast.simps last.simps list.sel)
  moreover have "links ?h (ys @ [head])"
    using R al e ne ring_last_notin_right [OF dist] ring_hd_notin_tl [OF dist] bl [OF eR]
    by (simp add: heap_simps del: butlast.simps last.simps)
  moreover have "get_next ?h ?p = Some e" "get_prev ?h ?n = Some e"
    "get_next ?h e = Some ?n" "get_prev ?h e = Some ?p"
    using al e ne by (simp_all add: heap_simps)
  ultimately have "links ?h ((head # xs) @ e # ys @ [head])"
    using links_append [of "head # xs" "e # ys @ [head]" ?h]
      links_append [of "[e]" "ys @ [head]" ?h] by simp
  then have "dlist ?h head (xs @ e # ys)"
    using dist e(2) by (auto simp: dlist_def)
  moreover have "same_off (insert e (insert head (set (xs @ ys)))) h ?h"
    using pin nin al e by (intro same_off_step) (auto simp: heap_simps)
  ultimately show ?thesis using run by blast
qed


lemma list_entry_detach_ok:
  assumes d: "dlist h head (xs @ e # ys)"
  shows "\<exists>h'. list_entry_detach h e = Some h' \<and> dlist h' head (xs @ ys) \<and> dlist h' e [] \<and>
    same_off (insert head (set (xs @ e # ys))) h h'"
proof -
  let ?p = "last (head # xs)" and ?n = "hd (ys @ [head])"
  let ?h2 = "upd_prev (upd_next h ?p ?n) ?n ?p"
  let ?h = "upd_prev (upd_next ?h2 e e) e e"
  have dist: "distinct (head # xs @ ys)" and e: "e \<notin> insert head (set (xs @ ys))"
    using d by (auto simp: dlist_def)
  have ring: "links h ((head # xs) @ [e] @ (ys @ [head]))"
    using d by (simp add: dlist_def)
  then have L: "links h (head # xs)" and R: "links h (ys @ [head])"
    and nx: "get_next h ?p = Some e" "get_prev h e = Some ?p"
    and pv: "get_prev h ?n = Some e" "get_next h e = Some ?n"
    using links_append [of "head # xs" "[e] @ ys @ [head]" h] links_append [of "[e]" "ys @ [head]" h]
    by auto
  have al: "alloc h ?p" "alloc h ?n" "alloc h e" using nx pv by (auto dest: get_alloc)
  have pin: "?p \<in> insert head (set xs)" and nin: "?n \<in> insert head (set ys)"
    by (rule ring_last_in, rule ring_hd_in)
  have ne: "?p \<noteq> e" "?n \<noteq> e" using pin nin e by auto
  have run: "list_entry_detach h e = Some ?h"
    using al ne nx pv
    by (simp add: list_entry_detach_def list_entry_init_def heap_simps eq_commute [of e])
  have eR: "e \<notin> set (ys @ [head])" and eL: "e \<notin> set (head # xs)" using e by auto
  have bl: "e \<notin> set (butlast zs)" "e \<notin> set (tl zs)" if "e \<notin> set zs" for zs
    using that by (cases zs; auto dest: in_set_butlastD)+
  have "links ?h (head # xs)"
    using L al ne ring_last_notin_butlast [OF dist] ring_hd_notin_left [OF dist] bl [OF eL]
    by (simp add: heap_simps del: butlast.simps last.simps list.sel)
  moreover have "links ?h (ys @ [head])"
    using R al ne ring_last_notin_right [OF dist] ring_hd_notin_tl [OF dist] bl [OF eR]
    by (simp add: heap_simps del: butlast.simps last.simps)
  moreover have "get_next ?h ?p = Some ?n" "get_prev ?h ?n = Some ?p"
    using al ne by (simp_all add: heap_simps)
  ultimately have "dlist ?h head (xs @ ys)"
    using dist by (simp add: dlist_split)
  moreover have "dlist ?h e []"
    using al by (simp add: dlist_def heap_simps)
  moreover have "same_off (insert head (set (xs @ e # ys))) h ?h"
    using pin nin al by (intro same_off_step) (auto simp: heap_simps)
  ultimately show ?thesis using run by blast
qed

lemma dlist_ends:
  assumes "dlist h head xs"
  shows "get_next h head = Some (hd (xs @ [head]))" "get_prev h head = Some (last (head # xs))"
  using assms dlist_split [of h head "[]" xs] dlist_split [of h head xs "[]"] by auto

lemma LIST_IS_EMPTY_ok: "dlist h head xs \<Longrightarrow> LIST_IS_EMPTY h head = Some (xs = [])"
  by (cases xs) (auto simp: LIST_IS_EMPTY_def dlist_ends dlist_def)

lemma LIST_FIRST_NODE_ok:
  "dlist h head xs \<Longrightarrow> LIST_FIRST_NODE h head = Some (if xs = [] then NULL else hd xs)"
  by (cases xs) (auto simp: LIST_FIRST_NODE_def dlist_ends dlist_def)

lemma LIST_LAST_NODE_ok:
  "dlist h head xs \<Longrightarrow> LIST_LAST_NODE h head = Some (if xs = [] then NULL else last xs)"
  using last_in_set [of xs] by (auto simp: LIST_LAST_NODE_def dlist_ends dlist_def)

lemma dlist_neighbours:
  assumes "dlist h head (xs @ e # ys)"
  shows "get_next h e = Some (hd (ys @ [head]))" "get_prev h e = Some (last (head # xs))"
  using assms links_append [of "head # xs" "[e] @ ys @ [head]" h] links_append [of "[e]" "ys @ [head]" h]
  by (auto simp: dlist_def)

lemma LIST_NEXT_NODE_ok:
  assumes "dlist h head (xs @ e # ys)"
  shows "LIST_NEXT_NODE h head e = Some (if ys = [] then NULL else hd ys)"
  using dlist_neighbours [OF assms] dlist_alloc [OF assms, of e] assms
  by (cases ys) (auto simp: LIST_NEXT_NODE_def dlist_def dest: alloc_not_NULL)

lemma LIST_PREV_NODE_ok:
  assumes "dlist h head (xs @ e # ys)"
  shows "LIST_PREV_NODE h head e = Some (if xs = [] then NULL else last xs)"
  using dlist_neighbours [OF assms] dlist_alloc [OF assms, of e] assms last_in_set [of xs]
  by (auto simp: LIST_PREV_NODE_def dlist_def dest: alloc_not_NULL)

lemma list_entry_push_ok:
  assumes "dlist h head xs" "alloc h e" "e \<notin> insert head (set xs)"
  shows "\<exists>h'. list_entry_push h head e = Some h' \<and> dlist h' head (xs @ [e]) \<and>
    same_off (insert e (insert head (set xs))) h h'"
  using list_entry_insert_ok [of h head xs "[]" e] assms dlist_ends(2) [OF assms(1)]
  by (auto simp: list_entry_push_def)

lemma list_entry_push_back_ok:
  assumes "dlist h head xs" "alloc h e" "e \<notin> insert head (set xs)"
  shows "\<exists>h'. list_entry_push_back h head e = Some h' \<and> dlist h' head (e # xs) \<and>
    same_off (insert e (insert head (set xs))) h h'"
  using list_entry_insert_ok [of h head "[]" xs e] assms by (auto simp: list_entry_push_back_def)

lemma list_entry_pop_back_ok:
  assumes "dlist h head (x # xs)"
  shows "\<exists>h'. list_entry_pop_back h head = Some (x, h') \<and> dlist h' head xs \<and> dlist h' x [] \<and>
    same_off (insert head (set (x # xs))) h h'"
  using list_entry_detach_ok [of h head "[]" x xs] assms dlist_ends(1) [OF assms]
  by (auto simp: list_entry_pop_back_def dlist_def)

lemma list_entry_pop_ok:
  assumes "dlist h head (xs @ [x])"
  shows "\<exists>h'. list_entry_pop h head = Some (x, h') \<and> dlist h' head xs \<and> dlist h' x [] \<and>
    same_off (insert head (set (xs @ [x]))) h h'"
  using list_entry_detach_ok [of h head xs x "[]"] assms dlist_ends(2) [OF assms]
  by (auto simp: list_entry_pop_def dlist_def)

lemma list_entry_pop_empty:
  "dlist h head [] \<Longrightarrow> list_entry_pop h head = Some (NULL, h)"
  "dlist h head [] \<Longrightarrow> list_entry_pop_back h head = Some (NULL, h)"
  using dlist_ends [of h head "[]"] by (auto simp: list_entry_pop_def list_entry_pop_back_def)

lemma list_entry_replace_ok:
  assumes d: "dlist h head (xs @ old # ys)" and n: "alloc h new" "new \<notin> insert head (set (xs @ old # ys))"
  shows "\<exists>h'. list_entry_replace h old new = Some h' \<and> dlist h' head (xs @ new # ys) \<and>
    dlist h' old [] \<and> same_off (insert new (insert head (set (xs @ old # ys)))) h h'"
proof -
  obtain h1 where h1: "list_entry_init h new = Some h1" "same_off {new} h h1"
    using list_entry_init_ok [OF n(1)] by blast
  have d1: "dlist h1 head (xs @ old # ys)"
    using same_off_dlist [OF h1(2) _ d] n(2) by auto
  obtain h2 where h2: "list_entry_detach h1 old = Some h2" "dlist h2 head (xs @ ys)" "dlist h2 old []"
    "same_off (insert head (set (xs @ old # ys))) h1 h2"
    using list_entry_detach_ok [OF d1] by blast
  have al: "alloc h2 new" using n(1) h1(2) h2(4) by (auto simp: same_off_def)
  obtain h3 where h3: "list_entry_insert h2 (last (head # xs)) new = Some h3"
    "dlist h3 head (xs @ new # ys)" "same_off (insert new (insert head (set (xs @ ys)))) h2 h3"
    using list_entry_insert_ok [OF h2(2) al] n(2) by auto
  have "dlist h3 old []"
    using same_off_dlist [OF h3(3) _ h2(3)] d n(2) by (auto simp: dlist_def)
  moreover have "same_off (insert new (insert head (set (xs @ old # ys)))) h h3"
    by (rule same_off_trans [OF same_off_mono [OF h1(2)]
          same_off_trans [OF same_off_mono [OF h2(4)] same_off_mono [OF h3(3)]]]) auto
  moreover have "list_entry_replace h old new = Some h3"
    using h1(1) h2(1) h3(1) dlist_neighbours [OF d1] dlist_alloc [OF d, of old] n d
    by (cases ys) (auto simp: list_entry_replace_def LIST_ENTRY_IS_DETACHED_def dlist_def
        dest: alloc_not_NULL split: if_splits)
  ultimately show ?thesis using h3(2) by blast
qed

lemma list_entry_insert_bulk_ok:
  assumes d: "dlist h head (xs @ ys)" and s: "dlist h src zs"
    and dis: "insert src (set zs) \<inter> insert head (set (xs @ ys)) = {}"
  shows "\<exists>h'. list_entry_insert_bulk h (last (head # xs)) src = Some h' \<and>
    dlist h' head (xs @ zs @ ys) \<and> dlist h' src [] \<and>
    same_off (insert src (set zs) \<union> insert head (set (xs @ ys))) h h'"
proof (cases "zs = []")
  case True
  then show ?thesis
    using d s by (auto simp: list_entry_insert_bulk_def LIST_IS_EMPTY_ok)
next
  case False
  let ?p = "last (head # xs)" and ?n = "hd (ys @ [head])" and ?f = "hd zs" and ?l = "last zs"
  let ?h4 = "upd_next (upd_prev (upd_next (upd_prev h ?f ?p) ?l ?n) ?n ?l) ?p ?f"
  let ?h = "upd_prev (upd_next ?h4 src src) src src"
  from d have dist: "distinct (head # xs @ ys)" and L: "links h (head # xs)"
    and nx: "get_next h ?p = Some ?n" and pv: "get_prev h ?n = Some ?p" and R: "links h (ys @ [head])"
    by (simp_all add: dlist_split)
  have ends: "get_next h src = Some ?f" "get_prev h src = Some ?l"
    using dlist_ends [OF s] False by auto
  have Z: "links h zs"
    using s links_append [of "[src]" "zs @ [src]" h] links_append [of zs "[src]" h] False
    by (simp add: dlist_def)
  have pin: "?p \<in> insert head (set xs)" and nin: "?n \<in> insert head (set ys)"
    by (rule ring_last_in, rule ring_hd_in)
  have fin: "?f \<in> set zs" and lin: "?l \<in> set zs" using False by auto
  have al: "alloc h ?p" "alloc h ?n" "alloc h ?f" "alloc h ?l" "alloc h src"
    using nx pv ends dlist_alloc [OF s] fin lin by (auto dest: get_alloc)
  have pz: "?p \<notin> insert src (set zs)" and nz: "?n \<notin> insert src (set zs)"
    using pin nin dis by (auto simp del: last.simps)
  have sz: "src \<notin> set zs" and zd: "distinct zs" using s by (simp_all add: dlist_def)
  have ne: "?p \<noteq> src" "?n \<noteq> src" "?p \<noteq> ?f" "?p \<noteq> ?l" "?n \<noteq> ?f" "?n \<noteq> ?l" "?f \<noteq> src" "?l \<noteq> src"
    using pz nz sz fin lin by auto
  have run: "list_entry_insert_bulk h ?p src = Some ?h"
    using al ne nx ends False s
    by (simp add: list_entry_insert_bulk_def list_entry_init_def LIST_IS_EMPTY_ok heap_simps)
  have sub: "a \<notin> set (butlast ws)" "a \<notin> set (tl ws)" if "a \<notin> set ws" for a and ws :: "addr list"
    using that by (cases ws; auto dest: in_set_butlastD)+
  have off: "?f \<notin> set (head # xs)" "?l \<notin> set (head # xs)" "src \<notin> set (head # xs)"
    "?f \<notin> set (ys @ [head])" "?l \<notin> set (ys @ [head])" "src \<notin> set (ys @ [head])"
    "?p \<notin> set zs" "?n \<notin> set zs" "src \<notin> set zs"
    using fin lin dis pz nz sz by (auto simp del: last.simps)
  have frame: "links ?h ws = links h ws"
    if "?f \<notin> set (tl ws)" "?l \<notin> set (butlast ws)" "?n \<notin> set (tl ws)" "?p \<notin> set (butlast ws)"
      "src \<notin> set (butlast ws)" "src \<notin> set (tl ws)" for ws
    using that by (simp only: links_upd_next links_upd_prev simp_thms)
  have "links ?h (head # xs)"
    using L frame ring_last_notin_butlast [OF dist] ring_hd_notin_left [OF dist]
      off(1-3) [THEN sub(1)] off(1-3) [THEN sub(2)] by blast
  moreover have "links ?h (ys @ [head])"
    using R frame ring_last_notin_right [OF dist] ring_hd_notin_tl [OF dist]
      off(4-6) [THEN sub(1)] off(4-6) [THEN sub(2)] by blast
  moreover have "links ?h zs"
    using Z frame last_notin_butlast [OF zd False] hd_notin_tl [OF zd False]
      off(7-9) [THEN sub(1)] off(7-9) [THEN sub(2)] by blast
  moreover have "get_next ?h ?p = Some ?f" "get_prev ?h ?f = Some ?p"
    "get_next ?h ?l = Some ?n" "get_prev ?h ?n = Some ?l"
    using al ne by (simp_all add: heap_simps)
  ultimately have "links ?h ((head # xs) @ zs @ (ys @ [head]))"
    using links_append [of "head # xs" "zs @ ys @ [head]" ?h] links_append [of zs "ys @ [head]" ?h] False
    by simp
  then have "dlist ?h head (xs @ zs @ ys)"
    using dist zd dis by (auto simp: dlist_def)
  moreover have "dlist ?h src []"
    using al by (simp add: dlist_def heap_simps)
  moreover have "same_off (insert src (set zs) \<union> insert head (set (xs @ ys))) h ?h"
    using pin nin fin lin al by (intro same_off_step) (auto simp: heap_simps)
  ultimately show ?thesis using run by blast
qed

subsection \<open>Traversals\<close>

text \<open>\<open>nexts\<close> is the part of \<open>links\<close> a forward reader uses.\<close>

fun nexts :: "list_heap \<Rightarrow> addr list \<Rightarrow> bool" where
  "nexts h [] = True"
| "nexts h [a] = True"
| "nexts h (a # b # zs) \<longleftrightarrow> get_next h a = Some b \<and> nexts h (b # zs)"

lemma links_nexts: "links h zs \<Longrightarrow> nexts h zs"
  by (induction h zs rule: links.induct) auto

lemma nexts_append:
  "as \<noteq> [] \<Longrightarrow> bs \<noteq> [] \<Longrightarrow>
   nexts h (as @ bs) \<longleftrightarrow> nexts h as \<and> get_next h (last as) = Some (hd bs) \<and> nexts h bs"
proof (induction h as rule: nexts.induct)
  case (2 h a)
  then show ?case by (cases bs) auto
qed auto

lemma nexts_upd [heap_simps]:
  "p \<notin> set (butlast zs) \<Longrightarrow> nexts (upd_next h p v) zs = nexts h zs"
  "nexts (upd_prev h p v) zs = nexts h zs"
  by (induction h zs rule: nexts.induct) (auto simp: heap_simps)

lemma list_walk_nexts:
  "nexts h (ys @ [head]) \<Longrightarrow> head \<notin> set ys \<Longrightarrow> list_walk h head (hd (ys @ [head])) = Some ys"
proof (induction ys)
  case Nil
  then show ?case by (simp add: list_walk.simps)
next
  case (Cons y ys)
  then have "get_next h y = Some (hd (ys @ [head]))" "nexts h (ys @ [head])"
    by (cases ys; simp)+
  with Cons show ?case by (simp add: list_walk.simps [of h head y])
qed

lemma list_foreach_entry_nexts:
  assumes "nexts h (head # xs @ [head])" "head \<notin> set xs"
  shows "list_foreach_entry h head = Some xs"
proof -
  have "get_next h head = Some (hd (xs @ [head]))" "nexts h (xs @ [head])"
    using assms(1) by (cases xs; simp)+
  then show ?thesis using list_walk_nexts assms(2) by (simp add: list_foreach_entry_def)
qed

lemma list_foreach_entry_ok: "dlist h head xs \<Longrightarrow> list_foreach_entry h head = Some xs"
  by (rule list_foreach_entry_nexts) (auto simp: dlist_def intro: links_nexts)

lemma list_walk_inv_links:
  "links h (head # xs) \<Longrightarrow> head \<notin> set xs \<Longrightarrow> list_walk_inv h head (last (head # xs)) = Some (rev xs)"
proof (induction xs rule: rev_induct)
  case Nil
  then show ?case by (simp add: list_walk_inv.simps)
next
  case (snoc x xs)
  have "get_prev h x = Some (last (head # xs))" "links h (head # xs)"
    using snoc.prems links_append [of "head # xs" "[x]" h] by auto
  with snoc show ?case by (simp add: list_walk_inv.simps [of h head x])
qed

lemma list_foreach_entry_inv_ok:
  assumes "dlist h head xs"
  shows "list_foreach_entry_inv h head = Some (rev xs)"
  using assms dlist_split [of h head xs "[]"] list_walk_inv_links [of h head xs]
  by (auto simp: list_foreach_entry_inv_def)

lemma list_find_from_ok:
  assumes "dlist h head (xs @ ys)"
  shows "list_find_from h match head (if ys = [] then NULL else hd ys) =
    Some (case filter match ys of [] \<Rightarrow> NULL | y # _ \<Rightarrow> y)"
  using assms
proof (induction ys arbitrary: xs)
  case Nil
  then show ?case by (simp add: list_find_from.simps)
next
  case (Cons y ys)
  have d: "dlist h head ((xs @ [y]) @ ys)" using Cons.prems by simp
  have "y \<noteq> NULL" using dlist_alloc [OF Cons.prems, of y] by (auto dest: alloc_not_NULL)
  then show ?case
    using Cons.IH [OF d] LIST_NEXT_NODE_ok [OF Cons.prems]
    by (simp add: list_find_from.simps [of h match head y])
qed

lemma list_find_first_ok:
  assumes "dlist h head xs"
  shows "list_find_first h match head = Some (case filter match xs of [] \<Rightarrow> NULL | y # _ \<Rightarrow> y)"
  using list_find_from_ok [of h head "[]" xs match] LIST_FIRST_NODE_ok [OF assms] assms
    dlist_alloc [OF assms, of "hd xs"]
  by (cases xs) (auto simp: list_find_first_def list_find_next_def dest: alloc_not_NULL)

subsection \<open>The RCU operations refine the plain ones\<close>

lemma i_list_entry_add_rcu_eq_insert:
  assumes "get_next h p = Some n" "alloc h e" "alloc h n" "e \<noteq> p"
  shows "i_list_entry_add_rcu h e p n = list_entry_insert h p e"
proof -
  have "upd_prev (upd_next h e n) e p = upd_next (upd_prev h e p) e n"
    by (cases "h e") (auto simp: upd_next_def upd_prev_def)
  with assms show ?thesis
    by (simp add: i_list_entry_add_rcu_def i_list_entry_add_rcu_writes_def list_entry_insert_def
        heap_simps get_alloc(1) [OF assms(1)])
qed

text \<open>What a reader that starts between two stores of the insertion sees.\<close>

lemma i_list_entry_add_rcu_snapshots:
  assumes d: "dlist h head (xs @ ys)" and e: "alloc h e" "e \<notin> insert head (set (xs @ ys))"
  shows "\<exists>h'. list_writes h (take k (i_list_entry_add_rcu_writes e (last (head # xs)) (hd (ys @ [head])))) = Some h' \<and>
    list_foreach_entry h' head = Some (if k < 3 then xs @ ys else xs @ e # ys)"
proof -
  let ?p = "last (head # xs)" and ?n = "hd (ys @ [head])"
  let ?ws = "i_list_entry_add_rcu_writes e ?p ?n"
  let ?h1 = "upd_next h e ?n" and ?h2 = "upd_prev (upd_next h e ?n) e ?p"
  let ?h3 = "upd_next ?h2 ?p e"
  from d have dist: "distinct (head # xs @ ys)" and L: "links h (head # xs)"
    and nx: "get_next h ?p = Some ?n" and pv: "get_prev h ?n = Some ?p" and R: "links h (ys @ [head])"
    by (simp_all add: dlist_split)
  have al: "alloc h ?p" "alloc h ?n" using nx pv by (auto dest: get_alloc)
  have ne: "?p \<noteq> e" using ring_last_in [of head xs] e(2) by auto
  have sub: "e \<notin> set (butlast zs)" if "e \<notin> set zs" for zs
    using that by (auto dest: in_set_butlastD)
  have old: "nexts h (head # (xs @ ys) @ [head])"
    using d by (auto simp: dlist_def intro: links_nexts)
  have eo: "e \<notin> set (butlast (head # (xs @ ys) @ [head]))"
    using e(2) by (intro sub) auto
  have o1: "nexts ?h1 (head # (xs @ ys) @ [head])" and o2: "nexts ?h2 (head # (xs @ ys) @ [head])"
    using old eo e(1) by (simp_all add: heap_simps del: butlast.simps)
  have "nexts ?h3 (head # xs)" "nexts ?h3 (ys @ [head])"
    using links_nexts [OF L] links_nexts [OF R] al e ne ring_last_notin_butlast [OF dist]
      ring_last_notin_right [OF dist] sub [of "head # xs"] sub [of "ys @ [head]"]
    by (simp_all add: heap_simps del: butlast.simps last.simps)
  moreover have "get_next ?h3 ?p = Some e" "get_next ?h3 e = Some ?n"
    using al e ne by (simp_all add: heap_simps)
  ultimately have n3: "nexts ?h3 (head # (xs @ e # ys) @ [head])"
    using nexts_append [of "head # xs" "[e] @ ys @ [head]" ?h3] nexts_append [of "[e]" "ys @ [head]" ?h3]
    by simp
  then have n4: "nexts (upd_prev ?h3 ?n e) (head # (xs @ e # ys) @ [head])"
    using al e by (simp add: heap_simps)
  have hx: "head \<notin> set (xs @ ys)" "head \<notin> set (xs @ e # ys)" using dist e(2) by auto
  note fe = list_foreach_entry_nexts [OF old hx(1)] list_foreach_entry_nexts [OF o1 hx(1)]
    list_foreach_entry_nexts [OF o2 hx(1)] list_foreach_entry_nexts [OF n3 hx(2)]
    list_foreach_entry_nexts [OF n4 hx(2)]
  consider "k = 0" | "k = 1" | "k = 2" | "k = 3" | "4 \<le> k" by linarith
  then show ?thesis
  proof cases
    assume "4 \<le> k"
    then show ?thesis
      using fe(5) al e by (simp add: i_list_entry_add_rcu_writes_def heap_simps)
  qed (use fe al e in \<open>auto simp: i_list_entry_add_rcu_writes_def heap_simps numeral_2_eq_2 numeral_3_eq_3\<close>)
qed

lemma list_entry_del_rcu_ok:
  assumes d: "dlist h head (xs @ e # ys)"
  shows "\<exists>h'. list_entry_del_rcu h e = Some h' \<and> dlist h' head (xs @ ys) \<and>
    get_next h' e = get_next h e \<and> get_prev h' e = get_prev h e \<and>
    list_walk h' head e = Some (e # ys) \<and> same_off (insert head (set (xs @ ys))) h h'"
proof -
  let ?p = "last (head # xs)" and ?n = "hd (ys @ [head])"
  let ?h = "upd_prev (upd_next h ?p ?n) ?n ?p"
  have dist: "distinct (head # xs @ ys)" and e: "e \<notin> insert head (set (xs @ ys))"
    using d by (auto simp: dlist_def)
  have ring: "links h ((head # xs) @ [e] @ (ys @ [head]))"
    using d by (simp add: dlist_def)
  then have L: "links h (head # xs)" and R: "links h (ys @ [head])"
    and nx: "get_next h ?p = Some e" "get_prev h e = Some ?p"
    and pv: "get_prev h ?n = Some e" "get_next h e = Some ?n"
    using links_append [of "head # xs" "[e] @ ys @ [head]" h] links_append [of "[e]" "ys @ [head]" h]
    by auto
  have al: "alloc h ?p" "alloc h ?n" "alloc h e" using nx pv by (auto dest: get_alloc)
  have pin: "?p \<in> insert head (set xs)" and nin: "?n \<in> insert head (set ys)"
    by (rule ring_last_in, rule ring_hd_in)
  have ne: "?p \<noteq> e" "?n \<noteq> e" using pin nin e by auto
  have run: "list_entry_del_rcu h e = Some ?h"
    using al nx pv by (simp add: list_entry_del_rcu_def list_entry_del_rcu_writes_def heap_simps)
  have "links ?h (head # xs)"
    using L al ring_last_notin_butlast [OF dist] ring_hd_notin_left [OF dist]
    by (simp add: heap_simps del: butlast.simps last.simps list.sel)
  moreover have R': "links ?h (ys @ [head])"
    using R al ring_last_notin_right [OF dist] ring_hd_notin_tl [OF dist]
    by (simp add: heap_simps del: butlast.simps last.simps)
  moreover have "get_next ?h ?p = Some ?n" "get_prev ?h ?n = Some ?p"
    using al by (simp_all add: heap_simps)
  ultimately have "dlist ?h head (xs @ ys)"
    using dist by (simp add: dlist_split)
  moreover have ge: "get_next ?h e = get_next h e" "get_prev ?h e = get_prev h e"
    using al ne by (simp_all add: heap_simps)
  moreover have "list_walk ?h head e = Some (e # ys)"
    using list_walk_nexts [OF links_nexts [OF R']] dist ge e pv
    by (subst list_walk.simps) (auto simp del: last.simps)
  moreover have "same_off (insert head (set (xs @ ys))) h ?h"
    using pin nin al by (intro same_off_step) (auto simp: heap_simps)
  ultimately show ?thesis using run by blast
qed

lemma list_entry_add_rcu_ok:
  assumes "dlist h head xs" "alloc h e" "e \<notin> insert head (set xs)"
  shows "\<exists>h'. list_entry_add_rcu h head e = Some h' \<and> dlist h' head (e # xs) \<and>
    same_off (insert e (insert head (set xs))) h h'"
proof -
  have n: "get_next h head = Some (hd (xs @ [head]))" by (rule dlist_ends(1) [OF assms(1)])
  have "alloc h (hd (xs @ [head]))" by (rule dlist_alloc [OF assms(1) ring_hd_in])
  then have "list_entry_add_rcu h head e = list_entry_push_back h head e"
    using i_list_entry_add_rcu_eq_insert [OF n assms(2)] assms(3) n
    by (simp add: list_entry_add_rcu_def list_entry_push_back_def)
  then show ?thesis using list_entry_push_back_ok [OF assms] by simp
qed

lemma list_entry_add_tail_rcu_ok:
  assumes "dlist h head xs" "alloc h e" "e \<notin> insert head (set xs)"
  shows "\<exists>h'. list_entry_add_tail_rcu h head e = Some h' \<and> dlist h' head (xs @ [e]) \<and>
    same_off (insert e (insert head (set xs))) h h'"
proof -
  have p: "get_prev h head = Some (last (head # xs))" by (rule dlist_ends(2) [OF assms(1)])
  have n: "get_next h (last (head # xs)) = Some head"
    using dlist_split [of h head xs "[]"] assms(1) by simp
  have "e \<noteq> last (head # xs)" using assms(3) ring_last_in [of head xs] by auto
  then have "list_entry_add_tail_rcu h head e = list_entry_push h head e"
    using i_list_entry_add_rcu_eq_insert [OF n assms(2)] dlist_alloc [OF assms(1), of head] p
    by (simp add: list_entry_add_tail_rcu_def list_entry_push_def)
  then show ?thesis using list_entry_push_ok [OF assms] by simp
qed

lemma ln_update_commute:
  "ln_prev_update f (ln_next_update g x) = ln_next_update g (ln_prev_update f x)"
  by (cases x) simp

lemma upd_at:
  "upd_next h p v q = (if q = p then map_option (ln_next_update (\<lambda>_. v)) (h p) else h q)"
  "upd_prev h p v q = (if q = p then map_option (ln_prev_update (\<lambda>_. v)) (h p) else h q)"
  by (simp_all add: upd_next_def upd_prev_def)

text \<open>
  The splice initialises the source head before it links the entries, where the bulk
  insertion does it last; both leave the same heap.
\<close>

lemma i_list_entry_splice_rcu_eq_bulk:
  assumes d: "dlist h head (xs @ ys)" and s: "dlist h src zs"
    and dis: "insert src (set zs) \<inter> insert head (set (xs @ ys)) = {}"
  shows "i_list_entry_splice_rcu h src (last (head # xs)) (hd (ys @ [head])) =
    list_entry_insert_bulk h (last (head # xs)) src"
proof (cases "zs = []")
  case True
  then show ?thesis
    using s dlist_ends [OF s] by (simp add: i_list_entry_splice_rcu_def list_entry_insert_bulk_def LIST_IS_EMPTY_ok)
next
  case False
  let ?p = "last (head # xs)" and ?n = "hd (ys @ [head])" and ?f = "hd zs" and ?l = "last zs"
  have nx: "get_next h ?p = Some ?n" and pv: "get_prev h ?n = Some ?p"
    using d by (simp_all add: dlist_split)
  have ends: "get_next h src = Some ?f" "get_prev h src = Some ?l"
    using dlist_ends [OF s] False by auto
  have fin: "?f \<in> set zs" and lin: "?l \<in> set zs" using False by auto
  have al: "alloc h ?p" "alloc h ?n" "alloc h ?f" "alloc h ?l" "alloc h src"
    using nx pv ends dlist_alloc [OF s] fin lin by (auto dest: get_alloc)
  have pz: "?p \<notin> insert src (set zs)" and nz: "?n \<notin> insert src (set zs)"
    using ring_last_in [of head xs] ring_hd_in [of ys head] dis by (auto simp del: last.simps)
  have sz: "src \<notin> set zs" using s by (simp add: dlist_def)
  have ne: "?p \<noteq> src" "?n \<noteq> src" "?p \<noteq> ?f" "?p \<noteq> ?l" "?n \<noteq> ?f" "?n \<noteq> ?l" "?f \<noteq> src" "?l \<noteq> src"
    using pz nz sz fin lin by auto
  have "i_list_entry_splice_rcu h src ?p ?n =
    Some (upd_prev (upd_next (upd_next (upd_prev (upd_prev (upd_next h src src) src src) ?f ?p) ?l ?n) ?p ?f) ?n ?l)"
    using al ne nx ends by (simp add: i_list_entry_splice_rcu_def list_entry_init_rcu_def heap_simps)
  moreover have "list_entry_insert_bulk h ?p src =
    Some (upd_prev (upd_next (upd_next (upd_prev (upd_next (upd_prev h ?f ?p) ?l ?n) ?n ?l) ?p ?f) src src) src src)"
    using al ne nx ends False s
    by (simp add: list_entry_insert_bulk_def list_entry_init_def LIST_IS_EMPTY_ok heap_simps)
  moreover have "upd_prev (upd_next (upd_next (upd_prev (upd_prev (upd_next h src src) src src) ?f ?p) ?l ?n) ?p ?f) ?n ?l =
    upd_prev (upd_next (upd_next (upd_prev (upd_next (upd_prev h ?f ?p) ?l ?n) ?n ?l) ?p ?f) src src) src src"
    using ne by (intro ext) (simp add: upd_at option.map_comp comp_def ln_update_commute del: last.simps)
  ultimately show ?thesis by simp
qed

lemma list_entry_replace_rcu_ok:
  assumes d: "dlist h head (xs @ old # ys)" and n: "alloc h new" "new \<notin> insert head (set (xs @ old # ys))"
  shows "\<exists>h'. list_entry_replace_rcu h old new = Some h' \<and> dlist h' head (xs @ new # ys) \<and>
    get_next h' old = get_next h old \<and> list_walk h' head old = Some (old # ys) \<and>
    same_off (insert new (insert head (set (xs @ ys)))) h h'"
proof -
  let ?p = "last (head # xs)" and ?n = "hd (ys @ [head])"
  obtain h1 where del: "list_entry_del_rcu h old = Some h1" "dlist h1 head (xs @ ys)"
    "get_next h1 old = get_next h old" "same_off (insert head (set (xs @ ys))) h h1"
    using list_entry_del_rcu_ok [OF d] by blast
  have al: "alloc h1 new" using n(1) del(4) by (simp add: same_off_def)
  obtain h2 where ins: "list_entry_insert h1 ?p new = Some h2" "dlist h2 head (xs @ new # ys)"
    "same_off (insert new (insert head (set (xs @ ys)))) h1 h2"
    using list_entry_insert_ok [OF del(2) al] n(2) by auto
  note nb = dlist_neighbours [OF d]
  have nx: "get_next h ?p = Some old" and pv: "get_prev h ?n = Some old"
    using d links_append [of "head # xs" "[old] @ ys @ [head]" h] links_append [of "[old]" "ys @ [head]" h]
    by (auto simp: dlist_def)
  have hal: "alloc h ?p" "alloc h ?n" "alloc h old"
    using nb nx pv by (auto dest: get_alloc)
  have ne: "?p \<noteq> new" "?n \<noteq> new" "old \<noteq> new"
    using ring_last_in [of head xs] ring_hd_in [of ys head] n(2) by auto
  have "list_entry_replace_rcu h old new =
      Some (upd_prev (upd_next (upd_prev (upd_next h new ?n) new ?p) ?p new) ?n new)"
    using nb hal ne n(1) by (simp add: list_entry_replace_rcu_def heap_simps)
  moreover have "upd_prev (upd_next (upd_prev (upd_next h new ?n) new ?p) ?p new) ?n new = h2"
  proof -
    have h1: "h1 = upd_prev (upd_next h ?p ?n) ?n ?p"
      using del(1) nb hal by (simp add: list_entry_del_rcu_def list_entry_del_rcu_writes_def heap_simps)
    have "h2 = upd_prev (upd_next (upd_next (upd_prev h1 new ?p) new ?n) ?p new) ?n new"
      using ins(1) h1 n(1) hal ne by (simp add: list_entry_insert_def heap_simps)
    then show ?thesis
      using ne unfolding h1 by (intro ext) (simp add: upd_at option.map_comp comp_def ln_update_commute del: last.simps)
  qed
  moreover have old2: "get_next h2 old = get_next h old"
    using ins(3) del(3) d ne by (auto simp: same_off_def get_next_def deref_def dlist_def)
  moreover have "list_walk h2 head old = Some (old # ys)"
  proof -
    have "links h2 (ys @ [head])"
      using ins(2) dlist_split [of h2 head "xs @ [new]" ys] by simp
    then have "list_walk h2 head ?n = Some ys"
      using list_walk_nexts links_nexts d by (auto simp: dlist_def)
    then show ?thesis using old2 nb d by (subst list_walk.simps) (auto simp: dlist_def)
  qed
  moreover have "same_off (insert new (insert head (set (xs @ ys)))) h h2"
    by (rule same_off_trans [OF same_off_mono [OF del(4)] ins(3)]) auto
  ultimately show ?thesis using ins(2) by simp
qed

subsection \<open>Properties of the list library\<close>

text \<open>A concrete heap with an empty list at 16 and two loose entries, for the witnesses.\<close>

definition demo_heap :: list_heap where
  "demo_heap = [16 \<mapsto> \<lparr>ln_prev = 16, ln_next = 16\<rparr>, 32 \<mapsto> \<lparr>ln_prev = 32, ln_next = 32\<rparr>,
     48 \<mapsto> \<lparr>ln_prev = 64, ln_next = 64\<rparr>, 64 \<mapsto> \<lparr>ln_prev = 48, ln_next = 48\<rparr>]"

lemma demo_heap_facts:
  "dlist demo_heap 16 []" "dlist demo_heap 48 [64]" "alloc demo_heap 32"
  by (simp_all add: demo_heap_def dlist_def get_next_def get_prev_def deref_def alloc_def)

text \<open>
  C16. Inserting an entry after any position of a list and detaching it again: the insertion
  puts the entry exactly at that position, the detachment restores the old contents and
  leaves the entry as a list of its own, no dereference fails, and no node outside the list
  and the entry is written.
\<close>

theorem list_insert_detach_roundtrip:
  assumes "dlist h head (xs @ ys)" and "alloc h e" and "e \<notin> insert head (set (xs @ ys))"
  shows "\<exists>h1 h2. list_entry_insert h (last (head # xs)) e = Some h1 \<and>
    dlist h1 head (xs @ e # ys) \<and> list_entry_detach h1 e = Some h2 \<and>
    dlist h2 head (xs @ ys) \<and> dlist h2 e [] \<and>
    (\<forall>z. z \<notin> insert e (insert head (set (xs @ ys))) \<longrightarrow> h2 z = h z)"
proof -
  obtain h1 where h1: "list_entry_insert h (last (head # xs)) e = Some h1"
    "dlist h1 head (xs @ e # ys)" "same_off (insert e (insert head (set (xs @ ys)))) h h1"
    using list_entry_insert_ok [OF assms] by blast
  obtain h2 where h2: "list_entry_detach h1 e = Some h2" "dlist h2 head (xs @ ys)" "dlist h2 e []"
    "same_off (insert head (set (xs @ e # ys))) h1 h2"
    using list_entry_detach_ok [OF h1(2)] by blast
  have "h2 z = h z" if "z \<notin> insert e (insert head (set (xs @ ys)))" for z
    using h1(3) h2(4) that by (auto simp: same_off_def)
  with h1 h2 show ?thesis by blast
qed

theorem list_insert_detach_roundtrip_witness:
  "\<exists>h1 h2. list_entry_insert demo_heap 64 32 = Some h1 \<and> dlist h1 48 [64, 32] \<and>
    list_entry_detach h1 32 = Some h2 \<and> dlist h2 48 [64] \<and> dlist h2 32 []"
  using list_insert_detach_roundtrip [of demo_heap 48 "[64]" "[]" 32] demo_heap_facts
  by auto

text \<open>
  C9. RCU insertion is safe against readers at every moment: after any number \<open>k\<close> of its
  stores, a reader that walks the \<open>next\<close> links terminates and sees either exactly the old
  list (before the third store, which publishes the entry) or exactly the new one.
\<close>

theorem list_entry_add_rcu_readers:
  assumes "dlist h head (xs @ ys)" and "alloc h e" and "e \<notin> insert head (set (xs @ ys))"
  shows "\<exists>h'. list_writes h (take k (i_list_entry_add_rcu_writes e (last (head # xs)) (hd (ys @ [head])))) = Some h' \<and>
    list_foreach_entry h' head = Some (if k < 3 then xs @ ys else xs @ e # ys)"
  using assms by (rule i_list_entry_add_rcu_snapshots)

theorem list_entry_add_rcu_readers_witness:
  "\<exists>h'. list_writes demo_heap (take 3 (i_list_entry_add_rcu_writes 32 64 48)) = Some h' \<and>
    list_foreach_entry h' 48 = Some [64, 32]"
  using list_entry_add_rcu_readers [of demo_heap 48 "[64]" "[]" 32 3] demo_heap_facts
  by auto

text \<open>
  C17. RCU removal: the list loses exactly the entry, while the entry keeps its own links, so
  that a reader standing on it still walks the rest of the list and terminates.
\<close>

theorem list_entry_del_rcu_readers:
  assumes "dlist h head (xs @ e # ys)"
  shows "\<exists>h'. list_entry_del_rcu h e = Some h' \<and> dlist h' head (xs @ ys) \<and>
    list_foreach_entry h' head = Some (xs @ ys) \<and>
    get_next h' e = get_next h e \<and> list_walk h' head e = Some (e # ys)"
  using list_entry_del_rcu_ok [OF assms] list_foreach_entry_ok by blast

theorem list_entry_del_rcu_readers_witness:
  "\<exists>h'. list_entry_del_rcu demo_heap 64 = Some h' \<and> list_foreach_entry h' 48 = Some [] \<and>
    list_walk h' 48 64 = Some [64]"
  using list_entry_del_rcu_readers [of demo_heap 48 "[]" 64 "[]"] demo_heap_facts by auto

text \<open>
  C18. Moving a whole list: \<open>list_entry_insert_bulk\<close> and the RCU splice leave the same heap,
  in which the source entries stand, in order, at the insertion point and the source head is
  an empty list.
\<close>

theorem list_bulk_move:
  assumes "dlist h head (xs @ ys)" and "dlist h src zs"
    and "insert src (set zs) \<inter> insert head (set (xs @ ys)) = {}"
  shows "\<exists>h'. list_entry_insert_bulk h (last (head # xs)) src = Some h' \<and>
    i_list_entry_splice_rcu h src (last (head # xs)) (hd (ys @ [head])) = Some h' \<and>
    dlist h' head (xs @ zs @ ys) \<and> dlist h' src []"
  using list_entry_insert_bulk_ok [OF assms] i_list_entry_splice_rcu_eq_bulk [OF assms] by auto

theorem list_bulk_move_witness:
  "\<exists>h'. list_entry_insert_bulk demo_heap 16 48 = Some h' \<and> dlist h' 16 [64] \<and> dlist h' 48 []"
  using list_bulk_move [of demo_heap 16 "[]" "[]" 48 "[64]"] demo_heap_facts by auto

end
