(* ===== verification/Bits.thy ===== *)
theory Bits
  imports Prelude
begin

text \<open>
  The bit utilities of \<open>kernel/inc/bits.h\<close> and the tables of \<open>kernel/bits.c\<close>. The kernel is
  built with \<open>USE_SOFTWARE_FFS\<close>, which selects the table-driven macros; the untested fallback
  (binary search) of the same header is modelled as well and shown to compute the same
  values. Sizes and bit indices are unbounded naturals here; the scans are used with limits
  far below \<open>2 ^ 63\<close>, where the casts of the source lose nothing.
\<close>

subsection \<open>Tables\<close>

definition i_uint8_bits_count :: "int list" where
  "i_uint8_bits_count =
    [0, 1, 1, 2, 1, 2, 2, 3, 1, 2, 2, 3, 2, 3, 3, 4, 1, 2, 2, 3, 2, 3, 3, 4, 2, 3, 3, 4, 3, 4, 4,
    5, 1, 2, 2, 3, 2, 3, 3, 4, 2, 3, 3, 4, 3, 4, 4, 5, 2, 3, 3, 4, 3, 4, 4, 5, 3, 4, 4, 5, 4, 5,
    5, 6, 1, 2, 2, 3, 2, 3, 3, 4, 2, 3, 3, 4, 3, 4, 4, 5, 2, 3, 3, 4, 3, 4, 4, 5, 3, 4, 4, 5, 4,
    5, 5, 6, 2, 3, 3, 4, 3, 4, 4, 5, 3, 4, 4, 5, 4, 5, 5, 6, 3, 4, 4, 5, 4, 5, 5, 6, 4, 5, 5, 6,
    5, 6, 6, 7, 1, 2, 2, 3, 2, 3, 3, 4, 2, 3, 3, 4, 3, 4, 4, 5, 2, 3, 3, 4, 3, 4, 4, 5, 3, 4, 4,
    5, 4, 5, 5, 6, 2, 3, 3, 4, 3, 4, 4, 5, 3, 4, 4, 5, 4, 5, 5, 6, 3, 4, 4, 5, 4, 5, 5, 6, 4, 5,
    5, 6, 5, 6, 6, 7, 2, 3, 3, 4, 3, 4, 4, 5, 3, 4, 4, 5, 4, 5, 5, 6, 3, 4, 4, 5, 4, 5, 5, 6, 4,
    5, 5, 6, 5, 6, 6, 7, 3, 4, 4, 5, 4, 5, 5, 6, 4, 5, 5, 6, 5, 6, 6, 7, 4, 5, 5, 6, 5, 6, 6, 7,
    5, 6, 6, 7, 6, 7, 7, 8]"

definition i_uint8_trailing_zeros :: "int list" where
  "i_uint8_trailing_zeros =
    [-1, 0, 1, 0, 2, 0, 1, 0, 3, 0, 1, 0, 2, 0, 1, 0, 4, 0, 1, 0, 2, 0, 1, 0, 3, 0, 1, 0, 2, 0, 1,
    0, 5, 0, 1, 0, 2, 0, 1, 0, 3, 0, 1, 0, 2, 0, 1, 0, 4, 0, 1, 0, 2, 0, 1, 0, 3, 0, 1, 0, 2, 0,
    1, 0, 6, 0, 1, 0, 2, 0, 1, 0, 3, 0, 1, 0, 2, 0, 1, 0, 4, 0, 1, 0, 2, 0, 1, 0, 3, 0, 1, 0, 2,
    0, 1, 0, 5, 0, 1, 0, 2, 0, 1, 0, 3, 0, 1, 0, 2, 0, 1, 0, 4, 0, 1, 0, 2, 0, 1, 0, 3, 0, 1, 0,
    2, 0, 1, 0, 7, 0, 1, 0, 2, 0, 1, 0, 3, 0, 1, 0, 2, 0, 1, 0, 4, 0, 1, 0, 2, 0, 1, 0, 3, 0, 1,
    0, 2, 0, 1, 0, 5, 0, 1, 0, 2, 0, 1, 0, 3, 0, 1, 0, 2, 0, 1, 0, 4, 0, 1, 0, 2, 0, 1, 0, 3, 0,
    1, 0, 2, 0, 1, 0, 6, 0, 1, 0, 2, 0, 1, 0, 3, 0, 1, 0, 2, 0, 1, 0, 4, 0, 1, 0, 2, 0, 1, 0, 3,
    0, 1, 0, 2, 0, 1, 0, 5, 0, 1, 0, 2, 0, 1, 0, 3, 0, 1, 0, 2, 0, 1, 0, 4, 0, 1, 0, 2, 0, 1, 0,
    3, 0, 1, 0, 2, 0, 1, 0]"

definition i_uint8_leading_zeros :: "int list" where
  "i_uint8_leading_zeros =
    [-1, 7, 6, 6, 5, 5, 5, 5, 4, 4, 4, 4, 4, 4, 4, 4, 3, 3, 3, 3, 3, 3, 3, 3, 3, 3, 3, 3, 3, 3, 3,
    3, 2, 2, 2, 2, 2, 2, 2, 2, 2, 2, 2, 2, 2, 2, 2, 2, 2, 2, 2, 2, 2, 2, 2, 2, 2, 2, 2, 2, 2, 2,
    2, 2, 1, 1, 1, 1, 1, 1, 1, 1, 1, 1, 1, 1, 1, 1, 1, 1, 1, 1, 1, 1, 1, 1, 1, 1, 1, 1, 1, 1, 1,
    1, 1, 1, 1, 1, 1, 1, 1, 1, 1, 1, 1, 1, 1, 1, 1, 1, 1, 1, 1, 1, 1, 1, 1, 1, 1, 1, 1, 1, 1, 1,
    1, 1, 1, 1, 0, 0, 0, 0, 0, 0, 0, 0, 0, 0, 0, 0, 0, 0, 0, 0, 0, 0, 0, 0, 0, 0, 0, 0, 0, 0, 0,
    0, 0, 0, 0, 0, 0, 0, 0, 0, 0, 0, 0, 0, 0, 0, 0, 0, 0, 0, 0, 0, 0, 0, 0, 0, 0, 0, 0, 0, 0, 0,
    0, 0, 0, 0, 0, 0, 0, 0, 0, 0, 0, 0, 0, 0, 0, 0, 0, 0, 0, 0, 0, 0, 0, 0, 0, 0, 0, 0, 0, 0, 0,
    0, 0, 0, 0, 0, 0, 0, 0, 0, 0, 0, 0, 0, 0, 0, 0, 0, 0, 0, 0, 0, 0, 0, 0, 0, 0, 0, 0, 0, 0, 0,
    0, 0, 0, 0, 0, 0, 0, 0]"

definition bits_ffs8 :: "u8 \<Rightarrow> int" where
  "bits_ffs8 x = i_uint8_trailing_zeros ! unat x + 1"

definition bits_clz8 :: "u8 \<Rightarrow> int" where
  "bits_clz8 x = i_uint8_leading_zeros ! unat x"

definition bits_ctz8 :: "u8 \<Rightarrow> int" where
  "bits_ctz8 x = i_uint8_trailing_zeros ! unat x"

definition bits_popcount8 :: "u8 \<Rightarrow> int" where
  "bits_popcount8 x = i_uint8_bits_count ! unat x"

subsection \<open>Table-driven scans of a word\<close>

text \<open>The operand is widened to 64 bits, which the macros do for every caller in the kernel.\<close>

function bits_ctz_loop :: "u64 \<Rightarrow> int \<Rightarrow> int \<Rightarrow> u64 \<times> int" where
  "bits_ctz_loop tmp res rem =
     (if tmp AND 0xFF = 0 \<and> rem > 0 then bits_ctz_loop (drop_bit 8 tmp) (res + 8) (rem - 8)
      else (tmp, res))"
  by auto
termination by (relation "measure (\<lambda>(tmp, res, rem). nat rem)") auto

definition bits_ctz_x :: "u64 \<Rightarrow> int \<Rightarrow> int" where
  "bits_ctz_x x width =
     (if x \<noteq> 0 then
        let (tmp, res) = bits_ctz_loop x 0 width in res + bits_ctz8 (ucast (tmp AND 0xFF))
      else -1)"

function bits_clz_loop :: "u64 \<Rightarrow> int \<Rightarrow> int \<Rightarrow> int \<Rightarrow> int" where
  "bits_clz_loop val highest bit_index width =
     (if val \<noteq> 0 \<and> bit_index < width then
        let byte = ucast (val AND 0xFF) :: u8 in
        bits_clz_loop (drop_bit 8 val)
          (if byte \<noteq> 0 then bit_index + (7 - bits_clz8 byte) else highest) (bit_index + 8) width
      else highest)"
  by auto
termination by (relation "measure (\<lambda>(val, highest, bit_index, width). nat (width - bit_index))") auto

definition bits_clz_x :: "u64 \<Rightarrow> int \<Rightarrow> int" where
  "bits_clz_x x width =
     (if width > 0 then
        let val = (if width < 64 then x AND (push_bit (nat width) 1 - 1) else x) in
        if val \<noteq> 0 then
          let highest = bits_clz_loop val (-1) 0 width;
              highest' = (if highest \<ge> width then width - 1 else highest)
          in (width - 1) - highest'
        else -1
      else -1)"

definition bits_ffs_x :: "u64 \<Rightarrow> int \<Rightarrow> int" where
  "bits_ffs_x x width = bits_ctz_x x width + 1"

function bits_popcount_loop :: "u64 \<Rightarrow> int \<Rightarrow> int \<Rightarrow> int" where
  "bits_popcount_loop tmp tot rem =
     (if tmp \<noteq> 0 \<and> rem > 0 then
        bits_popcount_loop (drop_bit 8 tmp) (tot + bits_popcount8 (ucast (tmp AND 0xFF))) (rem - 8)
      else tot)"
  by auto
termination by (relation "measure (\<lambda>(tmp, tot, rem). nat rem)") auto

definition bits_popcount_x :: "u64 \<Rightarrow> int \<Rightarrow> int" where
  "bits_popcount_x x width = bits_popcount_loop x 0 width"

declare bits_ctz_loop.simps [simp del] bits_clz_loop.simps [simp del] bits_popcount_loop.simps [simp del]

definition bits_ctz64 :: "u64 \<Rightarrow> int" where
  "bits_ctz64 x = bits_ctz_x x 64"

definition bits_ffsg :: "u64 \<Rightarrow> int \<Rightarrow> int" where
  "bits_ffsg x size_of = bits_ffs_x x (8 * size_of)"

definition bits_clzg :: "u64 \<Rightarrow> int \<Rightarrow> int" where
  "bits_clzg x size_of = bits_clz_x x (8 * size_of)"

subsection \<open>The fallback: binary search and a bit loop\<close>

definition i_bits_binary_steps :: "nat list" where
  "i_bits_binary_steps = [32, 16, 8, 4, 2, 1]"

text \<open>One scan over the steps; the early exit on a zero word is the \<open>break\<close> of the source.\<close>

fun fb_ctz_steps :: "nat list \<Rightarrow> u64 \<Rightarrow> nat \<Rightarrow> nat \<Rightarrow> nat" where
  "fb_ctz_steps [] x result remaining = result"
| "fb_ctz_steps (shift # steps) x result remaining =
     (if shift > remaining then fb_ctz_steps steps x result remaining
      else if x AND (push_bit shift 1 - 1) = 0 then
        let x' = drop_bit shift x in
        if x' = 0 then result + shift
        else fb_ctz_steps steps x' (result + shift) (remaining - shift)
      else fb_ctz_steps steps x result remaining)"

definition fb_ctz_x :: "u64 \<Rightarrow> int \<Rightarrow> int" where
  "fb_ctz_x x width =
     (if width \<le> 0 then -1
      else
        let bits = (if width < 64 then nat width else 64);
            x' = (if bits < 64 then x AND (push_bit bits 1 - 1) else x)
        in if x' = 0 then -1 else int (fb_ctz_steps i_bits_binary_steps x' 0 bits))"

definition fb_ffs_x :: "u64 \<Rightarrow> int \<Rightarrow> int" where
  "fb_ffs_x x width = (let idx = fb_ctz_x x width in if idx < 0 then 0 else idx + 1)"

fun fb_clz_steps :: "nat list \<Rightarrow> u64 \<Rightarrow> nat \<Rightarrow> nat \<Rightarrow> nat" where
  "fb_clz_steps [] x result remaining = result"
| "fb_clz_steps (shift # steps) x result remaining =
     (if int shift > int remaining - 1 then fb_clz_steps steps x result remaining
      else if x AND push_bit (64 - shift) (NOT 0) = 0 then
        fb_clz_steps steps (push_bit shift x) (result + shift) (remaining - shift)
      else fb_clz_steps steps x result remaining)"

definition fb_clz_x :: "u64 \<Rightarrow> int \<Rightarrow> int" where
  "fb_clz_x x width =
     (if width \<le> 0 then -1
      else
        let bits = (if width < 64 then nat width else 64);
            x' = (if bits < 64 then x AND (push_bit bits 1 - 1) else x);
            padding = (if bits < 64 then 64 - bits else 0)
        in if x' = 0 then -1
           else int (fb_clz_steps i_bits_binary_steps (push_bit padding x') 0 bits))"

function fb_popcount_loop :: "u64 \<Rightarrow> nat \<Rightarrow> int \<Rightarrow> int" where
  "fb_popcount_loop x width cnt =
     (if x \<noteq> 0 \<and> width \<noteq> 0 then fb_popcount_loop (drop_bit 1 x) (width - 1) (cnt + uint (x AND 1))
      else cnt)"
  by auto
termination by (relation "measure (\<lambda>(x, width, cnt). width)") auto

declare fb_popcount_loop.simps [simp del]

definition fb_popcount_x :: "u64 \<Rightarrow> nat \<Rightarrow> int" where
  "fb_popcount_x x width = fb_popcount_loop x width 0"

subsection \<open>Scans of a memory region\<close>

type_synonym mem = "addr \<rightharpoonup> u8"

fun le_word :: "u8 list \<Rightarrow> u64" where
  "le_word [] = 0"
| "le_word (b # bs) = ucast b OR push_bit 8 (le_word bs)"

definition load_bytes :: "mem \<Rightarrow> addr \<Rightarrow> nat \<Rightarrow> u8 list option" where
  "load_bytes m a n = those (map (\<lambda>k. m (a + of_nat k)) [0..<n])"

definition load64 :: "mem \<Rightarrow> addr \<Rightarrow> u64 option" where
  "load64 m a = map_option le_word (load_bytes m a 8)"

text \<open>
  The byte loops and the chunk loop: the outer option is a failing load, the inner one says
  whether a bit was found; a bit at or after \<open>limit\<close> ends the search with \<open>-1\<close>.
\<close>

definition within_limit :: "nat \<Rightarrow> int \<Rightarrow> int" where
  "within_limit limit bit_pos = (if bit_pos \<ge> int limit then -1 else bit_pos)"

function scan_bytes :: "mem \<Rightarrow> addr \<Rightarrow> nat \<Rightarrow> bool \<Rightarrow> nat \<Rightarrow> nat \<Rightarrow> int option option" where
  "scan_bytes m ptr limit iv i n =
     (if i < n then do {
        b \<leftarrow> m (ptr + of_nat i);
        let byte = (if iv then NOT b else b);
        if byte \<noteq> 0 then Some (Some (within_limit limit (push_bit 3 (int i) OR bits_ctz8 byte)))
        else scan_bytes m ptr limit iv (i + 1) n
      } else Some None)"
  by auto
termination by (relation "measure (\<lambda>(m, ptr, limit, iv, i, n). n - i)") auto

function scan_chunks :: "mem \<Rightarrow> addr \<Rightarrow> nat \<Rightarrow> bool \<Rightarrow> nat \<Rightarrow> nat \<Rightarrow> (nat \<times> int option) option" where
  "scan_chunks m ptr limit iv index n =
     (if index + 8 \<le> n then do {
        c \<leftarrow> load64 m (ptr + of_nat index);
        let chunk = (if iv then NOT c else c);
        if chunk \<noteq> 0 then Some (index, Some (within_limit limit (push_bit 3 (int index) + bits_ctz64 chunk)))
        else scan_chunks m ptr limit iv (index + 8) n
      } else Some (index, None))"
  by auto
termination by (relation "measure (\<lambda>(m, ptr, limit, iv, index, n). n - index)") auto

declare scan_bytes.simps [simp del] scan_chunks.simps [simp del]

definition i_bits_ctz_ptr :: "mem \<Rightarrow> addr \<Rightarrow> nat \<Rightarrow> bool \<Rightarrow> int option" where
  "i_bits_ctz_ptr m ptr limit iv =
     (if ptr = NULL then Some (-1)
      else
        let byte_limit = drop_bit 3 (limit + 7);
            aligned_start = (ptr + 7) AND NOT 7;
            trailing_bytes = min (unat (aligned_start - ptr)) byte_limit
        in do {
          prefix \<leftarrow> scan_bytes m ptr limit iv 0 trailing_bytes;
          case prefix of
            Some r \<Rightarrow> Some r
          | None \<Rightarrow> do {
              (index, found) \<leftarrow> scan_chunks m ptr limit iv trailing_bytes byte_limit;
              case found of
                Some r \<Rightarrow> Some r
              | None \<Rightarrow> do {
                  rest \<leftarrow> scan_bytes m ptr limit iv index byte_limit;
                  Some (case rest of Some r \<Rightarrow> r | None \<Rightarrow> -1) } } })"

definition i_bits_ctz_ptr_from :: "mem \<Rightarrow> addr \<Rightarrow> nat \<Rightarrow> nat \<Rightarrow> bool \<Rightarrow> int option" where
  "i_bits_ctz_ptr_from m ptr from_bit limit iv =
     (if ptr = NULL \<or> from_bit \<ge> limit then Some (-1)
      else
        let start_byte_index = drop_bit 3 from_bit in do {
          b \<leftarrow> m (ptr + of_nat start_byte_index);
          let first_byte = drop_bit (from_bit AND 7) (if iv then NOT b else b);
              ret = bits_ctz8 first_byte;
              bit_pos = int from_bit + ret;
              next_byte = start_byte_index + 1;
              byte_limit = drop_bit 3 (limit + 7);
              remaining_bits = limit - push_bit 3 next_byte
          in if ret \<ge> 0 then Some (if bit_pos < int limit then bit_pos else -1)
             else if next_byte \<ge> byte_limit then Some (-1)
             else do {
               sub_ret \<leftarrow> i_bits_ctz_ptr m (ptr + of_nat next_byte) remaining_bits iv;
               Some (if sub_ret < 0 then -1 else int (push_bit 3 next_byte) + sub_ret) } })"

subsection \<open>Iteration over the set bits\<close>

definition bits_next_bit_set :: "u64 \<Rightarrow> int \<Rightarrow> int" where
  "bits_next_bit_set bits lst =
     (let start = lst + 1 in
      if start \<ge> 64 then -1
      else let delta = bits_ctz64 (drop_bit (nat start) bits) in
        if delta < 0 then -1 else start + delta)"

text \<open>The positions the \<open>for\<close> loop visits; 64 rounds of fuel cover every word.\<close>

fun bits_foreach_from :: "nat \<Rightarrow> u64 \<Rightarrow> int \<Rightarrow> int list" where
  "bits_foreach_from 0 bits pos = []"
| "bits_foreach_from (Suc n) bits pos =
     (if pos \<ge> 0 then pos # bits_foreach_from n bits (bits_next_bit_set bits pos) else [])"

definition bits_foreach_set_bit :: "u64 \<Rightarrow> int list" where
  "bits_foreach_set_bit bits = bits_foreach_from 65 bits (bits_next_bit_set bits (-1))"

subsection \<open>Byte swaps\<close>

definition bswap16 :: "16 word \<Rightarrow> 16 word" where
  "bswap16 x = push_bit 8 (x AND 0x00FF) OR drop_bit 8 (x AND 0xFF00)"

definition bswap32 :: "u32 \<Rightarrow> u32" where
  "bswap32 x = push_bit 24 (x AND 0x000000FF) OR push_bit 8 (x AND 0x0000FF00) OR
     drop_bit 8 (x AND 0x00FF0000) OR drop_bit 24 (x AND 0xFF000000)"

text \<open>
  The macro has a logical \<open>||\<close> between the fifth and the sixth term, and a mask with one
  zero too many in the seventh.
\<close>

definition bswap64 :: "u64 \<Rightarrow> u64" where
  "bswap64 x =
     (let l = push_bit 56 (x AND 0x00000000000000FF) OR push_bit 40 (x AND 0x000000000000FF00) OR
              push_bit 24 (x AND 0x0000000000FF0000) OR push_bit 8 (x AND 0x00000000FF000000) OR
              drop_bit 8 (x AND 0x000000FF00000000);
          r = drop_bit 24 (x AND 0x0000FF0000000000) OR
              drop_bit 40 (x AND 0x00FF0000000000000) OR
              drop_bit 56 (x AND 0xFF00000000000000)
      in if l \<noteq> 0 \<or> r \<noteq> 0 then 1 else 0)"

subsection \<open>Bitmaps of 64-bit elements\<close>

definition bitmap_mask :: "nat \<Rightarrow> u64" where
  "bitmap_mask bit_index = push_bit (bit_index AND (push_bit 6 1 - 1)) 1"

definition bits_test_and_set_bit64 :: "u64 list \<Rightarrow> nat \<Rightarrow> (bool \<times> u64 list) option" where
  "bits_test_and_set_bit64 bitmap bit_index =
     (let byte_index = drop_bit 6 bit_index; mask = bitmap_mask bit_index in
      if byte_index < length bitmap then
        Some (bitmap ! byte_index AND mask \<noteq> 0,
              bitmap[byte_index := bitmap ! byte_index OR mask])
      else None)"

definition bits_test_and_clear_bit64 :: "u64 list \<Rightarrow> nat \<Rightarrow> (bool \<times> u64 list) option" where
  "bits_test_and_clear_bit64 bitmap bit_index =
     (let byte_index = drop_bit 6 bit_index; mask = bitmap_mask bit_index in
      if byte_index < length bitmap then
        Some (bitmap ! byte_index AND mask \<noteq> 0,
              bitmap[byte_index := bitmap ! byte_index AND NOT mask])
      else None)"

definition bits_test_bit64 :: "u64 list \<Rightarrow> nat \<Rightarrow> bool option" where
  "bits_test_bit64 bitmap bit_index =
     (let byte_index = drop_bit 6 bit_index; mask = bitmap_mask bit_index in
      if byte_index < length bitmap then Some (bitmap ! byte_index AND mask \<noteq> 0) else None)"

subsection \<open>What the scans compute\<close>

text \<open>The index of the first position below \<open>n\<close> where \<open>P\<close> holds, or \<open>-1\<close>.\<close>

definition first_set :: "(nat \<Rightarrow> bool) \<Rightarrow> nat \<Rightarrow> int \<Rightarrow> bool" where
  "first_set P n r \<longleftrightarrow>
     (if \<exists>i<n. P i then 0 \<le> r \<and> nat r < n \<and> P (nat r) \<and> (\<forall>j<nat r. \<not> P j) else r = -1)"

text \<open>The number of leading positions below \<open>n\<close> where \<open>P\<close> fails, or \<open>-1\<close> if all fail.\<close>

definition leading :: "(nat \<Rightarrow> bool) \<Rightarrow> nat \<Rightarrow> int \<Rightarrow> bool" where
  "leading P n r \<longleftrightarrow>
     (if \<exists>i<n. P i then 0 \<le> r \<and> nat r < n \<and> P (n - 1 - nat r) \<and> (\<forall>j<n. n - 1 - nat r < j \<longrightarrow> \<not> P j)
      else r = -1)"

lemma first_set_unique: "first_set P n r \<Longrightarrow> first_set P n s \<Longrightarrow> r = s"
  unfolding first_set_def
  by (metis (full_types) linorder_neqE_nat nat_eq_iff2)

lemma first_setI: "i < n \<Longrightarrow> P i \<Longrightarrow> (\<And>j. j < i \<Longrightarrow> \<not> P j) \<Longrightarrow> first_set P n (int i)"
  by (auto simp: first_set_def)

lemma first_set_noneI: "(\<And>j. j < n \<Longrightarrow> \<not> P j) \<Longrightarrow> first_set P n (-1)"
  by (auto simp: first_set_def)

lemma first_set_cong:
  assumes "first_set P n r" "\<And>j. j < n \<Longrightarrow> P j = Q j"
  shows "first_set Q n r"
proof (cases "\<exists>i<n. P i")
  case True
  then have "0 \<le> r" "nat r < n" "P (nat r)" "\<forall>j<nat r. \<not> P j"
    using assms(1) [unfolded first_set_def if_P [OF True]] by blast+
  then have "first_set Q n (int (nat r))"
    using assms(2) less_trans [OF _ \<open>nat r < n\<close>] by (intro first_setI) auto
  then show ?thesis using \<open>0 \<le> r\<close> by simp
next
  case False
  then have "r = -1" using assms(1) by (simp add: first_set_def)
  then show ?thesis using False assms(2) by (auto intro: first_set_noneI)
qed

definition ctz_entry :: "int \<Rightarrow> int \<Rightarrow> bool" where
  "ctz_entry n r \<longleftrightarrow> (if n = 0 then r = -1 else list_ex (\<lambda>k. r = int k \<and> n mod 2 ^ k = 0 \<and> odd (n div 2 ^ k)) [0..<8])"

definition clz_entry :: "int \<Rightarrow> int \<Rightarrow> bool" where
  "clz_entry n r \<longleftrightarrow> (if n = 0 then r = -1 else list_ex (\<lambda>k. r = 7 - int k \<and> n div 2 ^ k = 1) [0..<8])"

definition pop_entry :: "int \<Rightarrow> int \<Rightarrow> bool" where
  "pop_entry n r \<longleftrightarrow> r = sum_list (map (\<lambda>k. (n div 2 ^ k) mod 2) [0..<8])"

lemma tables_length:
  "length i_uint8_bits_count = 256" "length i_uint8_trailing_zeros = 256"
  "length i_uint8_leading_zeros = 256"
  by (simp_all add: i_uint8_bits_count_def i_uint8_trailing_zeros_def i_uint8_leading_zeros_def)

lemma ctz_table: "list_all (\<lambda>(n, r). ctz_entry n r) (zip [0..255] i_uint8_trailing_zeros)"
  by code_simp

lemma clz_table: "list_all (\<lambda>(n, r). clz_entry n r) (zip [0..255] i_uint8_leading_zeros)"
  by code_simp

lemma pop_table: "list_all (\<lambda>(n, r). pop_entry n r) (zip [0..255] i_uint8_bits_count)"
  by code_simp

lemma table_nth: "list_all (\<lambda>(n, r). Q n r) (zip [0..255] tab) \<Longrightarrow> length tab = 256 \<Longrightarrow>
    Q (uint (x::u8)) (tab ! unat x)"
proof -
  assume *: "list_all (\<lambda>(n, r). Q n r) (zip [0..255] tab)" and l: "length tab = 256"
  have u: "unat x < 256" using unsigned_less [of x] by simp
  have "zip [0..255] tab ! n = (int n, tab ! n)" if "n < 256" for n
    using l that by (simp add: nth_upto)
  from this [OF u] have e: "zip [0..255] tab ! unat x = (int (unat x), tab ! unat x)" .
  have "length (zip [0..255] tab) = 256" using l by simp
  then have "(\<lambda>(n, r). Q n r) (zip [0..255] tab ! unat x)"
    using * u unfolding list_all_length by metis
  then show ?thesis unfolding e by simp
qed

lemma bit_u8: "bit (x::u8) k \<longleftrightarrow> odd (uint x div 2 ^ k)"
  by (metis bit_iff_odd bit_uint_iff bit_imp_le_length linorder_not_le)

lemma bits_ctz8_spec: "first_set (bit x) 8 (bits_ctz8 x)"
proof -
  have e: "ctz_entry (uint x) (bits_ctz8 x)"
    unfolding bits_ctz8_def by (rule table_nth [OF ctz_table tables_length(2)])
  show ?thesis
  proof (cases "x = 0")
    case True
    then show ?thesis using e by (simp add: ctz_entry_def first_set_noneI)
  next
    case False
    then obtain k where k: "bits_ctz8 x = int k" "k < 8" "uint x mod 2 ^ k = 0" "odd (uint x div 2 ^ k)"
      using e by (auto simp: ctz_entry_def list_ex_iff uint_0_iff)
    have "take_bit k (uint x) = 0" using k(3) by (simp add: take_bit_eq_mod)
    then have "j < k \<Longrightarrow> \<not> bit x j" for j
      by (metis bit_0_eq bit_take_bit_iff bot_apply bot_bool_def bit_uint_iff bit_imp_le_length linorder_not_le)
    then show ?thesis unfolding k(1) using k by (intro first_setI) (auto simp: bit_u8)
  qed
qed

lemma bits_clz8_spec: "leading (bit x) 8 (bits_clz8 x)"
proof -
  have e: "clz_entry (uint x) (bits_clz8 x)"
    unfolding bits_clz8_def by (rule table_nth [OF clz_table tables_length(3)])
  show ?thesis
  proof (cases "x = 0")
    case True
    then show ?thesis using e by (simp add: clz_entry_def leading_def)
  next
    case False
    then obtain k where k: "bits_clz8 x = 7 - int k" "k < 8" "uint x div 2 ^ k = 1"
      using e by (auto simp: clz_entry_def list_ex_iff uint_0_iff)
    have b: "bit x k" using k(3) by (simp add: bit_u8)
    have "\<not> bit x j" if "k < j" for j
    proof -
      have "uint x div 2 ^ j = uint x div 2 ^ k div 2 ^ (j - k)"
        using that by (simp add: zdiv_zmult2_eq [symmetric] power_add [symmetric])
      also have "\<dots> = 0" using that k(3) by simp
      finally show ?thesis by (simp add: bit_u8)
    qed
    moreover have "nat (7 - int k) = 7 - k" using k(2) by simp
    ultimately show ?thesis using k b by (auto simp: leading_def)
  qed
qed

definition popcount :: "(nat \<Rightarrow> bool) \<Rightarrow> nat \<Rightarrow> int" where
  "popcount P n = int (card {i. i < n \<and> P i})"

lemma popcount_sum: "popcount P n = (\<Sum>i<n. of_bool (P i))"
proof -
  have "{i. i < n \<and> P i} = {..<n} \<inter> {i. P i}" by auto
  then show ?thesis by (simp add: popcount_def of_bool_def sum.If_cases)
qed

lemma bits_popcount8_spec: "bits_popcount8 x = popcount (bit x) 8"
proof -
  have "pop_entry (uint x) (bits_popcount8 x)"
    unfolding bits_popcount8_def by (rule table_nth [OF pop_table tables_length(1)])
  then have "bits_popcount8 x = (\<Sum>k<8. (uint x div 2 ^ k) mod 2)"
    by (simp add: pop_entry_def sum_list_sum_nth atLeast0LessThan)
  also have "\<dots> = popcount (bit x) 8"
    unfolding popcount_sum by (intro sum.cong) (auto simp: bit_u8 odd_iff_mod_2_eq_one)
  finally show ?thesis .
qed

text \<open>The low byte of a word and the rest.\<close>

lemma bit_low_byte: "bit (ucast ((x::u64) AND 0xFF) :: u8) k \<longleftrightarrow> k < 8 \<and> bit x k"
proof -
  have "x AND 0xFF = take_bit 8 x" by (simp add: take_bit_eq_mask mask_eq_decr_exp)
  then show ?thesis by (auto simp: bit_take_bit_iff bit_ucast_iff dest: bit_imp_le_length)
qed

lemma bit_low_byte_fun: "bit (ucast ((x::u64) AND 0xFF) :: u8) = (\<lambda>k. k < 8 \<and> bit x k)"
  by (intro ext bit_low_byte)

lemma low_byte_zero: "(x::u64) AND 0xFF = 0 \<longleftrightarrow> (\<forall>k<8. \<not> bit x k)"
proof -
  have "x AND 0xFF = take_bit 8 x" by (simp add: take_bit_eq_mask mask_eq_decr_exp)
  then show ?thesis by (auto simp: bit_eq_iff bit_take_bit_iff dest: bit_imp_le_length)
qed

lemma low_byte_zero': "ucast ((x::u64) AND 0xFF) = (0::u8) \<longleftrightarrow> (\<forall>k<8. \<not> bit x k)"
  by (auto simp: bit_eq_iff bit_low_byte)

lemma word_nonzero_bit: "(x::u64) \<noteq> 0 \<longleftrightarrow> (\<exists>k<64. bit x k)"
  by (auto simp: bit_eq_iff dest: bit_imp_le_length)

lemma bits_ctz_loop_spec:
  "bits_ctz_loop t res rem = (t', res') \<Longrightarrow> \<exists>k<nat rem. bit t k \<Longrightarrow>
   \<exists>d. res' = res + int d \<and> t' = drop_bit d t \<and> (\<forall>j<d. \<not> bit t j) \<and> (\<exists>k<8. bit t' k)"
proof (induction t res rem arbitrary: t' res' rule: bits_ctz_loop.induct)
  case (1 t res rem)
  obtain k where k: "k < nat rem" "bit t k" using "1.prems" by blast
  show ?case
  proof (cases "t AND 0xFF = 0")
    case True
    then have "8 \<le> k" using k by (metis low_byte_zero not_le)
    then have "\<exists>k<nat (rem - 8). bit (drop_bit 8 t) k"
      using k by (intro exI [of _ "k - 8"]) (auto simp: bit_drop_bit_eq)
    moreover have rec: "bits_ctz_loop (drop_bit 8 t) (res + 8) (rem - 8) = (t', res')"
      using "1.prems"(1) True k bits_ctz_loop.simps [of t res rem] by (cases "0 < rem") auto
    ultimately obtain d where d: "res' = res + 8 + int d"
      "t' = drop_bit d (drop_bit 8 t)" "\<forall>j<d. \<not> bit (drop_bit 8 t) j" "\<exists>k<8. bit t' k"
      using "1.IH" [OF _ rec] True k by fastforce
    have "\<not> bit t j" if "j < 8 + d" for j
      using that d(3) True by (cases "j < 8") (auto simp: low_byte_zero bit_drop_bit_eq dest: spec [of _ "j - 8"])
    then show ?thesis using d by (intro exI [of _ "8 + d"]) (auto simp: drop_bit_drop_bit add.commute)
  next
    case False
    then have "t' = t" "res' = res" using "1.prems"(1) bits_ctz_loop.simps [of t res rem] by auto
    then show ?thesis using False by (intro exI [of _ 0]) (auto simp: low_byte_zero)
  qed
qed

lemma bits_ctz_x_spec:
  assumes "\<And>k. bit x k \<Longrightarrow> k < w"
  shows "first_set (bit x) w (bits_ctz_x x (int w))"
proof (cases "x = 0")
  case True
  then show ?thesis by (simp add: bits_ctz_x_def first_set_noneI)
next
  case False
  obtain t r where l: "bits_ctz_loop x 0 (int w) = (t, r)" by fastforce
  from False assms have "\<exists>k<nat (int w). bit x k" using word_nonzero_bit by auto
  from bits_ctz_loop_spec [OF l this] obtain d where
    d: "r = int d" "t = drop_bit d x" "\<forall>j<d. \<not> bit x j" "\<exists>k<8. bit t k" by auto
  let ?c = "bits_ctz8 (ucast (t AND 0xFF))"
  have f: "first_set (\<lambda>k. k < 8 \<and> bit t k) 8 ?c"
    using bits_ctz8_spec [of "ucast (t AND 0xFF)"] unfolding bit_low_byte_fun .
  then have c: "0 \<le> ?c" "nat ?c < 8" "bit t (nat ?c)" "\<forall>j<nat ?c. \<not> bit t j"
    using d(4) by (auto simp: first_set_def)
  have b: "bit x (d + nat ?c)" using c(3) d(2) by (simp add: bit_drop_bit_eq)
  have "\<not> bit x j" if "j < d + nat ?c" for j
    using that c(4) d(2,3) by (cases "j < d") (auto simp: bit_drop_bit_eq dest: spec [of _ "j - d"])
  then have "first_set (bit x) w (int (d + nat ?c))" using b assms by (intro first_setI) auto
  then show ?thesis using False l d c by (simp add: bits_ctz_x_def)
qed

definition msb :: "(nat \<Rightarrow> bool) \<Rightarrow> int \<Rightarrow> bool" where
  "msb P h \<longleftrightarrow> (if \<exists>i. P i then 0 \<le> h \<and> P (nat h) \<and> (\<forall>j>nat h. \<not> P j) else h = -1)"

lemma msb_byte:
  assumes "val = drop_bit idx (x::u64)" "msb (\<lambda>i. bit x i \<and> i < idx) h"
    and "h' = (if ucast (val AND 0xFF) \<noteq> (0::u8) then int idx + (7 - bits_clz8 (ucast (val AND 0xFF))) else h)"
  shows "msb (\<lambda>i. bit x i \<and> i < idx + 8) h'"
proof (cases "\<exists>k<8. bit val k")
  case False
  then have "\<not> bit x i" if "idx \<le> i" "i < idx + 8" for i
    using that assms(1) by (auto simp: bit_drop_bit_eq dest: spec [of _ "i - idx"])
  then have "(\<lambda>i. bit x i \<and> i < idx + 8) = (\<lambda>i. bit x i \<and> i < idx)"
    by (intro ext) (metis add_lessD1 linorder_not_le trans_less_add1)
  then show ?thesis using assms False by (auto simp: low_byte_zero')
next
  case True
  let ?c = "bits_clz8 (ucast (val AND 0xFF))"
  have "leading (\<lambda>k. k < 8 \<and> bit val k) 8 ?c"
    using bits_clz8_spec [of "ucast (val AND 0xFF)"] unfolding bit_low_byte_fun .
  then have c: "0 \<le> ?c" "nat ?c < 8" "bit val (7 - nat ?c)" "\<forall>j<8. 7 - nat ?c < j \<longrightarrow> \<not> bit val j"
    using True by (auto simp: leading_def)
  define m where "m = idx + (7 - nat ?c)"
  have h': "h' = int m" using assms(3) True c(1,2) by (auto simp: low_byte_zero' m_def)
  have b: "bit x m" "m < idx + 8" using c(2,3) assms(1) by (simp_all add: bit_drop_bit_eq m_def)
  have "\<not> (bit x j \<and> j < idx + 8)" if "m < j" for j
    using that c(4) assms(1) by (auto simp: bit_drop_bit_eq m_def dest: spec [of _ "j - idx"])
  then show ?thesis using b unfolding msb_def h' by auto
qed

lemma bits_clz_loop_spec:
  "val = drop_bit idx x \<Longrightarrow> bi = int idx \<Longrightarrow> msb (\<lambda>i. bit x i \<and> i < idx) h \<Longrightarrow>
   (\<And>k. bit x k \<Longrightarrow> int k < w) \<Longrightarrow> msb (bit x) (bits_clz_loop val h bi w)"
proof (induction val h bi w arbitrary: idx rule: bits_clz_loop.induct)
  case (1 val h bi w)
  show ?case
  proof (cases "val \<noteq> 0 \<and> bi < w")
    case True
    let ?h = "if ucast (val AND 0xFF) \<noteq> (0::u8) then bi + (7 - bits_clz8 (ucast (val AND 0xFF))) else h"
    have "msb (\<lambda>i. bit x i \<and> i < idx + 8) ?h"
      using "1.prems" by (intro msb_byte [of val idx x h]) auto
    then have "msb (bit x) (bits_clz_loop (drop_bit 8 val) ?h (bi + 8) w)"
      using "1.prems" True by (intro "1.IH" [where idx = "idx + 8"]) (auto simp: drop_bit_drop_bit add.commute)
    then show ?thesis using True by (subst bits_clz_loop.simps) (simp add: Let_def)
  next
    case False
    have "(\<lambda>i. bit x i \<and> i < idx) = bit x"
    proof (intro ext)
      fix i
      have "bit val (i - idx) = bit x i" if "\<not> i < idx"
        using that "1.prems"(1) by (simp add: bit_drop_bit_eq)
      then show "(bit x i \<and> i < idx) = bit x i"
        using False "1.prems"(2) "1.prems"(4) [of i] by (cases "i < idx") auto
    qed
    then show ?thesis using False "1.prems" by (subst bits_clz_loop.simps) auto
  qed
qed

lemma bit_mask_word: "w < 64 \<Longrightarrow> bit ((x::u64) AND (push_bit w 1 - 1)) k \<longleftrightarrow> bit x k \<and> k < w"
  by (auto simp: bit_and_iff push_bit_eq_mult mask_eq_decr_exp [symmetric] bit_mask_iff
      dest: bit_imp_le_length)

lemma bit_masked:
  "bit (if int w < 64 then (x::u64) AND (push_bit w 1 - 1) else x) k \<longleftrightarrow> bit x k \<and> k < w"
  by (cases "int w < 64") (simp_all only: if_True if_False bit_mask_word of_nat_less_numeral_iff,
      auto dest: bit_imp_le_length)

lemma leading_of_msb:
  assumes "msb (\<lambda>k. P k \<and> k < w) h" "\<exists>k<w. P k"
  shows "leading P w (int w - 1 - h) \<and> h < int w"
  using assms unfolding msb_def leading_def
  by (auto simp: nat_diff_distrib split: if_splits)

lemma bits_clz_x_spec:
  assumes "0 < w"
  shows "leading (bit x) w (bits_clz_x x (int w))"
proof -
  define v where "v = (if int w < 64 then x AND (push_bit (nat (int w)) 1 - 1) else x)"
  have b: "bit v = (\<lambda>k. bit x k \<and> k < w)"
    unfolding v_def nat_int by (intro ext bit_masked)
  have c: "bits_clz_x x (int w) = (if v \<noteq> 0 then
      let h = bits_clz_loop v (-1) 0 (int w) in int w - 1 - (if h \<ge> int w then int w - 1 else h) else -1)"
    unfolding bits_clz_x_def Let_def v_def using assms by simp
  show ?thesis
  proof (cases "v = 0")
    case True
    then have "\<not> (\<exists>k<w. bit x k)" using fun_cong [OF b] by auto
    then show ?thesis using True by (simp add: c leading_def)
  next
    case False
    obtain k where "bit v k" using False word_nonzero_bit by blast
    then have ex: "\<exists>k<w. bit x k" using fun_cong [OF b, of k] by blast
    have "msb (bit v) (bits_clz_loop v (-1) 0 (int w))"
      by (rule bits_clz_loop_spec [where idx = 0]) (simp_all add: msb_def b)
    from leading_of_msb [OF this [unfolded b] ex]
    show ?thesis using False by (simp add: c Let_def)
  qed
qed

lemma popcount_split: "popcount P (m + n) = popcount P m + popcount (\<lambda>k. P (m + k)) n"
  unfolding popcount_sum by (induction n) auto

lemma popcount_cong: "(\<And>k. k < n \<Longrightarrow> P k = Q k) \<Longrightarrow> popcount P n = popcount Q n"
  unfolding popcount_sum by (intro sum.cong) auto

lemma popcount_none: "(\<And>k. \<not> P k) \<Longrightarrow> popcount P n = 0"
  by (simp add: popcount_sum)

lemma bits_popcount_loop_spec:
  "rem = 8 * int n \<Longrightarrow> bits_popcount_loop t tot rem = tot + popcount (bit t) (8 * n)"
proof (induction t tot rem arbitrary: n rule: bits_popcount_loop.induct)
  case (1 t tot rem)
  show ?case
  proof (cases "t \<noteq> 0 \<and> rem > 0")
    case True
    then obtain m where n: "n = Suc m" using "1.prems" by (cases n) auto
    have "bits_popcount8 (ucast (t AND 0xFF)) = popcount (bit t) 8"
      unfolding bits_popcount8_spec by (rule popcount_cong) (simp add: bit_low_byte)
    moreover have "popcount (bit t) (8 * n) = popcount (bit t) 8 + popcount (bit (drop_bit 8 t)) (8 * m)"
      using popcount_split [of "bit t" 8 "8 * m"] n by (simp add: bit_drop_bit_eq comp_def)
    ultimately show ?thesis using True "1.IH" [of m] "1.prems" n
      by (subst bits_popcount_loop.simps) simp
  next
    case False
    then have "popcount (bit t) (8 * n) = 0"
      using "1.prems" by (cases "t = 0") (auto simp: popcount_none popcount_def)
    then show ?thesis using False by (subst bits_popcount_loop.simps) auto
  qed
qed

subsection \<open>The fallback computes the same values\<close>

definition pows :: "nat \<Rightarrow> nat list" where
  "pows m = rev (map (\<lambda>i. 2 ^ i) [0..<m])"

lemma pows_simps [simp]: "pows 0 = []" "pows (Suc m) = 2 ^ m # pows m"
  by (simp_all add: pows_def)

lemma steps_pows: "i_bits_binary_steps = pows 6"
  by (simp add: i_bits_binary_steps_def pows_def upt_rec)

lemma low_bits_zero: "n < 64 \<Longrightarrow> (x::u64) AND (push_bit n 1 - 1) = 0 \<longleftrightarrow> (\<forall>j<n. \<not> bit x j)"
  by (subst bit_eq_iff) (simp only: bit_mask_word bit_0_eq bot_apply bot_bool_def,
      auto, meson less_trans)

lemma bit_lt64: "bit (x::u64) j \<Longrightarrow> j < 64"
  by (auto dest: bit_imp_le_length)

lemma high_bits_zero:
  "0 < s \<Longrightarrow> s \<le> 64 \<Longrightarrow> (x::u64) AND push_bit (64 - s) (NOT 0) = 0 \<longleftrightarrow> (\<forall>j. 64 - s \<le> j \<longrightarrow> \<not> bit x j)"
  by (auto simp: bit_eq_iff bit_and_iff bit_not_iff push_bit_minus_one_eq_not_mask bit_mask_iff
      not_less) (meson bit_lt64 not_le)

lemma fb_ctz_steps_spec:
  "m \<le> 6 \<Longrightarrow> bit x t \<Longrightarrow> (\<And>j. j < t \<Longrightarrow> \<not> bit x j) \<Longrightarrow> t < 2 ^ m \<Longrightarrow> t < remaining \<Longrightarrow>
   fb_ctz_steps (pows m) x result remaining = result + t"
proof (induction m arbitrary: x t result remaining)
  case (Suc m)
  have "(2::nat) ^ m \<le> 2 ^ 5" using Suc.prems by (intro power_increasing) auto
  then have s: "(2::nat) ^ m < 64" by simp
  have z: "x AND (push_bit (2 ^ m) 1 - 1) = 0 \<longleftrightarrow> 2 ^ m \<le> t"
    unfolding low_bits_zero [OF s] using Suc.prems(2,3) by (meson leI less_le_trans)
  show ?case
  proof (cases "2 ^ m \<le> t")
    case True
    have b: "bit (drop_bit (2 ^ m) x) (t - 2 ^ m)" using True Suc.prems by (simp add: bit_drop_bit_eq)
    then have "drop_bit (2 ^ m) x \<noteq> 0" by auto
    moreover have "\<not> bit (drop_bit (2 ^ m) x) j" if "j < t - 2 ^ m" for j
      using that Suc.prems(3) by (simp add: bit_drop_bit_eq)
    then have "fb_ctz_steps (pows m) (drop_bit (2 ^ m) x) (result + 2 ^ m) (remaining - 2 ^ m)
        = result + 2 ^ m + (t - 2 ^ m)"
      using b Suc.prems True by (intro Suc.IH) auto
    ultimately show ?thesis using z True Suc.prems by (simp add: Let_def del: push_bit_of_1)
  next
    case False
    then show ?thesis using z Suc.IH [of x t remaining result] Suc.prems by (simp del: push_bit_of_1)
  qed
qed simp

lemma fb_clz_steps_spec:
  "m \<le> 6 \<Longrightarrow> bit x (63 - c) \<Longrightarrow> (\<And>j. 63 - c < j \<Longrightarrow> \<not> bit x j) \<Longrightarrow> c < 2 ^ m \<Longrightarrow> c < remaining \<Longrightarrow>
   fb_clz_steps (pows m) x result remaining = result + c"
proof (induction m arbitrary: x c result remaining)
  case (Suc m)
  have "(2::nat) ^ m \<le> 2 ^ 5" using Suc.prems by (intro power_increasing) auto
  then have s: "(2::nat) ^ m \<le> 32" by simp
  have c: "c < 64" using Suc.prems(1,4) power_increasing [of "Suc m" 6 "2::nat"] by simp
  have z: "x AND push_bit (64 - 2 ^ m) (NOT 0) = 0 \<longleftrightarrow> 2 ^ m \<le> c"
  proof -
    have "(\<forall>j. 64 - 2 ^ m \<le> j \<longrightarrow> \<not> bit x j) \<longleftrightarrow> 63 - c < 64 - 2 ^ m"
      using Suc.prems(2,3) by (meson le_less_trans not_le less_le_trans)
    also have "\<dots> \<longleftrightarrow> 2 ^ m \<le> c" using s c by linarith
    finally show ?thesis using s by (subst high_bits_zero) auto
  qed
  show ?case
  proof (cases "2 ^ m \<le> c")
    case True
    have e: "63 - (c - 2 ^ m) = 63 - c + 2 ^ m" using True c s by linarith
    have b: "bit (push_bit (2 ^ m) x) (63 - (c - 2 ^ m))"
      unfolding e using True Suc.prems(2) c s by (simp add: bit_push_bit_iff) linarith
    have "\<not> bit (push_bit (2 ^ m) x) j" if "63 - (c - 2 ^ m) < j" for j
    proof -
      have "63 - c < j - 2 ^ m" using that e by linarith
      then show ?thesis using Suc.prems(3) by (auto simp: bit_push_bit_iff)
    qed
    then have "fb_clz_steps (pows m) (push_bit (2 ^ m) x) (result + 2 ^ m) (remaining - 2 ^ m)
        = result + 2 ^ m + (c - 2 ^ m)"
      using b Suc.prems True by (intro Suc.IH) auto
    moreover have "\<not> int (2 ^ m) > int remaining - 1" using True Suc.prems(5) by linarith
    ultimately show ?thesis using z True by (simp del: push_bit_minus_one_eq_not_mask)
  next
    case False
    then show ?thesis using z Suc.IH [of x c remaining result] Suc.prems
      by (simp del: push_bit_minus_one_eq_not_mask)
  qed
qed simp

lemma fb_ctz_x_spec:
  assumes "0 < w" "w \<le> 64"
  shows "first_set (bit x) w (fb_ctz_x x (int w))"
proof -
  define v where "v = (if int w < 64 then x AND (push_bit w 1 - 1) else x)"
  have b: "bit v = (\<lambda>k. bit x k \<and> k < w)" unfolding v_def by (intro ext bit_masked)
  have e: "fb_ctz_x x (int w) = (if v = 0 then -1 else int (fb_ctz_steps (pows 6) v 0 w))"
    using assms unfolding fb_ctz_x_def v_def steps_pows Let_def by auto
  show ?thesis
  proof (cases "v = 0")
    case True
    then have "\<not> bit x k" if "k < w" for k using that fun_cong [OF b, of k] by simp
    then show ?thesis using True e by (simp add: first_set_noneI)
  next
    case False
    then obtain k where "bit v k" using word_nonzero_bit by blast
    then obtain t where t: "bit v t" "\<And>j. j < t \<Longrightarrow> \<not> bit v j" using exists_least_iff [of "bit v"] by blast
    have tw: "t < w" "bit x t" "\<And>j. j < t \<Longrightarrow> \<not> bit x j"
      using t fun_cong [OF b] by (auto dest: less_trans)
    then have "fb_ctz_steps (pows 6) v 0 w = 0 + t"
      using t assms by (intro fb_ctz_steps_spec) auto
    then show ?thesis using False e tw by (simp add: first_setI)
  qed
qed

lemma leadingI:
  assumes "h < n" "P h" "\<And>j. h < j \<Longrightarrow> j < n \<Longrightarrow> \<not> P j"
  shows "leading P n (int (n - 1 - h))"
proof -
  have "n - 1 - nat (int (n - 1 - h)) = h" using assms(1) by simp
  then show ?thesis using assms unfolding leading_def by auto
qed

lemma fb_clz_x_spec:
  assumes "0 < w" "w \<le> 64"
  shows "leading (bit x) w (fb_clz_x x (int w))"
proof -
  define v where "v = (if int w < 64 then x AND (push_bit w 1 - 1) else x)"
  have b: "bit v = (\<lambda>k. bit x k \<and> k < w)" unfolding v_def by (intro ext bit_masked)
  have e: "fb_clz_x x (int w) = (if v = 0 then -1 else int (fb_clz_steps (pows 6) (push_bit (64 - w) v) 0 w))"
    using assms unfolding fb_clz_x_def v_def steps_pows Let_def by auto
  show ?thesis
  proof (cases "v = 0")
    case True
    then have "\<not> bit x k" if "k < w" for k using that fun_cong [OF b, of k] by simp
    then show ?thesis using True e by (auto simp: leading_def)
  next
    case False
    let ?S = "{k. k < w \<and> bit x k}"
    obtain k where k: "bit v k" using False word_nonzero_bit by blast
    then have ne: "?S \<noteq> {}" using fun_cong [OF b, of k] by auto
    define h where "h = Max ?S"
    have h: "h < w" "bit x h" using Max_in [OF _ ne] by (auto simp: h_def)
    have h3: "\<not> bit x j" if "h < j" "j < w" for j
      using Max_ge [of ?S j] that unfolding h_def by fastforce
    have "fb_clz_steps (pows 6) (push_bit (64 - w) v) 0 w = 0 + (w - 1 - h)"
    proof (rule fb_clz_steps_spec)
      have "63 - (w - 1 - h) = 64 - w + h" using h(1) assms by linarith
      then show "bit (push_bit (64 - w) v) (63 - (w - 1 - h))"
        using h assms b by (simp add: bit_push_bit_iff) linarith
      show "\<not> bit (push_bit (64 - w) v) j" if "63 - (w - 1 - h) < j" for j
      proof -
        have "h < j - (64 - w)" using that h(1) assms by linarith
        then show ?thesis using h3 [of "j - (64 - w)"] b by (auto simp: bit_push_bit_iff)
      qed
    qed (use h(1) assms in auto)
    then show ?thesis using False e leadingI [of h w "bit x", OF h h3] by simp
  qed
qed

lemma fb_popcount_loop_spec: "fb_popcount_loop x w cnt = cnt + popcount (bit x) w"
proof (induction x w cnt rule: fb_popcount_loop.induct)
  case (1 x w cnt)
  show ?case
  proof (cases "x \<noteq> 0 \<and> w \<noteq> 0")
    case True
    then obtain v where v: "w = Suc v" by (cases w) auto
    have "uint (x AND 1) = popcount (bit x) 1"
      by (simp add: popcount_sum and_one_eq mod_2_eq_odd bit_0 of_bool_def)
    moreover have "popcount (bit x) w = popcount (bit x) 1 + popcount (bit (drop_bit 1 x)) v"
      using popcount_split [of "bit x" 1 v] v by (simp add: bit_drop_bit_eq comp_def)
    ultimately show ?thesis using True "1.IH" v by (subst fb_popcount_loop.simps) simp
  next
    case False
    then have "popcount (bit x) w = 0" by (auto simp: popcount_none popcount_def)
    then show ?thesis using False by (subst fb_popcount_loop.simps) auto
  qed
qed

lemma last_unique:
  "P a \<Longrightarrow> a < n \<Longrightarrow> (\<forall>j<n. a < j \<longrightarrow> \<not> P j) \<Longrightarrow> P b \<Longrightarrow> b < n \<Longrightarrow> (\<forall>j<n. b < j \<longrightarrow> \<not> P j) \<Longrightarrow> a = b"
  for a b :: nat
  by (rule linorder_cases [of a b]) blast+

lemma leading_unique: "leading P n r \<Longrightarrow> leading P n q \<Longrightarrow> r = q"
proof (cases "\<exists>i<n. P i")
  case True
  assume "leading P n r" "leading P n q"
  then have r: "0 \<le> r" "nat r < n" "P (n - 1 - nat r)" "\<forall>j<n. n - 1 - nat r < j \<longrightarrow> \<not> P j"
    and q: "0 \<le> q" "nat q < n" "P (n - 1 - nat q)" "\<forall>j<n. n - 1 - nat q < j \<longrightarrow> \<not> P j"
    unfolding leading_def if_P [OF True] by blast+
  have "n - 1 - nat r = n - 1 - nat q"
    using r q by (intro last_unique [of P _ n]) auto
  then have "nat r = nat q" using r(2) q(2) by linarith
  then show "r = q" using r(1) q(1) by simp
qed (auto simp: leading_def)

subsection \<open>Memory scans find the first matching bit\<close>

text \<open>Bit \<open>j\<close> of the region at \<open>ptr\<close>, in little-endian bit order, complemented if \<open>iv\<close>.\<close>

definition region_bit :: "mem \<Rightarrow> addr \<Rightarrow> bool \<Rightarrow> nat \<Rightarrow> bool" where
  "region_bit m ptr iv j \<longleftrightarrow>
     (case m (ptr + of_nat (j div 8)) of None \<Rightarrow> False | Some b \<Rightarrow> bit b (j mod 8) \<noteq> iv)"

definition readable :: "mem \<Rightarrow> addr \<Rightarrow> nat \<Rightarrow> bool" where
  "readable m ptr n \<longleftrightarrow> (\<forall>k<n. m (ptr + of_nat k) \<noteq> None)"

lemma bit_le_word: "bit (le_word bs) j \<longleftrightarrow> j < 64 \<and> j div 8 < length bs \<and> bit (bs ! (j div 8)) (j mod 8)"
proof (induction bs arbitrary: j)
  case (Cons b bs)
  show ?case
  proof (cases "j < 8")
    case True
    then show ?thesis by (auto simp: bit_or_iff bit_push_bit_iff bit_ucast_iff)
  next
    case False
    have "j div 8 = Suc ((j - 8) div 8)" "j mod 8 = (j - 8) mod 8"
      using False by (simp_all add: le_div_geq le_mod_geq)
    then show ?thesis using False Cons.IH [of "j - 8"]
      by (auto simp: bit_or_iff bit_push_bit_iff bit_ucast_iff dest: bit_imp_le_length)
  qed
qed simp

lemma load_bytes_Some:
  "load_bytes m a n = Some bs \<longleftrightarrow> length bs = n \<and> (\<forall>k<n. m (a + of_nat k) = Some (bs ! k))"
  by (auto simp: load_bytes_def those_eq_Some)

lemma load64_bits:
  assumes "readable m ptr n" "i + 8 \<le> n"
  shows "\<exists>c. load64 m (ptr + of_nat i) = Some c \<and>
    (\<forall>j<64. bit (if iv then NOT c else c) j \<longleftrightarrow> region_bit m ptr iv (8 * i + j))"
proof -
  let ?bs = "map (\<lambda>k. the (m (ptr + of_nat i + of_nat k))) [0..<8]"
  have ne: "m (ptr + of_nat i + of_nat k) \<noteq> None" if "k < 8" for k
    using assms that unfolding readable_def by (metis add.assoc add_less_cancel_left less_le_trans of_nat_add)
  then have l: "load64 m (ptr + of_nat i) = Some (le_word ?bs)"
    using load_bytes_Some [of m "ptr + of_nat i" 8 ?bs] by (simp add: load64_def)
  have "bit (le_word ?bs) j \<longleftrightarrow> region_bit m ptr False (8 * i + j)" if "j < 64" for j
  proof -
    have d: "j div 8 < 8" using that by simp
    have "(8 * i + j) div 8 = i + j div 8" "(8 * i + j) mod 8 = j mod 8" by simp_all
    then show ?thesis using that d ne [OF d] by (auto simp: bit_le_word region_bit_def add.assoc)
  qed
  moreover have "region_bit m ptr True (8 * i + j) = (\<not> region_bit m ptr False (8 * i + j))" if "j < 64" for j
  proof -
    have d: "j div 8 < 8" using that by simp
    have "(8 * i + j) div 8 = i + j div 8" by simp
    then show ?thesis using ne [OF d] by (auto simp: region_bit_def add.assoc)
  qed
  ultimately show ?thesis using l by (auto simp: bit_not_iff)
qed

lemma region_byte:
  assumes "m (ptr + of_nat i) = Some b" "k < 8"
  shows "bit (if iv then NOT b else b) k \<longleftrightarrow> region_bit m ptr iv (8 * i + k)"
  using assms by (auto simp: region_bit_def bit_not_iff)

lemma or_add: "0 \<le> r \<Longrightarrow> r < 8 \<Longrightarrow> push_bit 3 (int i) OR r = int (8 * i) + r"
proof -
  assume r: "0 \<le> r" "r < 8"
  have "push_bit 3 (int i) AND r = 0"
  proof (rule bit_eqI)
    fix k
    have "take_bit 3 r = r" using r by (simp add: take_bit_int_eq_self)
    then have "bit r k \<Longrightarrow> k < 3" by (metis bit_take_bit_iff)
    then show "bit (push_bit 3 (int i) AND r) k = bit 0 k" by (auto simp: bit_and_iff bit_push_bit_iff)
  qed
  then show ?thesis using plus_and_or [of "push_bit 3 (int i)" r] by (simp add: push_bit_eq_mult)
qed

lemma first_set_at:
  assumes "\<And>j. j < base \<Longrightarrow> \<not> P j" "first_set Q w c" "\<exists>k<w. Q k" "\<And>k. k < w \<Longrightarrow> Q k = P (base + k)"
  shows "first_set P limit (within_limit limit (int base + c))"
proof -
  have q: "0 \<le> c" "nat c < w" "Q (nat c)" "\<forall>j<nat c. \<not> Q j"
    using assms(2) [unfolded first_set_def if_P [OF assms(3)]] by blast+
  then have c: "0 \<le> c" "P (base + nat c)" "\<And>j. j < nat c \<Longrightarrow> \<not> P (base + j)"
    using assms(4) less_trans [OF _ q(2)] by blast+
  have before: "\<not> P j" if "j < base + nat c" for j
    using that assms(1) c(3) [of "j - base"] by (cases "j < base") auto
  show ?thesis
  proof (cases "base + nat c < limit")
    case True
    then have "within_limit limit (int base + c) = int (base + nat c)" using c(1) by (simp add: within_limit_def)
    then show ?thesis using True before c(2) first_setI [of "base + nat c" limit P] by simp
  next
    case False
    then have "within_limit limit (int base + c) = -1" using c(1) by (simp add: within_limit_def)
    then show ?thesis using False before by (auto intro: first_set_noneI)
  qed
qed

lemma byte_nonzero: "(b::u8) \<noteq> 0 \<longleftrightarrow> (\<exists>k<8. bit b k)"
  by (auto simp: bit_eq_iff dest: bit_imp_le_length)

lemma scan_bytes_spec:
  "readable m ptr n \<Longrightarrow> (\<And>j. j < 8 * i \<Longrightarrow> \<not> region_bit m ptr iv j) \<Longrightarrow>
   (\<exists>r. scan_bytes m ptr limit iv i n = Some (Some r) \<and> first_set (region_bit m ptr iv) limit r) \<or>
   (scan_bytes m ptr limit iv i n = Some None \<and> (\<forall>j<8 * max i n. \<not> region_bit m ptr iv j))"
proof (induction m ptr limit iv i n rule: scan_bytes.induct)
  case (1 m ptr limit iv i n)
  show ?case
  proof (cases "i < n")
    case True
    then obtain b where b: "m (ptr + of_nat i) = Some b" using "1.prems" by (auto simp: readable_def)
    define byte where "byte = (if iv then NOT b else b)"
    have bits: "bit byte k \<longleftrightarrow> region_bit m ptr iv (8 * i + k)" if "k < 8" for k
      unfolding byte_def using b that by (intro region_byte)
    show ?thesis
    proof (cases "byte = 0")
      case False
      have f: "first_set (bit byte) 8 (bits_ctz8 byte)" by (rule bits_ctz8_spec)
      have ex: "\<exists>k<8. bit byte k" using False byte_nonzero by blast
      have "0 \<le> bits_ctz8 byte" "bits_ctz8 byte < 8" using f ex by (auto simp: first_set_def)
      then have "scan_bytes m ptr limit iv i n = Some (Some (within_limit limit (int (8 * i) + bits_ctz8 byte)))"
        using True b False by (subst scan_bytes.simps) (simp add: byte_def [symmetric] or_add)
      then show ?thesis using first_set_at [OF "1.prems"(2) f ex bits] by auto
    next
      case Z: True
      have "\<not> region_bit m ptr iv j" if "j < 8 * (i + 1)" for j
        using that "1.prems"(2) [of j] bits [of "j - 8 * i"] Z by (cases "j < 8 * i") auto
      from "1.IH" [OF True b byte_def _ "1.prems"(1) this] Z
      have "(\<exists>r. scan_bytes m ptr limit iv (i + 1) n = Some (Some r) \<and> first_set (region_bit m ptr iv) limit r) \<or>
        scan_bytes m ptr limit iv (i + 1) n = Some None \<and> (\<forall>j<8 * max (i + 1) n. \<not> region_bit m ptr iv j)"
        by auto
      moreover have "scan_bytes m ptr limit iv i n = scan_bytes m ptr limit iv (i + 1) n"
        using True b Z by (subst scan_bytes.simps) (simp add: byte_def [symmetric])
      moreover have "max (i + 1) n = max i n" using True by simp
      ultimately show ?thesis by simp
    qed
  next
    case False
    then show ?thesis using "1.prems" by (subst (1 2) scan_bytes.simps) (simp add: max_def)
  qed
qed

lemma scan_chunks_spec:
  "readable m ptr n \<Longrightarrow> (\<And>j. j < 8 * i \<Longrightarrow> \<not> region_bit m ptr iv j) \<Longrightarrow>
   \<exists>i'. (\<exists>r. scan_chunks m ptr limit iv i n = Some (i', Some r) \<and> first_set (region_bit m ptr iv) limit r) \<or>
   (scan_chunks m ptr limit iv i n = Some (i', None) \<and> (\<forall>j<8 * i'. \<not> region_bit m ptr iv j))"
proof (induction m ptr limit iv i n rule: scan_chunks.induct)
  case (1 m ptr limit iv i n)
  show ?case
  proof (cases "i + 8 \<le> n")
    case True
    obtain c where c: "load64 m (ptr + of_nat i) = Some c"
      "\<forall>j<64. bit (if iv then NOT c else c) j \<longleftrightarrow> region_bit m ptr iv (8 * i + j)"
      using load64_bits [OF "1.prems"(1) True] by blast
    define chunk where "chunk = (if iv then NOT c else c)"
    have bits: "bit chunk j \<longleftrightarrow> region_bit m ptr iv (8 * i + j)" if "j < 64" for j
      using c(2) that by (simp add: chunk_def)
    show ?thesis
    proof (cases "chunk = 0")
      case False
      have f: "first_set (bit chunk) 64 (bits_ctz64 chunk)"
        unfolding bits_ctz64_def using bits_ctz_x_spec [of chunk 64] bit_lt64 by simp
      have ex: "\<exists>k<64. bit chunk k" using False word_nonzero_bit by blast
      have "scan_chunks m ptr limit iv i n = Some (i, Some (within_limit limit (int (8 * i) + bits_ctz64 chunk)))"
        using True c False by (subst scan_chunks.simps) (simp add: chunk_def [symmetric] push_bit_eq_mult mult.commute)
      then show ?thesis using first_set_at [OF "1.prems"(2) f ex bits] by auto
    next
      case Z: True
      have "\<not> region_bit m ptr iv j" if "j < 8 * (i + 8)" for j
        using that "1.prems"(2) [of j] bits [of "j - 8 * i"] Z by (cases "j < 8 * i") auto
      from "1.IH" [OF True c(1) chunk_def _ "1.prems"(1) this] Z
      have "\<exists>i'. (\<exists>r. scan_chunks m ptr limit iv (i + 8) n = Some (i', Some r) \<and> first_set (region_bit m ptr iv) limit r) \<or>
        scan_chunks m ptr limit iv (i + 8) n = Some (i', None) \<and> (\<forall>j<8 * i'. \<not> region_bit m ptr iv j)"
        by auto
      moreover have "scan_chunks m ptr limit iv i n = scan_chunks m ptr limit iv (i + 8) n"
        using True c Z by (subst scan_chunks.simps) (simp add: chunk_def [symmetric])
      ultimately show ?thesis by simp
    qed
  next
    case False
    then show ?thesis using "1.prems" by (subst (1 2) scan_chunks.simps) simp
  qed
qed

lemma byte_limit: "drop_bit 3 (limit + 7 :: nat) = (limit + 7) div 8"
  by (simp add: drop_bit_eq_div)

lemma bits_ctz_ptr_spec:
  assumes "ptr \<noteq> NULL" "readable m ptr ((limit + 7) div 8)"
  shows "\<exists>r. i_bits_ctz_ptr m ptr limit iv = Some r \<and> first_set (region_bit m ptr iv) limit r"
proof -
  let ?n = "(limit + 7) div 8"
  define t where "t = min (unat (((ptr + 7) AND NOT 7) - ptr)) ?n"
  have t: "t \<le> ?n" by (simp add: t_def)
  have rt: "readable m ptr t" using assms(2) t by (auto simp: readable_def)
  have unf: "i_bits_ctz_ptr m ptr limit iv = do {
          prefix \<leftarrow> scan_bytes m ptr limit iv 0 t;
          case prefix of
            Some r \<Rightarrow> Some r
          | None \<Rightarrow> do {
              (index, found) \<leftarrow> scan_chunks m ptr limit iv t ?n;
              case found of
                Some r \<Rightarrow> Some r
              | None \<Rightarrow> do {
                  rest \<leftarrow> scan_bytes m ptr limit iv index ?n;
                  Some (case rest of Some r \<Rightarrow> r | None \<Rightarrow> -1) } } }"
    unfolding i_bits_ctz_ptr_def byte_limit t_def Let_def by (simp only: assms(1) if_False)
  consider (found) r where "scan_bytes m ptr limit iv 0 t = Some (Some r)" "first_set (region_bit m ptr iv) limit r"
    | (none) "scan_bytes m ptr limit iv 0 t = Some None" "\<forall>j<8 * t. \<not> region_bit m ptr iv j"
    using scan_bytes_spec [OF rt, of 0 iv limit] by auto
  then show ?thesis
  proof cases
    case found
    then show ?thesis by (simp add: unf)
  next
    case none
    then obtain i' where
      "(\<exists>r. scan_chunks m ptr limit iv t ?n = Some (i', Some r) \<and> first_set (region_bit m ptr iv) limit r) \<or>
       (scan_chunks m ptr limit iv t ?n = Some (i', None) \<and> (\<forall>j<8 * i'. \<not> region_bit m ptr iv j))"
      using scan_chunks_spec [OF assms(2), of t iv limit] by blast
    then show ?thesis
    proof (elim disjE exE conjE)
      fix r assume "scan_chunks m ptr limit iv t ?n = Some (i', Some r)" "first_set (region_bit m ptr iv) limit r"
      then show ?thesis using none by (simp add: unf)
    next
      assume c: "scan_chunks m ptr limit iv t ?n = Some (i', None)" "\<forall>j<8 * i'. \<not> region_bit m ptr iv j"
      have "first_set (region_bit m ptr iv) limit (-1)" if "\<forall>j<8 * max i' ?n. \<not> region_bit m ptr iv j"
        using that by (intro first_set_noneI) (auto simp: max_def split: if_splits)
      then show ?thesis using scan_bytes_spec [OF assms(2), of i' iv limit] c none by (auto simp: unf)
    qed
  qed
qed

lemma first_set_shift:
  assumes "first_set (\<lambda>j. P (base + j)) (limit - base) r" "\<And>j. j < base \<Longrightarrow> \<not> P j" "base \<le> limit"
  shows "first_set P limit (if r < 0 then -1 else int base + r)"
proof (cases "\<exists>j<limit - base. P (base + j)")
  case True
  then have r: "0 \<le> r" "nat r < limit - base" "P (base + nat r)" "\<forall>j<nat r. \<not> P (base + j)"
    using assms(1) [unfolded first_set_def if_P [OF True]] by blast+
  have "\<not> P j" if "j < base + nat r" for j
    using that assms(2) r(4) by (cases "j < base") (auto dest: spec [of _ "j - base"])
  then have "first_set P limit (int (base + nat r))" using r by (intro first_setI) auto
  then show ?thesis using r(1) by simp
next
  case False
  have "\<not> P j" if "j < limit" for j
    using that assms(2) [of j] False by (cases "j < base") (auto dest: spec [of _ "j - base"])
  then show ?thesis using assms(1) False by (auto simp: first_set_def)
qed

lemma region_bit_shift: "region_bit m (ptr + of_nat b) iv j = region_bit m ptr iv (8 * b + j)"
proof -
  have "(8 * b + j) div 8 = b + j div 8" "(8 * b + j) mod 8 = j mod 8" by simp_all
  then show ?thesis unfolding region_bit_def by (simp only: of_nat_add add.assoc)
qed

lemma first_byte_bits:
  assumes "m (ptr + of_nat (from_bit div 8)) = Some b" "k < 8 - from_bit mod 8"
  shows "bit (drop_bit (from_bit mod 8) (if iv then NOT b else b)) k \<longleftrightarrow> region_bit m ptr iv (from_bit + k)"
proof -
  have e: "8 * (from_bit div 8) + (from_bit mod 8 + k) = from_bit + k" by simp
  show ?thesis
    using region_byte [of m ptr "from_bit div 8" b "from_bit mod 8 + k" iv] assms unfolding e
    by (simp add: bit_drop_bit_eq)
qed

lemma first_set_narrow:
  assumes "first_set P n r" "n' \<le> n" "\<And>k. P k \<Longrightarrow> k < n'"
  shows "first_set P n' r"
proof (cases "\<exists>k<n. P k")
  case True
  then have "\<exists>k<n'. P k" using assms(3) by blast
  then show ?thesis using assms(1,3) unfolding first_set_def if_P [OF True] by metis
next
  case False
  then have "\<not> (\<exists>k<n'. P k)" using assms(2) less_le_trans by blast
  then show ?thesis using assms(1) False by (simp add: first_set_def)
qed

lemma first_byte_first_set:
  fixes b :: u8
  shows "first_set (bit (drop_bit n b)) (8 - n) (bits_ctz8 (drop_bit n b))"
  by (rule first_set_narrow [OF bits_ctz8_spec]) (auto simp: bit_drop_bit_eq dest: bit_imp_le_length)

lemma byte_ceil: "k < (limit + 7) div 8 \<longleftrightarrow> 8 * k < limit" for k limit :: nat
proof -
  have "k < (limit + 7) div 8 \<longleftrightarrow> Suc k * 8 \<le> limit + 7"
    unfolding Suc_le_eq [symmetric] by (rule less_eq_div_iff_mult_less_eq) simp
  then show ?thesis by auto
qed

lemma split_byte: "\<exists>b r. x div 8 = b \<and> x mod 8 = r \<and> x = 8 * b + r \<and> r < 8" for x :: nat
  by (metis mod_less_divisor mult_div_mod_eq zero_less_numeral)

text \<open>The whole bytes from byte \<open>B\<close> on, when no earlier bit matches.\<close>

lemma ctz_ptr_rest:
  assumes "0 < B" "B < (limit + 7) div 8" "unat ptr + (limit + 7) div 8 < 2 ^ 64"
    and "readable m ptr ((limit + 7) div 8)" "\<And>j. j < 8 * B \<Longrightarrow> \<not> P j"
    and "\<And>j. 8 * B \<le> j \<Longrightarrow> P j = region_bit m ptr iv j"
  shows "\<exists>r. i_bits_ctz_ptr m (ptr + of_nat B) (limit - 8 * B) iv = Some r \<and>
    first_set P limit (if r < 0 then -1 else int (8 * B) + r)"
proof -
  let ?q = "ptr + of_nat B" and ?n = "(limit + 7) div 8"
  have "unat ?q = unat ptr + B" using assms(2,3) by (intro unat_add_of_nat64) linarith
  then have "unat ?q \<noteq> 0" using assms(1) by simp
  then have q0: "?q \<noteq> NULL" by (metis unsigned_0)
  have l2: "8 * B \<le> limit" using assms(2) unfolding byte_ceil by (rule less_imp_le)
  then obtain d where d: "limit = 8 * B + d" using le_Suc_ex by blast
  have l: "(limit - 8 * B + 7) div 8 = ?n - B" by (simp add: d add.assoc)
  have "m (?q + of_nat k) = m (ptr + of_nat (B + k))" for k by (simp add: add.assoc)
  then have "readable m ?q (?n - B)" using assms(4) unfolding readable_def
    by (metis add.commute less_diff_conv)
  then obtain r where r: "i_bits_ctz_ptr m ?q (limit - 8 * B) iv = Some r"
    "first_set (region_bit m ?q iv) (limit - 8 * B) r"
    using bits_ctz_ptr_spec [OF q0, of m "limit - 8 * B" iv] unfolding l by blast
  have "region_bit m ?q iv = (\<lambda>j. P (8 * B + j))"
    unfolding region_bit_shift by (intro ext) (simp add: assms(6))
  then have "first_set P limit (if r < 0 then -1 else int (8 * B) + r)"
    using r(2) assms(5) l2 by (intro first_set_shift) auto
  then show ?thesis using r(1) by blast
qed

lemma bits_ctz_ptr_from_spec:
  assumes "ptr \<noteq> NULL" "unat ptr + (limit + 7) div 8 < 2 ^ 64" "readable m ptr ((limit + 7) div 8)"
  shows "\<exists>r. i_bits_ctz_ptr_from m ptr from_bit limit iv = Some r \<and>
    first_set (\<lambda>j. from_bit \<le> j \<and> region_bit m ptr iv j) limit r"
proof (cases "from_bit < limit")
  case False
  then show ?thesis by (auto simp: i_bits_ctz_ptr_from_def intro!: first_set_noneI)
next
  case True
  let ?P = "\<lambda>j. from_bit \<le> j \<and> region_bit m ptr iv j"
  let ?B = "from_bit div 8" and ?s = "from_bit mod 8" and ?n = "(limit + 7) div 8"
  have Bn: "?B < ?n" unfolding byte_ceil using True by (rule le_less_trans [rotated]) simp
  then obtain b where b: "m (ptr + of_nat ?B) = Some b" using assms(3) by (auto simp: readable_def)
  define fb where "fb = drop_bit ?s (if iv then NOT b else b)"
  have unf: "i_bits_ctz_ptr_from m ptr from_bit limit iv =
      (if bits_ctz8 fb \<ge> 0 then Some (within_limit limit (int from_bit + bits_ctz8 fb))
       else if ?B + 1 \<ge> ?n then Some (-1)
       else do {
         sub_ret \<leftarrow> i_bits_ctz_ptr m (ptr + of_nat (?B + 1)) (limit - 8 * (?B + 1)) iv;
         Some (if sub_ret < 0 then -1 else int (8 * (?B + 1)) + sub_ret) })"
  proof -
    have "from_bit AND 7 = ?s" using take_bit_eq_mask [of 3 from_bit] by (simp add: take_bit_eq_mod mask_eq_exp_minus_1)
    then show ?thesis using True assms(1) b
      by (simp add: i_bits_ctz_ptr_from_def Let_def byte_limit fb_def within_limit_def drop_bit_eq_div
          push_bit_eq_mult mult.commute not_le not_less cong: if_cong)
  qed
  have f: "first_set (bit fb) (8 - ?s) (bits_ctz8 fb)" unfolding fb_def by (rule first_byte_first_set)
  have Q: "bit fb k = ?P (from_bit + k)" if "k < 8 - ?s" for k
    unfolding fb_def using first_byte_bits [of m ptr from_bit b k iv] b that by simp
  show ?thesis
  proof (cases "\<exists>k<8 - ?s. bit fb k")
    case ex: True
    have "first_set ?P limit (within_limit limit (int from_bit + bits_ctz8 fb))"
      by (rule first_set_at [OF _ f ex Q]) auto
    moreover have "0 \<le> bits_ctz8 fb" using f ex by (simp add: first_set_def)
    ultimately show ?thesis by (simp add: unf)
  next
    case nex: False
    then have neg: "\<not> 0 \<le> bits_ctz8 fb" using f by (simp add: first_set_def)
    obtain q r where qr: "?B = q" "?s = r" "from_bit = 8 * q + r" "r < 8" using split_byte by blast
    have Bj: "from_bit \<le> j" if "8 * (?B + 1) \<le> j" for j
      using that unfolding qr(1) using qr(3,4) by simp
    have below: "\<not> ?P j" if "j < 8 * (?B + 1)" for j
    proof
      assume P: "?P j"
      then have "j - from_bit < 8 - ?s" 
        using that unfolding qr(1,2) using qr(3,4) by auto
      then show False using nex Q [of "j - from_bit"] P by auto
    qed
    show ?thesis
    proof (cases "?B + 1 \<ge> ?n")
      case big: True
      have "limit \<le> 8 * (?B + 1)" using big byte_ceil [of "?B + 1" limit] by (metis not_le)
      then have "first_set ?P limit (-1)" by (intro first_set_noneI below) (rule less_le_trans)
      then show ?thesis using neg big by (simp add: unf)
    next
      case small: False
      have P: "?P j = region_bit m ptr iv j" if "8 * (?B + 1) \<le> j" for j using that Bj by simp
      have "?B + 1 < ?n" using small by simp
      from ctz_ptr_rest [OF _ this assms(2,3) below P] show ?thesis
        using neg small by (auto simp: unf)
    qed
  qed
qed

subsection \<open>Iteration, byte swaps and bitmaps\<close>

lemma bits_next_bit_set_spec:
  assumes "k \<le> 64"
  shows "first_set (\<lambda>j. k \<le> j \<and> bit bits j) 64 (bits_next_bit_set bits (int k - 1))"
proof (cases "k = 64")
  case True
  then show ?thesis by (auto simp: bits_next_bit_set_def intro!: first_set_noneI)
next
  case False
  let ?P = "\<lambda>j. k \<le> j \<and> bit bits j" and ?d = "bits_ctz64 (drop_bit k bits)"
  have "first_set (bit (drop_bit k bits)) 64 ?d"
    unfolding bits_ctz64_def using bits_ctz_x_spec [of "drop_bit k bits" 64, OF bit_lt64] by simp
  then have "first_set (bit (drop_bit k bits)) (64 - k) ?d"
  proof (rule first_set_narrow)
    show "j < 64 - k" if "bit (drop_bit k bits) j" for j
      using that bit_lt64 [of bits "k + j"] by (simp add: bit_drop_bit_eq)
  qed simp
  moreover have "bit (drop_bit k bits) = (\<lambda>j. ?P (k + j))" by (intro ext) (simp add: bit_drop_bit_eq)
  ultimately have "first_set ?P 64 (if ?d < 0 then -1 else int k + ?d)"
    using assms by (intro first_set_shift) auto
  moreover have "bits_next_bit_set bits (int k - 1) = (if ?d < 0 then -1 else int k + ?d)"
    using False assms by (simp add: bits_next_bit_set_def Let_def)
  ultimately show ?thesis by simp
qed

lemma filter_first:
  assumes "k \<le> p" "p < n" "P p" "\<And>j. k \<le> j \<Longrightarrow> j < p \<Longrightarrow> \<not> P j"
  shows "filter P [k..<n] = p # filter P [Suc p..<n]"
proof -
  have "[k..<n] = [k..<p] @ p # [Suc p..<n]"
    using assms(1,2) by (metis le_add_diff_inverse upt_add_eq_append upt_conv_Cons less_imp_le)
  moreover have "filter P [k..<p] = []" using assms(4) by (auto simp: filter_empty_conv)
  ultimately show ?thesis using assms(3) by simp
qed

lemma bits_foreach_from_spec:
  "k \<le> 64 \<Longrightarrow> 64 - k < n \<Longrightarrow>
   bits_foreach_from n bits (bits_next_bit_set bits (int k - 1)) = map int (filter (bit bits) [k..<64])"
proof (induction n arbitrary: k)
  case (Suc n)
  let ?r = "bits_next_bit_set bits (int k - 1)"
  have f: "first_set (\<lambda>j. k \<le> j \<and> bit bits j) 64 ?r" by (rule bits_next_bit_set_spec [OF Suc.prems(1)])
  show ?case
  proof (cases "\<exists>j<64. k \<le> j \<and> bit bits j")
    case True
    then have r: "0 \<le> ?r" "nat ?r < 64" "k \<le> nat ?r" "bit bits (nat ?r)"
      "\<forall>j<nat ?r. \<not> (k \<le> j \<and> bit bits j)"
      using f [unfolded first_set_def if_P [OF True]] by blast+
    have "bits_foreach_from n bits (bits_next_bit_set bits (int (Suc (nat ?r)) - 1)) =
        map int (filter (bit bits) [Suc (nat ?r)..<64])"
      using r Suc.prems by (intro Suc.IH) auto
    moreover have "filter (bit bits) [k..<64] = nat ?r # filter (bit bits) [Suc (nat ?r)..<64]"
      using r by (intro filter_first) auto
    ultimately show ?thesis using r(1) by simp
  next
    case False
    then have "filter (bit bits) [k..<64] = []" by (auto simp: filter_empty_conv)
    then show ?thesis using f False by (auto simp: first_set_def)
  qed
qed simp

definition bitmap_set :: "u64 list \<Rightarrow> nat set" where
  "bitmap_set bitmap = {i. i < 64 * length bitmap \<and> bit (bitmap ! (i div 64)) (i mod 64)}"

lemma bitmap_index: "drop_bit 6 i = i div 64" "i AND (push_bit 6 1 - 1) = i mod 64" for i :: nat
proof -
  show "drop_bit 6 i = i div 64" by (simp add: drop_bit_eq_div)
  have "push_bit 6 1 - 1 = (mask 6 :: nat)" by (simp add: mask_eq_exp_minus_1)
  then show "i AND (push_bit 6 1 - 1) = i mod 64"
    using take_bit_eq_mask [of 6 i] by (simp add: take_bit_eq_mod)
qed

lemma bit_bitmap_mask: "bit (bitmap_mask i) k \<longleftrightarrow> k = i mod 64"
  unfolding bitmap_mask_def bitmap_index(2) by (auto simp: bit_exp_iff possible_bit_def)

lemma and_bitmap_mask: "(x::u64) AND bitmap_mask i \<noteq> 0 \<longleftrightarrow> bit x (i mod 64)"
  unfolding word_nonzero_bit by (auto simp: bit_and_iff bit_bitmap_mask dest: bit_lt64)

lemma div_mod_64_eq: "j div 64 = i div 64 \<Longrightarrow> j mod 64 = i mod 64 \<Longrightarrow> j = i" for i j :: nat
  by (metis div_mult_mod_eq)

lemma bit_not_mask: "bit (NOT (bitmap_mask i)) k \<longleftrightarrow> k < 64 \<and> k \<noteq> i mod 64"
  by (auto simp: bit_not_iff bit_bitmap_mask)

lemma bitmap_update:
  assumes "i < 64 * length bm" "\<And>k. k < 64 \<Longrightarrow> bit w k = (if k = i mod 64 then v else bit (bm ! (i div 64)) k)"
  shows "bitmap_set (bm[i div 64 := w]) = (if v then insert i (bitmap_set bm) else bitmap_set bm - {i})"
proof (rule set_eqI)
  fix j
  have l: "i div 64 < length bm" using assms(1) by (simp add: div_less_iff_less_mult mult.commute)
  show "j \<in> bitmap_set (bm[i div 64 := w]) \<longleftrightarrow> j \<in> (if v then insert i (bitmap_set bm) else bitmap_set bm - {i})"
    using assms l div_mod_64_eq [of j i]
    by (cases "j div 64 = i div 64") (auto simp: bitmap_set_def)
qed

lemma bitmap_ops_spec:
  assumes "i < 64 * length bm"
  shows "\<exists>bm1 bm2. bits_test_and_set_bit64 bm i = Some (i \<in> bitmap_set bm, bm1) \<and>
     bitmap_set bm1 = insert i (bitmap_set bm) \<and> length bm1 = length bm \<and>
     bits_test_and_clear_bit64 bm i = Some (i \<in> bitmap_set bm, bm2) \<and>
     bitmap_set bm2 = bitmap_set bm - {i} \<and> length bm2 = length bm \<and>
     bits_test_bit64 bm i = Some (i \<in> bitmap_set bm)"
proof -
  have l: "i div 64 < length bm" using assms by (simp add: div_less_iff_less_mult mult.commute)
  have m: "i \<in> bitmap_set bm \<longleftrightarrow> bit (bm ! (i div 64)) (i mod 64)" using assms by (simp add: bitmap_set_def)
  have "bitmap_set (bm[i div 64 := bm ! (i div 64) OR bitmap_mask i]) = insert i (bitmap_set bm)"
    using bitmap_update [OF assms, of "bm ! (i div 64) OR bitmap_mask i" True]
    by (simp add: bit_or_iff bit_bitmap_mask)
  moreover have "bitmap_set (bm[i div 64 := bm ! (i div 64) AND NOT (bitmap_mask i)]) = bitmap_set bm - {i}"
    using bitmap_update [OF assms, of "bm ! (i div 64) AND NOT (bitmap_mask i)" False]
    by (simp add: bit_and_iff bit_not_mask)
  ultimately show ?thesis
    using l by (simp add: bits_test_and_set_bit64_def bits_test_and_clear_bit64_def bits_test_bit64_def
        Let_def bitmap_index(1) and_bitmap_mask m)
qed

lemma byte_masks:
  "(0x000000FF :: u32) = mask 8" "(0x0000FF00 :: u32) = push_bit 8 (mask 8)"
  "(0x00FF0000 :: u32) = push_bit 16 (mask 8)" "(0xFF000000 :: u32) = push_bit 24 (mask 8)"
  by (simp_all add: mask_eq_exp_minus_1 push_bit_eq_mult)

lemma bit_bswap32:
  "bit (bswap32 x) j \<longleftrightarrow> j < 32 \<and> bit x (8 * (3 - j div 8) + j mod 8)"
proof -
  have "j < 8 \<or> j \<in> {8..<16} \<or> j \<in> {16..<24} \<or> j \<in> {24..<32} \<or> 32 \<le> j" by auto
  then show ?thesis
    unfolding bswap32_def byte_masks
    by (elim disjE) (auto simp: bit_or_iff bit_and_iff bit_push_bit_iff bit_drop_bit_eq bit_mask_iff
        le_div_geq le_mod_geq dest: bit_imp_le_length)
qed

subsection \<open>Properties\<close>

text \<open>
  C27. The table-driven macros the kernel is built with and the binary-search fallback of the
  same header return the same count of trailing zeros, leading zeros and ones and the same
  first set bit, for every width that is a whole number of bytes and every operand of that
  width, zero included.
\<close>

theorem bits_table_fallback_equiv:
  assumes "0 < n" "n \<le> 8" "\<And>k. bit x k \<Longrightarrow> k < 8 * n"
  shows "bits_ctz_x x (int (8 * n)) = fb_ctz_x x (int (8 * n)) \<and>
    bits_ffs_x x (int (8 * n)) = fb_ffs_x x (int (8 * n)) \<and>
    bits_clz_x x (int (8 * n)) = fb_clz_x x (int (8 * n)) \<and>
    bits_popcount_x x (int (8 * n)) = fb_popcount_x x (8 * n)"
proof -
  have w: "0 < 8 * n" "8 * n \<le> 64" using assms(1,2) by auto
  have f: "first_set (bit x) (8 * n) (fb_ctz_x x (int (8 * n)))" by (rule fb_ctz_x_spec [OF w])
  have c: "bits_ctz_x x (int (8 * n)) = fb_ctz_x x (int (8 * n))"
    by (rule first_set_unique [OF bits_ctz_x_spec f]) (rule assms(3))
  have "fb_ctz_x x (int (8 * n)) < 0 \<Longrightarrow> fb_ctz_x x (int (8 * n)) = -1"
    using f by (auto simp: first_set_def split: if_splits)
  moreover have "bits_clz_x x (int (8 * n)) = fb_clz_x x (int (8 * n))"
    by (rule leading_unique [OF bits_clz_x_spec [OF w(1)] fb_clz_x_spec [OF w]])
  moreover have "bits_popcount_x x (int (8 * n)) = fb_popcount_x x (8 * n)"
    unfolding bits_popcount_x_def fb_popcount_x_def fb_popcount_loop_spec
    by (rule bits_popcount_loop_spec) simp
  ultimately show ?thesis using c by (auto simp: bits_ffs_x_def fb_ffs_x_def Let_def)
qed

theorem bits_table_fallback_equiv_witness:
  "bits_ctz_x 0x50 16 = fb_ctz_x 0x50 16 \<and> fb_ctz_x 0x50 16 = 4 \<and>
   bits_clz_x 0x50 16 = 9 \<and> bits_popcount_x 0x50 16 = 2"
proof -
  have b: "bit (0x50::u64) k \<Longrightarrow> k < 8 * 2" for k
  proof -
    assume "bit (0x50::u64) k"
    moreover have "take_bit 16 (0x50::u64) = 0x50" by simp
    ultimately show ?thesis by (metis bit_take_bit_iff mult_2_right numeral_Bit0)
  qed
  have e: "fb_ctz_x 0x50 16 = 4" "fb_clz_x 0x50 16 = 9" "fb_popcount_x 0x50 16 = 2" by code_simp+
  show ?thesis using bits_table_fallback_equiv [of 2 "0x50", OF _ _ b] e by simp
qed



text \<open>
  C29. Iterating over the set bits visits exactly the set bits of the word, each once and in
  increasing order, and stops.
\<close>

theorem bits_foreach_set_bit_all:
  "bits_foreach_set_bit x = map int (filter (bit x) [0..<64])"
  unfolding bits_foreach_set_bit_def using bits_foreach_from_spec [of 0 65 x] by simp

text \<open>
  C30. The bitmap operations on 64-bit elements read, set and clear exactly the addressed bit
  and report its previous value.
\<close>

theorem bitmap_test_set_clear:
  assumes "i < 64 * length bm"
  shows "\<exists>bm1 bm2. bits_test_and_set_bit64 bm i = Some (i \<in> bitmap_set bm, bm1) \<and>
     bitmap_set bm1 = insert i (bitmap_set bm) \<and>
     bits_test_and_clear_bit64 bm i = Some (i \<in> bitmap_set bm, bm2) \<and>
     bitmap_set bm2 = bitmap_set bm - {i} \<and>
     bits_test_bit64 bm i = Some (i \<in> bitmap_set bm)"
  using bitmap_ops_spec [OF assms] by blast

theorem bitmap_test_set_clear_witness:
  "\<exists>bm1 bm2. bits_test_and_set_bit64 [0, 6] 65 = Some (65 \<in> bitmap_set [0, 6], bm1) \<and>
     bitmap_set bm1 = insert 65 (bitmap_set [0, 6]) \<and>
     bits_test_and_clear_bit64 [0, 6] 65 = Some (65 \<in> bitmap_set [0, 6], bm2) \<and>
     bitmap_set bm2 = bitmap_set [0, 6] - {65} \<and>
     bits_test_bit64 [0, 6] 65 = Some (65 \<in> bitmap_set [0, 6])"
  by (rule bitmap_test_set_clear) simp


end
