(* ===== verification/Pipe.thy ===== *)
theory Pipe
  imports Prelude
begin

text \<open>
  The pipe of \<open>kernel/pipe.c\<close> and \<open>kernel/inc/pipe.h\<close>: a 512-byte ring with 32-bit
  running counters \<open>nread\<close> and \<open>nwrite\<close> that wrap around, one lock per side, and two wait
  queues. The kernel-mode reader and writer are modelled as threads whose atomic steps are
  the regions between two lock operations, with the copy into the ring and the store of the
  counter as separate steps, so that the reader and the writer interleave inside each
  other's critical sections as they do in the code. The user-mode writer adds the 128-byte
  staging buffer filled by \<open>vm_copyin\<close>, which is a parameter.
\<close>

subsection \<open>State\<close>

definition PIPESIZE :: nat where
  "PIPESIZE = 512"

record pipe =
  nread :: u32
  nread_queue :: "nat list"
  nwrite :: u32
  nwrite_queue :: "nat list"
  pflags :: u32
  pdata :: "u8 list"

definition PIPE_FLAGS_READABLE :: nat where "PIPE_FLAGS_READABLE = 1"
definition PIPE_FLAGS_WRITABLE :: nat where "PIPE_FLAGS_WRITABLE = 2"

definition PIPE_FLAGS_RW :: u32 where
  "PIPE_FLAGS_RW = push_bit PIPE_FLAGS_READABLE 1 OR push_bit PIPE_FLAGS_WRITABLE 1"

definition PIPE_READABLE :: "pipe \<Rightarrow> bool" where
  "PIPE_READABLE pi \<longleftrightarrow> pflags pi AND push_bit PIPE_FLAGS_READABLE 1 \<noteq> 0"

definition PIPE_WRITABLE :: "pipe \<Rightarrow> bool" where
  "PIPE_WRITABLE pi \<longleftrightarrow> pflags pi AND push_bit PIPE_FLAGS_WRITABLE 1 \<noteq> 0"

definition PIPE_CLEAR_WRITABLE :: "pipe \<Rightarrow> bool \<times> pipe" where
  "PIPE_CLEAR_WRITABLE pi =
     (pflags pi = push_bit PIPE_FLAGS_WRITABLE 1,
      pi\<lparr>pflags := pflags pi AND NOT (push_bit PIPE_FLAGS_WRITABLE 1)\<rparr>)"

definition PIPE_CLEAR_READABLE :: "pipe \<Rightarrow> bool \<times> pipe" where
  "PIPE_CLEAR_READABLE pi =
     (pflags pi = push_bit PIPE_FLAGS_READABLE 1,
      pi\<lparr>pflags := pflags pi AND NOT (push_bit PIPE_FLAGS_READABLE 1)\<rparr>)"

text \<open>Closing an end clears its flag, wakes the other side, and reports whether to free.\<close>

definition pipeclose :: "pipe \<Rightarrow> bool \<Rightarrow> bool \<times> pipe" where
  "pipeclose pi writable =
     (if writable then
        (let (freed, pi1) = PIPE_CLEAR_WRITABLE pi in (freed, pi1\<lparr>nread_queue := []\<rparr>))
      else
        (let (freed, pi1) = PIPE_CLEAR_READABLE pi in (freed, pi1\<lparr>nwrite_queue := []\<rparr>)))"

definition PIPE_READABLE_SIZE :: "u32 \<Rightarrow> u32 \<Rightarrow> u32" where
  "PIPE_READABLE_SIZE nw nr = nw - nr"

definition PIPE_WRITABLE_SIZE :: "u32 \<Rightarrow> u32 \<Rightarrow> u32" where
  "PIPE_WRITABLE_SIZE nw nr = of_nat PIPESIZE - PIPE_READABLE_SIZE nw nr"

subsection \<open>Copies into and out of the ring\<close>

text \<open>\<open>memmove\<close> between two distinct arrays, \<open>n\<close> bytes from \<open>src[j]\<close> to \<open>dst[i]\<close>.\<close>

definition arr_copy :: "'a list \<Rightarrow> nat \<Rightarrow> 'a list \<Rightarrow> nat \<Rightarrow> nat \<Rightarrow> 'a list" where
  "arr_copy dst i src j n = take i dst @ take n (drop j src) @ drop (i + n) dst"

definition ring_put :: "u8 list \<Rightarrow> nat \<Rightarrow> u8 list \<Rightarrow> nat \<Rightarrow> nat \<Rightarrow> u8 list" where
  "ring_put dat nwrite_idx buf pos write_size =
     (if nwrite_idx + write_size \<le> PIPESIZE then arr_copy dat nwrite_idx buf pos write_size
      else let first_part = PIPESIZE - nwrite_idx in
        arr_copy (arr_copy dat nwrite_idx buf pos first_part) 0 buf (pos + first_part)
          (write_size - first_part))"

definition ring_get :: "u8 list \<Rightarrow> nat \<Rightarrow> nat \<Rightarrow> u8 list" where
  "ring_get dat nread_idx read_size =
     (if nread_idx + read_size \<le> PIPESIZE then take read_size (drop nread_idx dat)
      else let first_part = PIPESIZE - nread_idx in
        take first_part (drop nread_idx dat) @ take (read_size - first_part) dat)"

text \<open>
  One attempt to move data once the lock is held: the free or filled size is computed from
  the snapshot of the other side's counter; \<open>None\<close> is the full (empty) case.
\<close>

definition pipe_put :: "pipe \<Rightarrow> u32 \<Rightarrow> u8 list \<Rightarrow> nat \<Rightarrow> nat \<Rightarrow> (pipe \<times> nat \<times> u32) option" where
  "pipe_put p nr buf pos want =
     (let nwrite_old = nwrite p; writable = unat (PIPE_WRITABLE_SIZE nwrite_old nr) in
      if writable = 0 then None
      else
        let write_size = min want writable;
            nw = nwrite_old + of_nat write_size;
            nwrite_idx = unat nwrite_old mod PIPESIZE
        in Some (p\<lparr>pdata := ring_put (pdata p) nwrite_idx buf pos write_size\<rparr>, write_size, nw))"

definition pipe_get :: "pipe \<Rightarrow> u32 \<Rightarrow> nat \<Rightarrow> (u8 list \<times> u32) option" where
  "pipe_get p nw want =
     (let nread_old = nread p; readable = unat (PIPE_READABLE_SIZE nw nread_old) in
      if readable = 0 then None
      else
        let read_size = min want readable;
            nr = nread_old + of_nat read_size;
            nread_idx = unat nread_old mod PIPESIZE
        in Some (ring_get (pdata p) nread_idx read_size, nr))"

subsection \<open>Threads\<close>

text \<open>
  User memory: the accessible bytes with their values. \<open>vm_copyin\<close> and \<open>vm_copyout\<close> fail
  when some byte of the range is not accessible.
\<close>

type_synonym user_mem = "u64 \<Rightarrow> u8 option"

definition vm_copyin :: "user_mem \<Rightarrow> u64 \<Rightarrow> nat \<Rightarrow> u8 list option" where
  "vm_copyin um srcva len = those (map (\<lambda>k. um (srcva + of_nat k)) [0..<len])"

definition vm_copyout :: "user_mem \<Rightarrow> u64 \<Rightarrow> u8 list \<Rightarrow> user_mem option" where
  "vm_copyout um dstva bytes =
     (if \<forall>k < length bytes. um (dstva + of_nat k) \<noteq> None
      then Some (fold (\<lambda>k m. m(dstva + of_nat k \<mapsto> bytes ! k)) [0..<length bytes] um)
      else None)"

text \<open>The locals of \<open>pipewrite\<close> and of \<open>piperead\<close>.\<close>

record uframe =
  uaddr :: u64
  un :: nat
  ui :: nat
  ubuf :: "u8 list"
  ulen :: nat        \<comment> \<open>\<open>buf_len\<close>\<close>
  upos :: nat        \<comment> \<open>\<open>buf_pos\<close>\<close>

text \<open>
  Program counters. In the \<open>Locked\<close>, \<open>Inner\<close> and \<open>Publish\<close> states the thread holds its
  side's lock; the counter in a \<open>Locked\<close> state is the snapshot of the other side's counter.
\<close>

datatype wpc =
    WIdle
  | WLoop "u8 list" nat                \<comment> \<open>\<open>pipewrite_kernel\<close>: top of the loop, \<open>i\<close> bytes written\<close>
  | WLocked "u8 list" nat u32          \<comment> \<open>lock held, \<open>nread\<close> loaded\<close>
  | WPublish "u8 list" nat nat u32     \<comment> \<open>data copied, \<open>nwrite\<close> not yet stored\<close>
  | WWaitReader "u8 list" nat          \<comment> \<open>found the pipe full, released the lock\<close>
  | WSleep "u8 list" nat               \<comment> \<open>inside \<open>tq_wait\<close> on \<open>nwrite_queue\<close>\<close>
  | UWLoop uframe                      \<comment> \<open>\<open>pipewrite\<close>: top of the outer loop\<close>
  | UWInner uframe                     \<comment> \<open>top of the inner loop, lock held\<close>
  | UWLocked uframe u32
  | UWPublish uframe nat u32
  | UWWaitReader uframe
  | UWSleep uframe
  | UWOut uframe
  | WDone int

datatype rpc =
    RIdle
  | RLoop nat "u8 list"                \<comment> \<open>\<open>piperead_kernel\<close>: request size, bytes read so far\<close>
  | RLocked nat "u8 list" u32
  | RPublish nat "u8 list" "u8 list" u32
  | RWaitWriter nat "u8 list"
  | RSleep nat "u8 list"
  | ROut nat "u8 list"
  | URLoop uframe                      \<comment> \<open>\<open>piperead\<close>: top of the outer loop\<close>
  | URInner uframe                     \<comment> \<open>top of the inner loop, lock held\<close>
  | URLocked uframe u32
  | URPublish uframe "u8 list" u32
  | URWaitWriter uframe
  | URSleep uframe
  | URCopy uframe                      \<comment> \<open>lock released, before \<open>vm_copyout\<close>\<close>
  | UROut uframe
  | RDone int

text \<open>Thread identities in the wait queues: the writer is 0, the reader 1.\<close>

record pipe_sys =
  pi :: pipe
  wpc :: wpc
  rpc :: rpc
  umem :: user_mem
  sent :: "u8 list"      \<comment> \<open>history: all bytes published by writers\<close>
  got :: "u8 list"       \<comment> \<open>history: all bytes consumed by readers\<close>

fun writer_lock_held :: "wpc \<Rightarrow> bool" where
  "writer_lock_held (WLocked buf i nr) = True"
| "writer_lock_held (WPublish buf i k nw) = True"
| "writer_lock_held (UWInner f) = True"
| "writer_lock_held (UWLocked f nr) = True"
| "writer_lock_held (UWPublish f k nw) = True"
| "writer_lock_held w = False"

fun reader_lock_held :: "rpc \<Rightarrow> bool" where
  "reader_lock_held (RLocked n out nw) = True"
| "reader_lock_held (RPublish n out bs nr) = True"
| "reader_lock_held (URInner f) = True"
| "reader_lock_held (URLocked f nw) = True"
| "reader_lock_held (URPublish f bs nr) = True"
| "reader_lock_held r = False"

text \<open>
  \<open>__pipe_wait_reader\<close> and \<open>__pipe_wait_writer\<close> up to the sleep: \<open>None\<close> while the other
  thread holds the lock, otherwise whether the caller went to sleep.
\<close>

definition i_pipe_wait_reader :: "bool \<Rightarrow> pipe_sys \<Rightarrow> (bool \<times> pipe) option" where
  "i_pipe_wait_reader killed s =
     (if reader_lock_held (rpc s) then None
      else if \<not> PIPE_READABLE (pi s) \<or> killed then Some (False, pi s)
      else Some (True, (pi s)\<lparr>nwrite_queue := nwrite_queue (pi s) @ [0]\<rparr>))"

definition i_pipe_wait_writer :: "bool \<Rightarrow> pipe_sys \<Rightarrow> (bool \<times> pipe) option" where
  "i_pipe_wait_writer killed s =
     (if writer_lock_held (wpc s) then None
      else if \<not> PIPE_WRITABLE (pi s) \<or> killed then Some (False, pi s)
      else Some (True, (pi s)\<lparr>nread_queue := nread_queue (pi s) @ [1]\<rparr>))"

subsection \<open>The kernel-mode transfers\<close>

definition pipewrite_kernel_step :: "bool \<Rightarrow> pipe_sys \<Rightarrow> pipe_sys option" where
  "pipewrite_kernel_step killed s = (case wpc s of
     WLoop buf i \<Rightarrow>
       if i < length buf then Some (s\<lparr>wpc := WLocked buf i (nread (pi s))\<rparr>)
       else Some (s\<lparr>pi := (pi s)\<lparr>nread_queue := []\<rparr>, wpc := WDone (int i)\<rparr>)
   | WLocked buf i nr \<Rightarrow>
       if \<not> PIPE_READABLE (pi s) \<or> killed then Some (s\<lparr>wpc := WDone (-1)\<rparr>)
       else (case pipe_put (pi s) nr buf i (length buf - i) of
          None \<Rightarrow> Some (s\<lparr>pi := (pi s)\<lparr>nread_queue := []\<rparr>, wpc := WWaitReader buf i\<rparr>)
        | Some (p, write_size, nw) \<Rightarrow> Some (s\<lparr>pi := p, wpc := WPublish buf i write_size nw\<rparr>))
   | WPublish buf i write_size nw \<Rightarrow>
       Some (s\<lparr>pi := (pi s)\<lparr>nwrite := nw\<rparr>, wpc := WLoop buf (i + write_size),
               sent := sent s @ take write_size (drop i buf)\<rparr>)
   | WWaitReader buf i \<Rightarrow>
       (case i_pipe_wait_reader killed s of
          None \<Rightarrow> None
        | Some (sleeps, p) \<Rightarrow>
            Some (s\<lparr>pi := p, wpc := (if sleeps then WSleep buf i else WLoop buf i)\<rparr>))
   | WSleep buf i \<Rightarrow>
       if 0 \<in> set (nwrite_queue (pi s)) then None else Some (s\<lparr>wpc := WLoop buf i\<rparr>)
   | _ \<Rightarrow> None)"

definition piperead_kernel_step :: "bool \<Rightarrow> pipe_sys \<Rightarrow> pipe_sys option" where
  "piperead_kernel_step killed s = (case rpc s of
     RLoop n out \<Rightarrow>
       if length out < n then Some (s\<lparr>rpc := RLocked n out (nwrite (pi s))\<rparr>)
       else Some (s\<lparr>rpc := ROut n out\<rparr>)
   | RLocked n out nw \<Rightarrow>
       (case pipe_get (pi s) nw (n - length out) of
          None \<Rightarrow>
            if \<not> PIPE_WRITABLE (pi s) then Some (s\<lparr>rpc := ROut n out\<rparr>)
            else if killed then Some (s\<lparr>rpc := RDone (-1)\<rparr>)
            else Some (s\<lparr>pi := (pi s)\<lparr>nwrite_queue := []\<rparr>, rpc := RWaitWriter n out\<rparr>)
        | Some (bytes, nr) \<Rightarrow> Some (s\<lparr>rpc := RPublish n out bytes nr\<rparr>))
   | RPublish n out bytes nr \<Rightarrow>
       Some (s\<lparr>pi := (pi s)\<lparr>nread := nr\<rparr>, rpc := RLoop n (out @ bytes), got := got s @ bytes\<rparr>)
   | RWaitWriter n out \<Rightarrow>
       (case i_pipe_wait_writer killed s of
          None \<Rightarrow> None
        | Some (sleeps, p) \<Rightarrow>
            Some (s\<lparr>pi := p, rpc := (if sleeps then RSleep n out else RLoop n out)\<rparr>))
   | RSleep n out \<Rightarrow>
       if 1 \<in> set (nread_queue (pi s)) then None else Some (s\<lparr>rpc := RLoop n out\<rparr>)
   | ROut n out \<Rightarrow>
       Some (s\<lparr>pi := (pi s)\<lparr>nwrite_queue := []\<rparr>, rpc := RDone (int (length out))\<rparr>)
   | _ \<Rightarrow> None)"

subsection \<open>The user-mode transfers\<close>

definition BUFSZ :: nat where "BUFSZ = 128"

definition pipewrite_step :: "bool \<Rightarrow> pipe_sys \<Rightarrow> pipe_sys option" where
  "pipewrite_step killed s = (case wpc s of
     UWLoop f \<Rightarrow>
       if ui f < un f then
         (if ulen f = 0 then
            (let len = min (un f - ui f) BUFSZ in
             case vm_copyin (umem s) (uaddr f + of_nat (ui f)) len of
               None \<Rightarrow> Some (s\<lparr>wpc := UWOut (f\<lparr>ulen := len\<rparr>)\<rparr>)
             | Some bytes \<Rightarrow>
                 Some (s\<lparr>wpc := UWInner (f\<lparr>ubuf := bytes, ulen := len, ui := ui f + len\<rparr>)\<rparr>))
          else Some (s\<lparr>wpc := UWInner (f\<lparr>ui := ui f + ulen f\<rparr>)\<rparr>))
       else Some (s\<lparr>wpc := UWOut f\<rparr>)
   | UWInner f \<Rightarrow>
       if upos f < ulen f then Some (s\<lparr>wpc := UWLocked f (nread (pi s))\<rparr>)
       else Some (s\<lparr>wpc := UWLoop (f\<lparr>upos := 0, ulen := 0\<rparr>)\<rparr>)
   | UWLocked f nr \<Rightarrow>
       if \<not> PIPE_READABLE (pi s) \<or> killed then Some (s\<lparr>wpc := WDone (-1)\<rparr>)
       else (case pipe_put (pi s) nr (ubuf f) (upos f) (ulen f - upos f) of
          None \<Rightarrow> Some (s\<lparr>pi := (pi s)\<lparr>nread_queue := []\<rparr>, wpc := UWWaitReader f\<rparr>)
        | Some (p, write_size, nw) \<Rightarrow> Some (s\<lparr>pi := p, wpc := UWPublish f write_size nw\<rparr>))
   | UWPublish f write_size nw \<Rightarrow>
       Some (s\<lparr>pi := (pi s)\<lparr>nwrite := nw\<rparr>, wpc := UWInner (f\<lparr>upos := upos f + write_size\<rparr>),
               sent := sent s @ take write_size (drop (upos f) (ubuf f))\<rparr>)
   | UWWaitReader f \<Rightarrow>
       (case i_pipe_wait_reader killed s of
          None \<Rightarrow> None
        | Some (sleeps, p) \<Rightarrow>
            Some (s\<lparr>pi := p, wpc := (if sleeps then UWSleep f else UWInner f)\<rparr>))
   | UWSleep f \<Rightarrow>
       if 0 \<in> set (nwrite_queue (pi s)) then None else Some (s\<lparr>wpc := UWInner f\<rparr>)
   | UWOut f \<Rightarrow>
       Some (s\<lparr>pi := (pi s)\<lparr>nread_queue := []\<rparr>,
               wpc := WDone (int (ui f) - (int (ulen f) - int (upos f)))\<rparr>)
   | _ \<Rightarrow> None)"

definition piperead_step :: "bool \<Rightarrow> pipe_sys \<Rightarrow> pipe_sys option" where
  "piperead_step killed s = (case rpc s of
     URLoop f \<Rightarrow>
       if ui f < un f then Some (s\<lparr>rpc := URInner f\<rparr>) else Some (s\<lparr>rpc := UROut f\<rparr>)
   | URInner f \<Rightarrow>
       if ulen f = 0 then Some (s\<lparr>rpc := URLocked f (nwrite (pi s))\<rparr>)
       else Some (s\<lparr>rpc := URCopy f\<rparr>)
   | URLocked f nw \<Rightarrow>
       (case pipe_get (pi s) nw (min (un f - ui f) BUFSZ) of
          None \<Rightarrow>
            if \<not> PIPE_WRITABLE (pi s) then Some (s\<lparr>rpc := UROut f\<rparr>)
            else if killed then Some (s\<lparr>rpc := RDone (-1)\<rparr>)
            else Some (s\<lparr>pi := (pi s)\<lparr>nwrite_queue := []\<rparr>, rpc := URWaitWriter f\<rparr>)
        | Some (bytes, nr) \<Rightarrow> Some (s\<lparr>rpc := URPublish f bytes nr\<rparr>))
   | URPublish f bytes nr \<Rightarrow>
       Some (s\<lparr>pi := (pi s)\<lparr>nread := nr\<rparr>,
               rpc := URInner (f\<lparr>ubuf := bytes, ulen := length bytes\<rparr>), got := got s @ bytes\<rparr>)
   | URWaitWriter f \<Rightarrow>
       (case i_pipe_wait_writer killed s of
          None \<Rightarrow> None
        | Some (sleeps, p) \<Rightarrow>
            Some (s\<lparr>pi := p, rpc := (if sleeps then URSleep f else URInner f)\<rparr>))
   | URSleep f \<Rightarrow>
       if 1 \<in> set (nread_queue (pi s)) then None else Some (s\<lparr>rpc := URInner f\<rparr>)
   | URCopy f \<Rightarrow>
       (let copy_size = min (ulen f - upos f) (un f - ui f) in
        case vm_copyout (umem s) (uaddr f + of_nat (ui f)) (take copy_size (drop (upos f) (ubuf f))) of
          None \<Rightarrow> Some (s\<lparr>rpc := UROut f\<rparr>)
        | Some um \<Rightarrow>
            (let f1 = f\<lparr>ui := ui f + copy_size, upos := upos f + copy_size\<rparr>;
                 f2 = (if ulen f1 \<le> upos f1 then f1\<lparr>upos := 0, ulen := 0\<rparr> else f1)
             in Some (s\<lparr>umem := um, rpc := URLoop f2\<rparr>)))
   | UROut f \<Rightarrow>
       Some (s\<lparr>pi := (pi s)\<lparr>nwrite_queue := []\<rparr>, rpc := RDone (int (ui f))\<rparr>)
   | _ \<Rightarrow> None)"

text \<open>
  The system: either thread may start a call when it has none, take its next step, and
  either end may be closed whenever its lock is free.
\<close>

definition pipe_init :: pipe where
  "pipe_init = \<lparr>nread = 0, nread_queue = [], nwrite = 0, nwrite_queue = [],
     pflags = PIPE_FLAGS_RW, pdata = replicate PIPESIZE 0\<rparr>"

definition uframe_init :: "u64 \<Rightarrow> nat \<Rightarrow> uframe" where
  "uframe_init addr n = \<lparr>uaddr = addr, un = n, ui = 0, ubuf = [], ulen = 0, upos = 0\<rparr>"

definition pipe_sys_init :: "user_mem \<Rightarrow> pipe_sys" where
  "pipe_sys_init um =
     \<lparr>pi = pipe_init, wpc = WIdle, rpc = RIdle, umem = um, sent = [], got = []\<rparr>"

inductive pipe_step :: "pipe_sys \<Rightarrow> pipe_sys \<Rightarrow> bool" where
  write_kernel_call: "wpc s = WIdle \<or> wpc s = WDone r \<Longrightarrow> pipe_step s (s\<lparr>wpc := WLoop buf 0\<rparr>)"
| write_call: "wpc s = WIdle \<or> wpc s = WDone r \<Longrightarrow>
    pipe_step s (s\<lparr>wpc := UWLoop (uframe_init addr n)\<rparr>)"
| read_kernel_call: "rpc s = RIdle \<or> rpc s = RDone r \<Longrightarrow> pipe_step s (s\<lparr>rpc := RLoop n []\<rparr>)"
| read_call: "rpc s = RIdle \<or> rpc s = RDone r \<Longrightarrow>
    pipe_step s (s\<lparr>rpc := URLoop (uframe_init addr n)\<rparr>)"
| write_kernel: "pipewrite_kernel_step killed s = Some t \<Longrightarrow> pipe_step s t"
| write_user: "pipewrite_step killed s = Some t \<Longrightarrow> pipe_step s t"
| read_kernel: "piperead_kernel_step killed s = Some t \<Longrightarrow> pipe_step s t"
| read_user: "piperead_step killed s = Some t \<Longrightarrow> pipe_step s t"
| close_write: "\<not> writer_lock_held (wpc s) \<Longrightarrow>
    pipe_step s (s\<lparr>pi := snd (pipeclose (pi s) True)\<rparr>)"
| close_read: "\<not> reader_lock_held (rpc s) \<Longrightarrow>
    pipe_step s (s\<lparr>pi := snd (pipeclose (pi s) False)\<rparr>)"

inductive pipe_reachable :: "user_mem \<Rightarrow> pipe_sys \<Rightarrow> bool" for um where
  start: "pipe_reachable um (pipe_sys_init um)"
| step: "pipe_reachable um s \<Longrightarrow> pipe_step s t \<Longrightarrow> pipe_reachable um t"

subsection \<open>The ring as a byte queue\<close>

definition filled :: "pipe \<Rightarrow> nat" where
  "filled p = unat (nwrite p - nread p)"

definition contents :: "pipe \<Rightarrow> u8 list" where
  "contents p = map (\<lambda>k. pdata p ! ((unat (nread p) + k) mod PIPESIZE)) [0..<filled p]"

definition ring_ok :: "pipe \<Rightarrow> bool" where
  "ring_ok p \<longleftrightarrow> length (pdata p) = PIPESIZE \<and> filled p \<le> PIPESIZE"

text \<open>
  \<open>pub_ok\<close>: \<open>k\<close> bytes of \<open>buf\<close> lie in the free part, ready to be published by storing \<open>nw\<close>.
  \<open>get_ok\<close>: the bytes were copied from the head of the queue, to be consumed by storing \<open>nr\<close>.
\<close>

definition pub_ok :: "pipe \<Rightarrow> u8 list \<Rightarrow> nat \<Rightarrow> nat \<Rightarrow> u32 \<Rightarrow> bool" where
  "pub_ok p buf pos k nw \<longleftrightarrow>
     nw = nwrite p + of_nat k \<and> filled p + k \<le> PIPESIZE \<and> pos + k \<le> length buf \<and>
     (\<forall>j<k. pdata p ! ((unat (nwrite p) + j) mod PIPESIZE) = buf ! (pos + j))"

definition get_ok :: "pipe \<Rightarrow> u8 list \<Rightarrow> u32 \<Rightarrow> bool" where
  "get_ok p bytes nr \<longleftrightarrow>
     nr = nread p + of_nat (length bytes) \<and> length bytes \<le> filled p \<and>
     bytes = take (length bytes) (contents p)"

definition wsnap_ok :: "pipe \<Rightarrow> u32 \<Rightarrow> bool" where
  "wsnap_ok p nr \<longleftrightarrow> filled p \<le> unat (nwrite p - nr) \<and> unat (nwrite p - nr) \<le> PIPESIZE"

definition rsnap_ok :: "pipe \<Rightarrow> u32 \<Rightarrow> bool" where
  "rsnap_ok p nw \<longleftrightarrow> unat (nw - nread p) \<le> filled p"

lemma length_contents [simp]: "length (contents p) = filled p"
  by (simp add: contents_def)

lemma unat_add_of_nat: "unat ((a::u32) + of_nat k) = (unat a + k) mod 2 ^ 32"
  by (simp add: unat_word_ariths unat_of_nat mod_simps)

lemma unat_add_mod: "unat ((a::u32) + of_nat k) mod PIPESIZE = (unat a + k) mod PIPESIZE"
  unfolding unat_add_of_nat by (simp add: PIPESIZE_def mod_mod_cancel)

lemma unat_sub_add: "unat ((b::u32) - a) + k < 2 ^ 32 \<Longrightarrow> unat (b + of_nat k - a) = unat (b - a) + k"
proof -
  assume *: "unat (b - a) + k < 2 ^ 32"
  have "b + of_nat k - a = (b - a) + of_nat k" by simp
  then show ?thesis using * by (metis unat_add_of_nat mod_less)
qed

lemma unat_sub_sub: "k \<le> unat ((b::u32) - a) \<Longrightarrow> unat (b - (a + of_nat k)) = unat (b - a) - k"
proof -
  assume *: "k \<le> unat (b - a)"
  have "unat (b - a) < 2 ^ 32" using unsigned_less [of "b - a"] by simp
  with * have u: "unat (of_nat k :: u32) = k" by (simp add: unat_of_nat)
  have "b - (a + of_nat k) = (b - a) - of_nat k" by simp
  moreover have "of_nat k \<le> b - a" using * u by (simp add: word_le_nat_alt)
  ultimately show ?thesis using u by (metis unat_sub)
qed

lemma nwrite_pos: "(unat (nwrite p) + j) mod PIPESIZE = (unat (nread p) + filled p + j) mod PIPESIZE"
proof -
  have "unat (nwrite p) mod PIPESIZE = (unat (nread p) + filled p) mod PIPESIZE"
    using unat_add_mod [of "nread p" "filled p"] by (simp add: filled_def)
  then show ?thesis by (metis mod_add_left_eq)
qed

lemma length_arr_copy [simp]:
  "i + n \<le> length dst \<Longrightarrow> j + n \<le> length src \<Longrightarrow> length (arr_copy dst i src j n) = length dst"
  by (simp add: arr_copy_def)

lemma nth_arr_copy:
  "i + n \<le> length dst \<Longrightarrow> j + n \<le> length src \<Longrightarrow> m < length dst \<Longrightarrow>
   arr_copy dst i src j n ! m = (if i \<le> m \<and> m < i + n then src ! (j + (m - i)) else dst ! m)"
  by (auto simp: arr_copy_def nth_append)

lemma mod_wrap: "x < n \<Longrightarrow> y < n \<Longrightarrow> (x + y) mod n = (if x + y < n then x + y else x + y - n)" for n :: nat
  by (simp add: mod_if)

lemma length_ring_put [simp]:
  "length dat = PIPESIZE \<Longrightarrow> idx < PIPESIZE \<Longrightarrow> k \<le> PIPESIZE \<Longrightarrow> pos + k \<le> length buf \<Longrightarrow>
   length (ring_put dat idx buf pos k) = PIPESIZE"
  by (simp add: ring_put_def Let_def)

lemma nth_ring_put:
  assumes "length dat = PIPESIZE" "idx < PIPESIZE" "k \<le> PIPESIZE" "pos + k \<le> length buf" "j < PIPESIZE"
  shows "ring_put dat idx buf pos k ! ((idx + j) mod PIPESIZE) =
         (if j < k then buf ! (pos + j) else dat ! ((idx + j) mod PIPESIZE))"
proof (cases "idx + k \<le> PIPESIZE")
  case True
  then show ?thesis using assms by (auto simp: ring_put_def nth_arr_copy mod_wrap)
next
  case False
  define fp where "fp = PIPESIZE - idx"
  have fp: "idx + fp = PIPESIZE" "fp < k" "k - fp \<le> idx" using False assms by (auto simp: fp_def)
  have eq: "ring_put dat idx buf pos k = arr_copy (arr_copy dat idx buf pos fp) 0 buf (pos + fp) (k - fp)"
    using False by (simp add: ring_put_def fp_def Let_def)
  show ?thesis
  proof (cases "idx + j < PIPESIZE")
    case True
    then show ?thesis unfolding eq using assms fp by (auto simp: nth_arr_copy mod_wrap)
  next
    case j: False
    then have "(idx + j) mod PIPESIZE = j - fp" using assms fp by (simp add: mod_wrap)
    then show ?thesis unfolding eq using assms fp j by (auto simp: nth_arr_copy)
  qed
qed

lemma ring_get_eq:
  assumes "length dat = PIPESIZE" "idx < PIPESIZE" "k \<le> PIPESIZE"
  shows "ring_get dat idx k = map (\<lambda>j. dat ! ((idx + j) mod PIPESIZE)) [0..<k]"
proof (rule nth_equalityI)
  show "length (ring_get dat idx k) = length (map (\<lambda>j. dat ! ((idx + j) mod PIPESIZE)) [0..<k])"
    using assms by (auto simp: ring_get_def)
next
  fix m assume "m < length (ring_get dat idx k)"
  then have "m < k" using assms by (auto simp: ring_get_def split: if_splits)
  then show "ring_get dat idx k ! m = map (\<lambda>j. dat ! ((idx + j) mod PIPESIZE)) [0..<k] ! m"
    using assms by (auto simp: ring_get_def Let_def nth_append mod_wrap min_def add.commute)
qed

text \<open>Copying into the free part leaves the queue as it was.\<close>

lemma pipe_put_ok:
  assumes ok: "ring_ok p" "wsnap_ok p nr" "pos + want \<le> length buf"
    and put: "pipe_put p nr buf pos want = Some (p', k, nw)"
  shows "contents p' = contents p \<and> ring_ok p' \<and> pub_ok p' buf pos k nw \<and>
    (\<exists>d. p' = p\<lparr>pdata := d\<rparr>) \<and> k \<le> want"
proof -
  define idx where "idx = unat (nwrite p) mod PIPESIZE"
  have wr: "unat (PIPE_WRITABLE_SIZE (nwrite p) nr) = PIPESIZE - unat (nwrite p - nr)"
    using ok(2) by (subst PIPE_WRITABLE_SIZE_def)
      (simp add: PIPE_READABLE_SIZE_def PIPESIZE_def wsnap_ok_def unat_sub word_le_nat_alt)
  have k: "k = min want (PIPESIZE - unat (nwrite p - nr))" and nw: "nw = nwrite p + of_nat k"
    and p': "p' = p\<lparr>pdata := ring_put (pdata p) idx buf pos k\<rparr>"
    using put by (auto simp: pipe_put_def Let_def wr idx_def split: if_splits)
  have kb: "filled p + k \<le> PIPESIZE" "k \<le> want" "idx < PIPESIZE" "length (pdata p) = PIPESIZE"
    using ok k by (auto simp: wsnap_ok_def ring_ok_def idx_def PIPESIZE_def)
  have kb': "k \<le> PIPESIZE" "pos + k \<le> length buf" using kb ok by auto
  have sel: "nwrite p' = nwrite p" "nread p' = nread p" "filled p' = filled p"
    by (simp_all add: p' filled_def)
  have nth: "j < PIPESIZE \<Longrightarrow> pdata p' ! ((idx + j) mod PIPESIZE) =
      (if j < k then buf ! (pos + j) else pdata p ! ((idx + j) mod PIPESIZE))" for j
    using nth_ring_put [OF kb(4) kb(3) kb'] by (simp add: p')
  have "pdata p' ! ((unat (nread p) + j) mod PIPESIZE) = pdata p ! ((unat (nread p) + j) mod PIPESIZE)"
    if "j < filled p" for j
  proof -
    have "(idx + (PIPESIZE - filled p + j)) mod PIPESIZE
        = (unat (nwrite p) + (PIPESIZE - filled p + j)) mod PIPESIZE"
      by (simp add: idx_def mod_simps)
    also have "\<dots> = (unat (nread p) + j + PIPESIZE) mod PIPESIZE"
      unfolding nwrite_pos using kb by (simp add: algebra_simps)
    finally have "(idx + (PIPESIZE - filled p + j)) mod PIPESIZE = (unat (nread p) + j) mod PIPESIZE"
      by simp
    then show ?thesis using nth [of "PIPESIZE - filled p + j"] that kb by auto
  qed
  then have "contents p' = contents p" by (simp add: contents_def sel)
  moreover have "pub_ok p' buf pos k nw"
    unfolding pub_ok_def using nth kb kb' by (auto simp: sel nw idx_def mod_simps)
  moreover have "ring_ok p'" using ok kb kb' sel by (simp add: ring_ok_def p')
  ultimately show ?thesis using p' kb by blast
qed

lemma publish_ok:
  assumes "ring_ok p" "pub_ok p buf pos k nw"
  shows "contents (p\<lparr>nwrite := nw\<rparr>) = contents p @ take k (drop pos buf) \<and>
    ring_ok (p\<lparr>nwrite := nw\<rparr>) \<and> filled (p\<lparr>nwrite := nw\<rparr>) = filled p + k"
proof -
  have f: "filled (p\<lparr>nwrite := nw\<rparr>) = filled p + k"
    using assms by (simp add: filled_def pub_ok_def unat_sub_add PIPESIZE_def)
  have "contents (p\<lparr>nwrite := nw\<rparr>) = contents p @ take k (drop pos buf)"
  proof (rule nth_equalityI)
    show "length (contents (p\<lparr>nwrite := nw\<rparr>)) = length (contents p @ take k (drop pos buf))"
      using assms(2) unfolding length_append length_contents f by (auto simp: pub_ok_def)
  next
    fix j assume "j < length (contents (p\<lparr>nwrite := nw\<rparr>))"
    then have j: "j < filled p + k" by (simp add: f)
    show "contents (p\<lparr>nwrite := nw\<rparr>) ! j = (contents p @ take k (drop pos buf)) ! j"
    proof (cases "j < filled p")
      case True
      then show ?thesis by (simp add: nth_append, simp add: contents_def f)
    next
      case False
      have all: "m < k \<Longrightarrow> pdata p ! ((unat (nwrite p) + m) mod PIPESIZE) = buf ! (pos + m)" for m
        using assms(2) by (simp add: pub_ok_def)
      have "pdata p ! ((unat (nread p) + j) mod PIPESIZE) = buf ! (pos + (j - filled p))"
        using all [of "j - filled p"] False j unfolding nwrite_pos by simp
      moreover have "contents (p\<lparr>nwrite := nw\<rparr>) ! j = pdata p ! ((unat (nread p) + j) mod PIPESIZE)"
        using j by (simp add: contents_def f)
      moreover have "(contents p @ take k (drop pos buf)) ! j = buf ! (pos + (j - filled p))"
        using assms(2) j False by (simp add: nth_append pub_ok_def)
      ultimately show ?thesis by simp
    qed
  qed
  then show ?thesis using f assms by (simp add: ring_ok_def pub_ok_def)
qed

lemma pipe_get_ok:
  assumes ok: "ring_ok p" "rsnap_ok p nw" and get: "pipe_get p nw want = Some (bytes, nr)"
  shows "get_ok p bytes nr \<and> length bytes \<le> want"
proof -
  define k where "k = min want (unat (nw - nread p))"
  have b: "bytes = ring_get (pdata p) (unat (nread p) mod PIPESIZE) k" and nr: "nr = nread p + of_nat k"
    using get by (auto simp: pipe_get_def PIPE_READABLE_SIZE_def Let_def k_def split: if_splits)
  have k: "k \<le> filled p" "k \<le> PIPESIZE" "k \<le> want" using ok by (auto simp: k_def rsnap_ok_def ring_ok_def)
  have "bytes = map (\<lambda>j. pdata p ! ((unat (nread p) mod PIPESIZE + j) mod PIPESIZE)) [0..<k]"
    unfolding b using ok k by (intro ring_get_eq) (auto simp: ring_ok_def PIPESIZE_def)
  then have eq: "bytes = map (\<lambda>j. pdata p ! ((unat (nread p) + j) mod PIPESIZE)) [0..<k]"
    by (simp add: mod_simps)
  then show ?thesis using k nr by (simp add: get_ok_def contents_def take_map)
qed

lemma consume_ok:
  assumes "ring_ok p" "get_ok p bytes nr"
  shows "contents p = bytes @ contents (p\<lparr>nread := nr\<rparr>) \<and> ring_ok (p\<lparr>nread := nr\<rparr>) \<and>
    filled (p\<lparr>nread := nr\<rparr>) = filled p - length bytes"
proof -
  have f: "filled (p\<lparr>nread := nr\<rparr>) = filled p - length bytes"
    using assms by (simp add: filled_def get_ok_def unat_sub_sub)
  have "contents (p\<lparr>nread := nr\<rparr>) = drop (length bytes) (contents p)"
    (is "?l = ?r")
  proof (rule nth_equalityI)
    show "length ?l = length ?r" by (simp add: f)
  next
    fix j assume "j < length ?l"
    then have j: "j < filled p - length bytes" "length bytes + j < filled p" by (simp_all add: f)
    have "(unat nr + j) mod PIPESIZE = (unat (nread p) + length bytes + j) mod PIPESIZE"
      using assms(2) unat_add_mod [of "nread p" "length bytes"]
      by (metis get_ok_def mod_add_left_eq)
    then show "?l ! j = ?r ! j" using j
      by (simp add: contents_def f nth_append add.assoc del: upt_rec_numeral)
  qed
  then have "contents p = bytes @ contents (p\<lparr>nread := nr\<rparr>)"
    using assms(2) by (metis append_take_drop_id get_ok_def)
  then show ?thesis using f assms by (auto simp: ring_ok_def)
qed

subsection \<open>The system invariant\<close>

fun winv :: "pipe \<Rightarrow> wpc \<Rightarrow> bool" where
  "winv p (WLoop buf i) = (i \<le> length buf)"
| "winv p (WLocked buf i nr) = (i \<le> length buf \<and> wsnap_ok p nr)"
| "winv p (WPublish buf i k nw) = pub_ok p buf i k nw"
| "winv p (WWaitReader buf i) = (i \<le> length buf)"
| "winv p (WSleep buf i) = (i \<le> length buf)"
| "winv p (UWLoop f) = (ulen f = 0 \<and> upos f = 0)"
| "winv p (UWInner f) = (length (ubuf f) = ulen f \<and> upos f \<le> ulen f)"
| "winv p (UWLocked f nr) = (length (ubuf f) = ulen f \<and> upos f \<le> ulen f \<and> wsnap_ok p nr)"
| "winv p (UWPublish f k nw) = (length (ubuf f) = ulen f \<and> pub_ok p (ubuf f) (upos f) k nw)"
| "winv p (UWWaitReader f) = (length (ubuf f) = ulen f \<and> upos f \<le> ulen f)"
| "winv p (UWSleep f) = (length (ubuf f) = ulen f \<and> upos f \<le> ulen f)"
| "winv p w = True"

fun rinv :: "pipe \<Rightarrow> rpc \<Rightarrow> bool" where
  "rinv p (RLocked n out nw) = rsnap_ok p nw"
| "rinv p (RPublish n out bytes nr) = get_ok p bytes nr"
| "rinv p (URLocked f nw) = rsnap_ok p nw"
| "rinv p (URPublish f bytes nr) = get_ok p bytes nr"
| "rinv p r = True"

definition pipe_inv :: "pipe_sys \<Rightarrow> bool" where
  "pipe_inv s \<longleftrightarrow> ring_ok (pi s) \<and> winv (pi s) (wpc s) \<and> rinv (pi s) (rpc s) \<and>
     got s @ contents (pi s) = sent s"

definition same_ring :: "pipe \<Rightarrow> pipe \<Rightarrow> bool" where
  "same_ring p p' \<longleftrightarrow> nread p' = nread p \<and> nwrite p' = nwrite p \<and> pdata p' = pdata p"

lemma same_ring_facts:
  assumes "same_ring p p'"
  shows "contents p' = contents p" "ring_ok p' = ring_ok p" "winv p' w = winv p w" "rinv p' r = rinv p r"
proof -
  have f: "filled p' = filled p" using assms by (simp add: filled_def same_ring_def)
  then show "contents p' = contents p" "ring_ok p' = ring_ok p"
    using assms by (simp_all add: contents_def ring_ok_def same_ring_def)
  then show "winv p' w = winv p w" "rinv p' r = rinv p r"
    using assms f by (cases w; simp add: same_ring_def wsnap_ok_def pub_ok_def)
      (use assms f \<open>contents p' = contents p\<close> in
        \<open>cases r; simp add: same_ring_def rsnap_ok_def get_ok_def\<close>)
qed

lemma same_ring_intros [simp]:
  "same_ring p p" "same_ring p (p\<lparr>nread_queue := q\<rparr>)" "same_ring p (p\<lparr>nwrite_queue := q\<rparr>)"
  "same_ring p (p\<lparr>pflags := fl\<rparr>)" "same_ring p (p\<lparr>pflags := fl, nread_queue := q\<rparr>)"
  "same_ring p (p\<lparr>pflags := fl, nwrite_queue := q\<rparr>)"
  by (simp_all add: same_ring_def)

lemmas ring_frame [simp] =
  same_ring_intros(2) [THEN same_ring_facts(1)] same_ring_intros(2) [THEN same_ring_facts(2)]
  same_ring_intros(2) [THEN same_ring_facts(3)] same_ring_intros(2) [THEN same_ring_facts(4)]
  same_ring_intros(3) [THEN same_ring_facts(1)] same_ring_intros(3) [THEN same_ring_facts(2)]
  same_ring_intros(3) [THEN same_ring_facts(3)] same_ring_intros(3) [THEN same_ring_facts(4)]
  same_ring_intros(4) [THEN same_ring_facts(1)] same_ring_intros(4) [THEN same_ring_facts(2)]
  same_ring_intros(4) [THEN same_ring_facts(3)] same_ring_intros(4) [THEN same_ring_facts(4)]

text \<open>What one thread relies on is stable under the steps of the other.\<close>

lemma winv_consume:
  assumes "ring_ok p" "get_ok p bytes nr" "winv p w"
  shows "winv (p\<lparr>nread := nr\<rparr>) w"
proof -
  have "filled (p\<lparr>nread := nr\<rparr>) \<le> filled p" using consume_ok [OF assms(1,2)] by simp
  then show ?thesis using assms(3) by (cases w) (auto simp: wsnap_ok_def pub_ok_def)
qed

lemma rinv_publish:
  assumes "ring_ok p" "pub_ok p buf pos k nw" "rinv p r"
  shows "rinv (p\<lparr>nwrite := nw\<rparr>) r"
  using publish_ok [OF assms(1,2)] assms(3) by (cases r) (auto simp: rsnap_ok_def get_ok_def)

lemma rinv_same_contents:
  assumes "contents p' = contents p" "p' = p\<lparr>pdata := d\<rparr>" "rinv p r"
  shows "rinv p' r"
proof -
  have "filled p' = filled p" using assms by (simp add: filled_def)
  then show ?thesis using assms by (cases r) (auto simp: rsnap_ok_def get_ok_def)
qed

lemma snap_self: "ring_ok p \<Longrightarrow> wsnap_ok p (nread p)" "rsnap_ok p (nwrite p)"
  by (simp_all add: wsnap_ok_def rsnap_ok_def filled_def ring_ok_def)

lemma pipe_inv_same_ring:
  "pipe_inv s \<Longrightarrow> same_ring (pi s) (pi t) \<Longrightarrow> sent t = sent s \<Longrightarrow> got t = got s \<Longrightarrow>
   winv (pi s) (wpc t) \<Longrightarrow> rinv (pi s) (rpc t) \<Longrightarrow> pipe_inv t"
  using same_ring_facts [of "pi s" "pi t"] by (simp add: pipe_inv_def)

lemma pipe_inv_put:
  assumes "pipe_inv s" "wsnap_ok (pi s) nr" "pos + want \<le> length buf"
    "pipe_put (pi s) nr buf pos want = Some (p', k, nw)" "winv p' w \<longleftrightarrow> pub_ok p' buf pos k nw"
  shows "pipe_inv (s\<lparr>pi := p', wpc := w\<rparr>)"
  using assms pipe_put_ok [OF _ assms(2,3,4)] rinv_same_contents [of p' "pi s"]
  by (auto simp: pipe_inv_def)

lemma pipe_inv_publish:
  assumes "pipe_inv s" "pub_ok (pi s) buf pos k nw" "winv ((pi s)\<lparr>nwrite := nw\<rparr>) w"
  shows "pipe_inv (s\<lparr>pi := (pi s)\<lparr>nwrite := nw\<rparr>, wpc := w, sent := sent s @ take k (drop pos buf)\<rparr>)"
  using assms publish_ok [OF _ assms(2)] rinv_publish [OF _ assms(2)]
  by (auto simp: pipe_inv_def append_assoc [symmetric] simp del: append_assoc)

lemma pipe_inv_consume:
  assumes "pipe_inv s" "get_ok (pi s) bytes nr" "rinv ((pi s)\<lparr>nread := nr\<rparr>) r"
  shows "pipe_inv (s\<lparr>pi := (pi s)\<lparr>nread := nr\<rparr>, rpc := r, got := got s @ bytes\<rparr>)"
  using assms consume_ok [OF _ assms(2)] winv_consume [OF _ assms(2)]
  by (auto simp: pipe_inv_def)

lemma pipe_wait_same_ring:
  "i_pipe_wait_reader killed s = Some (b, p) \<Longrightarrow> same_ring (pi s) p"
  "i_pipe_wait_writer killed s = Some (b, p) \<Longrightarrow> same_ring (pi s) p"
  by (auto simp: i_pipe_wait_reader_def i_pipe_wait_writer_def split: if_splits)

lemma vm_copyin_length: "vm_copyin um a n = Some bytes \<Longrightarrow> length bytes = n"
  by (simp add: vm_copyin_def those_eq_Some)

lemmas pipe_inv_frame = pipe_inv_def snap_self pipe_wait_same_ring [THEN same_ring_facts(1)]
  pipe_wait_same_ring [THEN same_ring_facts(2)] pipe_wait_same_ring [THEN same_ring_facts(3)]
  pipe_wait_same_ring [THEN same_ring_facts(4)]

lemma pipewrite_kernel_step_inv:
  assumes inv: "pipe_inv s" and st: "pipewrite_kernel_step killed s = Some t"
  shows "pipe_inv t"
proof (cases "wpc s")
  case (WLocked buf i nr)
  then have sn: "wsnap_ok (pi s) nr" "i \<le> length buf" using inv by (auto simp: pipe_inv_def)
  show ?thesis
  proof (cases "PIPE_READABLE (pi s) \<and> \<not> killed \<and> pipe_put (pi s) nr buf i (length buf - i) \<noteq> None")
    case True
    then obtain p k nw where put: "pipe_put (pi s) nr buf i (length buf - i) = Some (p, k, nw)" by auto
    then have "t = s\<lparr>pi := p, wpc := WPublish buf i k nw\<rparr>"
      using st True WLocked by (simp add: pipewrite_kernel_step_def)
    then show ?thesis using pipe_inv_put [OF inv sn(1) _ put] sn(2) by simp
  next
    case False
    then show ?thesis using st inv WLocked
      by (auto simp: pipewrite_kernel_step_def pipe_inv_def split: if_splits option.splits)
  qed
next
  case (WPublish buf i k nw)
  then have ok: "pub_ok (pi s) buf i k nw" using inv by (simp add: pipe_inv_def)
  then have "i + k \<le> length buf" by (simp add: pub_ok_def)
  then show ?thesis using st WPublish pipe_inv_publish [OF inv ok, of "WLoop buf (i + k)"]
    by (auto simp: pipewrite_kernel_step_def)
qed (use assms in \<open>auto simp: pipewrite_kernel_step_def pipe_inv_frame
      split: if_splits option.splits\<close>)

lemma pipewrite_step_inv:
  assumes inv: "pipe_inv s" and st: "pipewrite_step killed s = Some t"
  shows "pipe_inv t"
proof (cases "wpc s")
  case (UWLocked f nr)
  then have sn: "wsnap_ok (pi s) nr" "upos f \<le> ulen f" "length (ubuf f) = ulen f"
    using inv by (auto simp: pipe_inv_def)
  let ?put = "pipe_put (pi s) nr (ubuf f) (upos f) (ulen f - upos f)"
  show ?thesis
  proof (cases "PIPE_READABLE (pi s) \<and> \<not> killed \<and> ?put \<noteq> None")
    case True
    then obtain p k nw where put: "?put = Some (p, k, nw)" by auto
    then have "t = s\<lparr>pi := p, wpc := UWPublish f k nw\<rparr>"
      using st True UWLocked by (simp add: pipewrite_step_def)
    then show ?thesis using pipe_inv_put [OF inv sn(1) _ put] sn(2,3) by simp
  next
    case False
    then show ?thesis using st inv UWLocked
      by (auto simp: pipewrite_step_def pipe_inv_def split: if_splits option.splits)
  qed
next
  case (UWPublish f k nw)
  then have ok: "pub_ok (pi s) (ubuf f) (upos f) k nw" "length (ubuf f) = ulen f"
    using inv by (simp_all add: pipe_inv_def)
  then have "upos f + k \<le> ulen f" by (simp add: pub_ok_def)
  then show ?thesis
    using st UWPublish ok pipe_inv_publish [OF inv ok(1), of "UWInner (f\<lparr>upos := upos f + k\<rparr>)"]
    by (auto simp: pipewrite_step_def)
qed (use assms vm_copyin_length in \<open>auto simp: pipewrite_step_def pipe_inv_frame Let_def
      split: if_splits option.splits\<close>)

lemma piperead_kernel_step_inv:
  assumes inv: "pipe_inv s" and st: "piperead_kernel_step killed s = Some t"
  shows "pipe_inv t"
proof (cases "rpc s")
  case (RLocked n out nw)
  then show ?thesis using st inv pipe_get_ok [of "pi s" nw "n - length out"]
    by (auto simp: piperead_kernel_step_def pipe_inv_def split: if_splits option.splits)
next
  case (RPublish n out bytes nr)
  then have ok: "get_ok (pi s) bytes nr" using inv by (simp add: pipe_inv_def)
  then show ?thesis using st RPublish pipe_inv_consume [OF inv ok, of "RLoop n (out @ bytes)"]
    by (auto simp: piperead_kernel_step_def)
qed (use assms in \<open>auto simp: piperead_kernel_step_def pipe_inv_frame
      split: if_splits option.splits\<close>)

lemma piperead_step_inv:
  assumes inv: "pipe_inv s" and st: "piperead_step killed s = Some t"
  shows "pipe_inv t"
proof (cases "rpc s")
  case (URLocked f nw)
  then show ?thesis using st inv pipe_get_ok [of "pi s" nw "min (un f - ui f) BUFSZ"]
    by (auto simp: piperead_step_def pipe_inv_def split: if_splits option.splits)
next
  case (URPublish f bytes nr)
  then have ok: "get_ok (pi s) bytes nr" using inv by (simp add: pipe_inv_def)
  then show ?thesis
    using st URPublish pipe_inv_consume [OF inv ok, of "URInner (f\<lparr>ubuf := bytes, ulen := length bytes\<rparr>)"]
    by (auto simp: piperead_step_def)
qed (use assms in \<open>auto simp: piperead_step_def pipe_inv_frame Let_def
      split: if_splits option.splits\<close>)

lemma pipeclose_same_ring: "same_ring p (snd (pipeclose p b))"
  by (simp add: pipeclose_def PIPE_CLEAR_WRITABLE_def PIPE_CLEAR_READABLE_def)

lemma pipe_step_inv: "pipe_step s t \<Longrightarrow> pipe_inv s \<Longrightarrow> pipe_inv t"
proof (induction rule: pipe_step.induct)
  case (close_write s)
  then show ?case using same_ring_facts [OF pipeclose_same_ring, of "pi s" True]
    by (simp add: pipe_inv_def)
next
  case (close_read s)
  then show ?case using same_ring_facts [OF pipeclose_same_ring, of "pi s" False]
    by (simp add: pipe_inv_def)
next
  case (write_kernel killed s t)
  then show ?case by (rule pipewrite_kernel_step_inv [rotated])
next
  case (write_user killed s t)
  then show ?case by (rule pipewrite_step_inv [rotated])
next
  case (read_kernel killed s t)
  then show ?case by (rule piperead_kernel_step_inv [rotated])
next
  case (read_user killed s t)
  then show ?case by (rule piperead_step_inv [rotated])
qed (simp_all add: pipe_inv_def uframe_init_def)

lemma pipe_reachable_inv: "pipe_reachable um s \<Longrightarrow> pipe_inv s"
proof (induction rule: pipe_reachable.induct)
  case start
  then show ?case
    by (simp add: pipe_inv_def pipe_sys_init_def pipe_init_def ring_ok_def filled_def contents_def)
qed (rule pipe_step_inv)

subsection \<open>Properties\<close>

text \<open>
  C1. First in, first out: under every interleaving of a writer and a reader, in kernel or
  user mode, with either end closed at any time and the 32-bit counters wrapping around, the
  bytes consumed so far followed by the bytes in the ring are exactly the bytes published so
  far, in order, and the ring never holds more than \<open>PIPESIZE\<close> bytes.
\<close>

theorem pipe_fifo:
  assumes "pipe_reachable um s"
  shows "got s @ contents (pi s) = sent s \<and> filled (pi s) \<le> PIPESIZE"
  using pipe_reachable_inv [OF assms] by (simp add: pipe_inv_def ring_ok_def)

lemma reach_write: "pipe_reachable um s \<Longrightarrow> pipewrite_kernel_step False s = Some t \<Longrightarrow> pipe_reachable um t"
  by (blast intro: pipe_reachable.step pipe_step.write_kernel)

lemma reach_read: "pipe_reachable um s \<Longrightarrow> piperead_kernel_step False s = Some t \<Longrightarrow> pipe_reachable um t"
  by (blast intro: pipe_reachable.step pipe_step.read_kernel)

lemma reach_write_call:
  "pipe_reachable um s \<Longrightarrow> wpc s = WIdle \<Longrightarrow> pipe_reachable um (s\<lparr>wpc := WLoop buf 0\<rparr>)"
  by (blast intro: pipe_reachable.step pipe_step.write_kernel_call)

lemma reach_read_call:
  "pipe_reachable um s \<Longrightarrow> rpc s = RIdle \<or> rpc s = RDone r \<Longrightarrow>
   pipe_reachable um (s\<lparr>rpc := RLoop n []\<rparr>)"
  by (blast intro: pipe_reachable.step pipe_step.read_kernel_call)

lemmas pipe_eval = pipewrite_kernel_step_def piperead_kernel_step_def pipe_put_def pipe_get_def
  PIPE_WRITABLE_SIZE_def PIPE_READABLE_SIZE_def PIPE_READABLE_def PIPE_WRITABLE_def
  PIPE_FLAGS_RW_def PIPE_FLAGS_READABLE_def PIPE_FLAGS_WRITABLE_def PIPESIZE_def
  i_pipe_wait_reader_def i_pipe_wait_writer_def pipe_sys_init_def pipe_init_def Let_def

definition demo_pipe ::
    "u32 \<Rightarrow> u32 \<Rightarrow> u8 list \<Rightarrow> wpc \<Rightarrow> rpc \<Rightarrow> u8 list \<Rightarrow> u8 list \<Rightarrow> nat list \<Rightarrow> nat list \<Rightarrow> pipe_sys" where
  "demo_pipe nr nw dat w r snt gt rq wq =
     \<lparr>pi = \<lparr>nread = nr, nread_queue = rq, nwrite = nw, nwrite_queue = wq, pflags = 6, pdata = dat\<rparr>,
      wpc = w, rpc = r, umem = Map.empty, sent = snt, got = gt\<rparr>"

text \<open>A run: the writer fills an empty ring with 512 of its 513 bytes and finds it full.\<close>

lemma demo_full:
  assumes "length buf = 513"
  shows "pipe_reachable Map.empty
    (demo_pipe 0 512 (ring_put (replicate 512 0) 0 buf 0 512) (WWaitReader buf 512) RIdle
      (take 512 buf) [] [] [])"
proof -
  have "pipe_reachable Map.empty (demo_pipe 0 0 (replicate 512 0) WIdle RIdle [] [] [] [])"
    using pipe_reachable.start [of Map.empty] by (simp add: pipe_eval demo_pipe_def)
  from reach_write_call [OF this, of buf]
  have "pipe_reachable Map.empty (demo_pipe 0 0 (replicate 512 0) (WLoop buf 0) RIdle [] [] [] [])"
    by (simp add: demo_pipe_def)
  from reach_write [OF this]
  have "pipe_reachable Map.empty (demo_pipe 0 0 (replicate 512 0) (WLocked buf 0 0) RIdle [] [] [] [])"
    using assms by (simp add: demo_pipe_def pipe_eval)
  from reach_write [OF this]
  have "pipe_reachable Map.empty (demo_pipe 0 0 (ring_put (replicate 512 0) 0 buf 0 512)
      (WPublish buf 0 512 512) RIdle [] [] [] [])"
    using assms by (simp add: demo_pipe_def pipe_eval)
  from reach_write [OF this]
  have "pipe_reachable Map.empty (demo_pipe 0 512 (ring_put (replicate 512 0) 0 buf 0 512)
      (WLoop buf 512) RIdle (take 512 buf) [] [] [])"
    using assms by (simp add: demo_pipe_def pipe_eval)
  from reach_write [OF this]
  have "pipe_reachable Map.empty (demo_pipe 0 512 (ring_put (replicate 512 0) 0 buf 0 512)
      (WLocked buf 512 0) RIdle (take 512 buf) [] [] [])"
    using assms by (simp add: demo_pipe_def pipe_eval)
  from reach_write [OF this] show ?thesis
    using assms by (simp add: demo_pipe_def pipe_eval)
qed

text \<open>The run continued: the reader drains the ring, returns, and reads again.\<close>

lemma demo_deadlock:
  assumes "length buf = 513"
  shows "\<exists>dat bs. pipe_reachable Map.empty
    (demo_pipe 512 512 dat (WSleep buf 512) (RSleep 1 []) (take 512 buf) bs [1] [0])"
proof -
  define dat where "dat = ring_put (replicate 512 0) 0 buf 0 512"
  define bs where "bs = ring_get dat 0 512"
  have "length dat = PIPESIZE" unfolding dat_def
    using assms by (intro length_ring_put) (simp_all add: PIPESIZE_def)
  then have bs: "length bs = 512"
    unfolding bs_def by (subst ring_get_eq) (simp_all add: PIPESIZE_def)
  let ?d = "\<lambda>nr w r gt rq wq. demo_pipe nr 512 dat w r (take 512 buf) gt rq wq"
  let ?R = "pipe_reachable Map.empty" and ?W = "WWaitReader buf 512"
  have "?R (?d 0 ?W RIdle [] [] [])" unfolding dat_def by (rule demo_full [OF assms])
  from reach_read_call [OF this, of _ 512] have "?R (?d 0 ?W (RLoop 512 []) [] [] [])"
    by (simp add: demo_pipe_def)
  from reach_read [OF this] have "?R (?d 0 ?W (RLocked 512 [] 512) [] [] [])"
    by (simp add: demo_pipe_def pipe_eval)
  from reach_read [OF this] have "?R (?d 0 ?W (RPublish 512 [] bs 512) [] [] [])"
    by (simp add: demo_pipe_def pipe_eval bs_def)
  from reach_read [OF this] have "?R (?d 512 ?W (RLoop 512 bs) bs [] [])"
    by (simp add: demo_pipe_def pipe_eval)
  from reach_read [OF this] have "?R (?d 512 ?W (ROut 512 bs) bs [] [])"
    by (simp add: demo_pipe_def pipe_eval bs)
  from reach_read [OF this] have "?R (?d 512 ?W (RDone 512) bs [] [])"
    by (simp add: demo_pipe_def pipe_eval bs)
  from reach_read_call [OF this, of _ 1] have "?R (?d 512 ?W (RLoop 1 []) bs [] [])"
    by (simp add: demo_pipe_def)
  from reach_read [OF this] have "?R (?d 512 ?W (RLocked 1 [] 512) bs [] [])"
    by (simp add: demo_pipe_def pipe_eval)
  from reach_read [OF this] have "?R (?d 512 ?W (RWaitWriter 1 []) bs [] [])"
    by (simp add: demo_pipe_def pipe_eval)
  from reach_read [OF this] have "?R (?d 512 ?W (RSleep 1 []) bs [1] [])"
    by (simp add: demo_pipe_def pipe_eval)
  from reach_write [OF this] have "?R (?d 512 (WSleep buf 512) (RSleep 1 []) bs [1] [0])"
    by (simp add: demo_pipe_def pipe_eval)
  then show ?thesis by blast
qed

theorem pipe_fifo_witness:
  "let s = demo_pipe 0 512 (ring_put (replicate 512 0) 0 (replicate 513 7) 0 512)
             (WWaitReader (replicate 513 7) 512) RIdle (take 512 (replicate 513 7)) [] [] []
   in got s @ contents (pi s) = sent s \<and> filled (pi s) \<le> PIPESIZE"
  unfolding Let_def by (rule pipe_fifo [OF demo_full]) simp

text \<open>
  C25. The waits do not re-check the ring under the lock they sleep with: both threads can
  end up asleep for good, with both ends open, the ring empty and bytes left to write. The
  writer saw a full ring, and the reader drained it and fell asleep before the writer queued
  itself on \<open>nwrite_queue\<close>, so the wake-up meant for it was lost.
\<close>

theorem pipe_lost_wakeup:
  "\<exists>s buf i n. pipe_reachable Map.empty s \<and> PIPE_READABLE (pi s) \<and> PIPE_WRITABLE (pi s) \<and>
     wpc s = WSleep buf i \<and> i < length buf \<and> rpc s = RSleep n [] \<and> contents (pi s) = [] \<and>
     (\<forall>killed. pipewrite_kernel_step killed s = None \<and> pipewrite_step killed s = None \<and>
        piperead_kernel_step killed s = None \<and> piperead_step killed s = None)"
proof -
  obtain dat bs where r: "pipe_reachable Map.empty
      (demo_pipe 512 512 dat (WSleep (replicate 513 7) 512) (RSleep 1 [])
        (take 512 (replicate 513 7)) bs [1] [0])"
    using demo_deadlock [of "replicate 513 7"] by auto
  show ?thesis
    by (rule exI, rule exI [of _ "replicate 513 7"], rule exI [of _ 512], rule exI [of _ 1],
        intro conjI, rule r)
      (simp_all add: demo_pipe_def contents_def filled_def pipewrite_step_def piperead_step_def
        pipe_eval)
qed

text \<open>
  C37. When \<open>vm_copyin\<close> faults, \<open>pipewrite\<close> subtracts the length of the chunk that was never
  added to \<open>i\<close>: with no byte written it returns minus the chunk length, and after \<open>i\<close> bytes
  it reports fewer than were written.
\<close>

theorem pipewrite_fault_result:
  assumes "wpc s = UWLoop f" "ui f < un f" "ulen f = 0" "upos f = 0"
    and "vm_copyin (umem s) (uaddr f + of_nat (ui f)) (min (un f - ui f) BUFSZ) = None"
  shows "\<exists>s'. pipewrite_step killed s = Some s' \<and>
    map_option wpc (pipewrite_step killed s') = Some (WDone (int (ui f) - int (min (un f - ui f) BUFSZ)))"
  using assms by (simp add: pipewrite_step_def Let_def)

theorem pipewrite_fault_result_witness:
  "\<exists>s'. pipewrite_step False ((pipe_sys_init Map.empty)\<lparr>wpc := UWLoop (uframe_init 4096 5)\<rparr>) = Some s' \<and>
    map_option wpc (pipewrite_step False s') = Some (WDone (- 5))"
  using pipewrite_fault_result [of "(pipe_sys_init Map.empty)\<lparr>wpc := UWLoop (uframe_init 4096 5)\<rparr>"
      "uframe_init 4096 5" False]
  by (simp add: uframe_init_def pipe_sys_init_def BUFSZ_def vm_copyin_def upt_rec)



end
