(* ===== verification/Kstring.thy ===== *)
theory Kstring
  imports Bits
begin

text \<open>
  The memory and string routines of \<open>kernel/string.c\<close> on a byte-addressed memory: a partial
  map from 64-bit addresses to bytes, where an access outside the map is the value \<open>None\<close>.
  Plain \<open>char\<close> is unsigned on RISC-V. Loops that a missing terminator makes endless or that
  run off the memory are partial functions; sizes are naturals. The allocator behind
  \<open>strdup\<close> and \<open>strndup\<close> is an argument.
\<close>

subsection \<open>Memory operations\<close>

definition st :: "mem \<Rightarrow> addr \<Rightarrow> u8 \<Rightarrow> mem option" where
  "st m a v = (if m a = None then None else Some (m(a \<mapsto> v)))"

fun memset_from :: "mem \<Rightarrow> addr \<Rightarrow> u8 \<Rightarrow> nat \<Rightarrow> nat \<Rightarrow> mem option" where
  "memset_from m dst c i 0 = Some m"
| "memset_from m dst c i (Suc n) = do { m' \<leftarrow> st m (dst + of_nat i) c; memset_from m' dst c (i + 1) n }"

definition memset :: "mem \<Rightarrow> addr \<Rightarrow> u32 \<Rightarrow> nat \<Rightarrow> mem option" where
  "memset m dst c n = memset_from m dst (ucast c) 0 n"

fun memcmp :: "mem \<Rightarrow> addr \<Rightarrow> addr \<Rightarrow> nat \<Rightarrow> int option" where
  "memcmp m s1 s2 0 = Some 0"
| "memcmp m s1 s2 (Suc n) = do {
     a \<leftarrow> m s1; b \<leftarrow> m s2;
     if a \<noteq> b then Some (uint a - uint b) else memcmp m (s1 + 1) (s2 + 1) n }"

fun move_up :: "mem \<Rightarrow> addr \<Rightarrow> addr \<Rightarrow> nat \<Rightarrow> mem option" where
  "move_up m d s 0 = Some m"
| "move_up m d s (Suc n) = do { v \<leftarrow> m s; m' \<leftarrow> st m d v; move_up m' (d + 1) (s + 1) n }"

fun move_down :: "mem \<Rightarrow> addr \<Rightarrow> addr \<Rightarrow> nat \<Rightarrow> mem option" where
  "move_down m d s 0 = Some m"
| "move_down m d s (Suc n) =
     do { v \<leftarrow> m (s - 1); m' \<leftarrow> st m (d - 1) v; move_down m' (d - 1) (s - 1) n }"

definition memmove :: "mem \<Rightarrow> addr \<Rightarrow> addr \<Rightarrow> nat \<Rightarrow> mem option" where
  "memmove m dst src n =
     (if n = 0 then Some m
      else if src < dst \<and> src + of_nat n > dst
      then move_down m (dst + of_nat n) (src + of_nat n) n
      else move_up m dst src n)"

definition memcpy :: "mem \<Rightarrow> addr \<Rightarrow> addr \<Rightarrow> nat \<Rightarrow> mem option" where
  "memcpy m dst src n = memmove m dst src n"

subsection \<open>Comparison and length\<close>

partial_function (option) strcmp :: "mem \<Rightarrow> addr \<Rightarrow> addr \<Rightarrow> int option" where
  "strcmp m p q = do {
     a \<leftarrow> m p; b \<leftarrow> m q;
     if a \<noteq> 0 \<and> a = b then strcmp m (p + 1) (q + 1) else Some (uint a - uint b) }"

fun strncmp :: "mem \<Rightarrow> addr \<Rightarrow> addr \<Rightarrow> nat \<Rightarrow> int option" where
  "strncmp m p q 0 = Some 0"
| "strncmp m p q (Suc n) = do {
     a \<leftarrow> m p; b \<leftarrow> m q;
     if a \<noteq> 0 \<and> a = b then strncmp m (p + 1) (q + 1) n else Some (uint a - uint b) }"

partial_function (option) strlen_from :: "mem \<Rightarrow> addr \<Rightarrow> nat \<Rightarrow> nat option" where
  "strlen_from m s n = do { c \<leftarrow> m (s + of_nat n); if c \<noteq> 0 then strlen_from m s (n + 1) else Some n }"

definition strlen :: "mem \<Rightarrow> addr \<Rightarrow> nat option" where
  "strlen m s = strlen_from m s 0"

fun strnlen_from :: "mem \<Rightarrow> addr \<Rightarrow> nat \<Rightarrow> nat \<Rightarrow> nat option" where
  "strnlen_from m s n 0 = Some n"
| "strnlen_from m s n (Suc k) =
     do { c \<leftarrow> m (s + of_nat n); if c \<noteq> 0 then strnlen_from m s (n + 1) k else Some n }"

definition strnlen :: "mem \<Rightarrow> addr \<Rightarrow> nat \<Rightarrow> nat option" where
  "strnlen m s maxlen = strnlen_from m s 0 maxlen"

subsection \<open>Copies\<close>

text \<open>
  The first loop of \<open>strncpy\<close> leaves \<open>n\<close> undecremented when it copies the terminator.
\<close>

fun strncpy_copy :: "mem \<Rightarrow> addr \<Rightarrow> addr \<Rightarrow> nat \<Rightarrow> (mem \<times> addr \<times> nat) option" where
  "strncpy_copy m s t 0 = Some (m, s, 0)"
| "strncpy_copy m s t (Suc n) = do {
     c \<leftarrow> m t; m' \<leftarrow> st m s c;
     if c \<noteq> 0 then strncpy_copy m' (s + 1) (t + 1) n else Some (m', s + 1, Suc n) }"

fun zero_fill :: "mem \<Rightarrow> addr \<Rightarrow> nat \<Rightarrow> mem option" where
  "zero_fill m s 0 = Some m"
| "zero_fill m s (Suc n) = do { m' \<leftarrow> st m s 0; zero_fill m' (s + 1) n }"

definition strncpy :: "mem \<Rightarrow> addr \<Rightarrow> addr \<Rightarrow> nat \<Rightarrow> mem option" where
  "strncpy m s t n = do { (m', s', n') \<leftarrow> strncpy_copy m s t n; zero_fill m' s' n' }"

text \<open>\<open>while (--n > 0 && (*s++ = *t++) != 0);\<close> with the remaining count after the decrement.\<close>

fun safestrcpy_copy :: "mem \<Rightarrow> addr \<Rightarrow> addr \<Rightarrow> nat \<Rightarrow> (mem \<times> addr) option" where
  "safestrcpy_copy m s t 0 = Some (m, s)"
| "safestrcpy_copy m s t (Suc n) = do {
     c \<leftarrow> m t; m' \<leftarrow> st m s c;
     if c \<noteq> 0 then safestrcpy_copy m' (s + 1) (t + 1) n else Some (m', s + 1) }"

definition safestrcpy :: "mem \<Rightarrow> addr \<Rightarrow> addr \<Rightarrow> nat \<Rightarrow> mem option" where
  "safestrcpy m s t n =
     (if n = 0 then Some m
      else do { (m', s') \<leftarrow> safestrcpy_copy m s t (n - 1); st m' s' 0 })"

definition strcat :: "mem \<Rightarrow> addr \<Rightarrow> addr \<Rightarrow> mem option" where
  "strcat m dest src = do {
     n \<leftarrow> strlen m dest; k \<leftarrow> strlen m src;
     m' \<leftarrow> strncpy m (dest + of_nat n) src k;
     st m' (dest + of_nat (n + k)) 0 }"

definition strndup :: "(mem \<Rightarrow> nat \<Rightarrow> addr \<times> mem) \<Rightarrow> mem \<Rightarrow> addr \<Rightarrow> nat \<Rightarrow> (addr \<times> mem) option" where
  "strndup kmm_alloc m s n = do {
     len \<leftarrow> strnlen m s n;
     let (new_str, m1) = kmm_alloc m (len + 1);
     if new_str = NULL then Some (NULL, m1)
     else do {
       m2 \<leftarrow> strncpy m1 new_str s len;
       m3 \<leftarrow> st m2 (new_str + of_nat len) 0;
       Some (new_str, m3) } }"

definition strdup :: "(mem \<Rightarrow> nat \<Rightarrow> addr \<times> mem) \<Rightarrow> mem \<Rightarrow> addr \<Rightarrow> (addr \<times> mem) option" where
  "strdup kmm_alloc m s = do {
     len \<leftarrow> strlen m s;
     let (new_str, m1) = kmm_alloc m (len + 1);
     if new_str = NULL then Some (NULL, m1)
     else do {
       m2 \<leftarrow> strncpy m1 new_str s len;
       m3 \<leftarrow> st m2 (new_str + of_nat len) 0;
       Some (new_str, m3) } }"

subsection \<open>Tokens and substrings\<close>

partial_function (option) is_delim :: "mem \<Rightarrow> u8 \<Rightarrow> addr \<Rightarrow> bool option" where
  "is_delim m c d = do {
     b \<leftarrow> m d;
     if b = 0 then Some False else if c = b then Some True else is_delim m c (d + 1) }"

partial_function (option) skip_delims :: "mem \<Rightarrow> addr \<Rightarrow> addr \<Rightarrow> addr option" where
  "skip_delims m delim str = do {
     c \<leftarrow> m str;
     if c = 0 then Some str
     else do { b \<leftarrow> is_delim m c delim; if b then skip_delims m delim (str + 1) else Some str } }"

partial_function (option) token_end :: "mem \<Rightarrow> addr \<Rightarrow> addr \<Rightarrow> (addr \<times> bool) option" where
  "token_end m delim str = do {
     c \<leftarrow> m str;
     if c = 0 then Some (str, False)
     else do { b \<leftarrow> is_delim m c delim;
               if b then Some (str, True) else token_end m delim (str + 1) } }"

text \<open>The result is the memory, the token (or \<open>NULL\<close>) and the new \<open>*saveptr\<close>.\<close>

definition strtok_r :: "mem \<Rightarrow> addr \<Rightarrow> addr \<Rightarrow> addr \<Rightarrow> (mem \<times> addr \<times> addr) option" where
  "strtok_r m str delim saveptr = do {
     start \<leftarrow> skip_delims m delim (if str = 0 then saveptr else str);
     c \<leftarrow> m start;
     if c = 0 then Some (m, 0, start)
     else do {
       (e, at_delim) \<leftarrow> token_end m delim start;
       if at_delim then do { m' \<leftarrow> st m e 0; Some (m', start, e + 1) }
       else Some (m, start, e) } }"

partial_function (option) strstr_from :: "mem \<Rightarrow> addr \<Rightarrow> addr \<Rightarrow> nat \<Rightarrow> u64 \<Rightarrow> u64 \<Rightarrow> addr option" where
  "strstr_from m haystack needle needle_len bound i =
     (if i \<le> bound then do {
        r \<leftarrow> strncmp m (haystack + i) needle needle_len;
        if r = 0 then Some (haystack + i)
        else strstr_from m haystack needle needle_len bound (i + 1) }
      else Some 0)"

definition strstr :: "mem \<Rightarrow> addr \<Rightarrow> addr \<Rightarrow> addr option" where
  "strstr m haystack needle = do {
     needle_len \<leftarrow> strlen m needle;
     if needle_len = 0 then Some haystack
     else do {
       haystack_len \<leftarrow> strlen m haystack;
       strstr_from m haystack needle needle_len (of_nat haystack_len - of_nat needle_len) 0 } }"

subsection \<open>Spans of memory and strings\<close>

definition span :: "addr \<Rightarrow> nat \<Rightarrow> addr set" where
  "span a n = {a + of_nat i |i. i < n}"

lemma span_0 [simp]: "span a 0 = {}"
  by (simp add: span_def)

lemma span_Suc: "span a (Suc n) = insert a (span (a + 1) n)"
proof -
  have "{i. i < Suc n} = insert 0 (Suc ` {i. i < n})" by (auto simp: image_iff less_Suc_eq_0_disj)
  then have "(\<lambda>i. a + of_nat i) ` {i. i < Suc n} = insert a ((\<lambda>i. a + 1 + of_nat i) ` {i. i < n})"
    by (simp add: image_image add.assoc)
  then show ?thesis by (auto simp: span_def)
qed

lemma span_add: "span a (n + k) = span a n \<union> span (a + of_nat n) k"
  by (induction n arbitrary: a) (simp_all add: span_Suc add.assoc)

lemma span_mono: "n \<le> k \<Longrightarrow> span a n \<subseteq> span a k"
  using span_add [of a n "k - n"] by auto

lemma in_span: "i < n \<Longrightarrow> a + of_nat i \<in> span a n"
  by (auto simp: span_def)

lemma span_numerals: "span a 1 = {a}" "span a 2 = {a, a + 1}" "span a 3 = {a, a + 1, a + 2}"
  using span_Suc [of a 0] span_Suc [of a 1] span_Suc [of "a + 1" 0] span_Suc [of a 2]
    span_Suc [of "a + 1" 1] span_Suc [of "a + 2" 0]
  by (auto simp: add.assoc eval_nat_numeral)

text \<open>\<open>cstr m a x\<close>: the bytes \<open>x\<close>, none of them zero, and a terminator lie at \<open>a\<close>.\<close>

fun cstr :: "mem \<Rightarrow> addr \<Rightarrow> u8 list \<Rightarrow> bool" where
  "cstr m a [] \<longleftrightarrow> m a = Some 0"
| "cstr m a (c # x) \<longleftrightarrow> m a = Some c \<and> c \<noteq> 0 \<and> cstr m (a + 1) x"

lemma cstr_cong: "(\<And>b. b \<in> span a (Suc (length x)) \<Longrightarrow> m' b = m b) \<Longrightarrow> cstr m a x \<Longrightarrow> cstr m' a x"
proof (induction x arbitrary: a)
  case (Cons c x)
  have "m' b = m b" if "b \<in> span (a + 1) (Suc (length x))" for b
    using that Cons.prems(1) by (simp add: span_Suc [of a])
  then have "cstr m' (a + 1) x" using Cons.prems(2) by (intro Cons.IH) auto
  then show ?case using Cons.prems by (simp add: span_Suc)
qed (simp add: span_Suc)

lemma cstr_append:
  "cstr m a (x @ y) \<longleftrightarrow> (\<forall>i<length x. m (a + of_nat i) = Some (x ! i) \<and> x ! i \<noteq> 0) \<and> cstr m (a + of_nat (length x)) y"
proof (induction x arbitrary: a)
  case (Cons c x)
  have "(\<forall>i<Suc (length x). m (a + of_nat i) = Some ((c # x) ! i) \<and> (c # x) ! i \<noteq> 0) \<longleftrightarrow>
    m a = Some c \<and> c \<noteq> 0 \<and> (\<forall>i<length x. m (a + 1 + of_nat i) = Some (x ! i) \<and> x ! i \<noteq> 0)"
    by (auto simp: less_Suc_eq_0_disj add.assoc)
  then show ?case using Cons.IH [of "a + 1"] by (auto simp: add.assoc)
qed simp

lemma st_Some: "st m a v = Some m' \<longleftrightarrow> m a \<noteq> None \<and> m' = m(a \<mapsto> v)"
  by (auto simp: st_def)

lemma st_ok: "a \<in> dom m \<Longrightarrow> st m a v = Some (m(a \<mapsto> v))"
  by (auto simp: st_def)

subsection \<open>memset and memmove\<close>

definition no_wrap :: "addr \<Rightarrow> nat \<Rightarrow> bool" where
  "no_wrap a n \<longleftrightarrow> unat a + n < 2 ^ 64"

lemma in_span_iff: "no_wrap a n \<Longrightarrow> b \<in> span a n \<longleftrightarrow> unat a \<le> unat b \<and> unat b < unat a + n"
proof
  assume w: "no_wrap a n" and "b \<in> span a n"
  then obtain i where i: "i < n" "b = a + of_nat i" by (auto simp: span_def)
  then have "unat b = unat a + i" using w by (simp add: no_wrap_def unat_add_of_nat64)
  then show "unat a \<le> unat b \<and> unat b < unat a + n" using i by simp
next
  assume w: "no_wrap a n" and b: "unat a \<le> unat b \<and> unat b < unat a + n"
  then have "unat (a + of_nat (unat b - unat a)) = unat b"
    by (subst unat_add_of_nat64) (auto simp: no_wrap_def)
  then have "b = a + of_nat (unat b - unat a)" by (simp add: word_unat_eq_iff)
  then show "b \<in> span a n" using b by (auto simp: span_def intro!: exI [of _ "unat b - unat a"])
qed

text \<open>The memory after copying \<open>n\<close> bytes from \<open>src\<close> to \<open>dst\<close>, all read before any is written.\<close>

definition copied :: "mem \<Rightarrow> addr \<Rightarrow> addr \<Rightarrow> nat \<Rightarrow> mem" where
  "copied m dst src n = (\<lambda>a. if a \<in> span dst n then m (src + (a - dst)) else m a)"

lemma move_up_ok:
  "span d n \<subseteq> dom m \<Longrightarrow> span s n \<subseteq> dom m \<Longrightarrow> no_wrap d n \<Longrightarrow> no_wrap s n \<Longrightarrow>
   unat d \<le> unat s \<or> unat s + n \<le> unat d \<Longrightarrow> move_up m d s n = Some (copied m d s n)"
proof (induction n arbitrary: m d s)
  case 0
  then show ?case by (simp add: copied_def)
next
  case (Suc n)
  obtain v where v: "m s = Some v" using Suc.prems(2) by (auto simp: span_Suc)
  let ?m = "m(d \<mapsto> v)"
  have u: "unat (d + 1) = unat d + 1" "unat (s + 1) = unat s + 1"
    using Suc.prems(3,4) unat_add_of_nat64 [of d 1] unat_add_of_nat64 [of s 1] by (auto simp: no_wrap_def)
  have w: "no_wrap (d + 1) n" "no_wrap (s + 1) n" using Suc.prems(3,4) u by (auto simp: no_wrap_def)
  have dd: "d \<in> dom m" using Suc.prems(1) by (auto simp: span_Suc)
  have "move_up ?m (d + 1) (s + 1) n = Some (copied ?m (d + 1) (s + 1) n)"
    using Suc.prems u w dd by (intro Suc.IH) (auto simp: span_Suc)
  moreover have "copied ?m (d + 1) (s + 1) n = copied m d s (Suc n)"
  proof
    fix a
    have nin: "d \<notin> span (d + 1) n" using u w by (simp add: in_span_iff)
    show "copied ?m (d + 1) (s + 1) n a = copied m d s (Suc n) a"
    proof (cases "a \<in> span (d + 1) n")
      case True
      then obtain i where i: "i < n" "a = d + 1 + of_nat i" by (auto simp: span_def)
      have e: "s + 1 + of_nat i = s + of_nat (Suc i)" by simp
      have "unat (s + of_nat (Suc i)) = unat s + Suc i"
        using Suc.prems(4) i by (intro unat_add_of_nat64) (simp add: no_wrap_def)
      then have "s + 1 + of_nat i \<noteq> d" using Suc.prems(5) i unfolding e by auto
      then show ?thesis using True i by (simp add: copied_def span_Suc add.assoc)
    next
      case False
      then show ?thesis using nin v by (simp add: copied_def span_Suc)
    qed
  qed
  ultimately show ?case using v dd by (simp add: st_ok)
qed

lemma move_down_ok:
  "span d n \<subseteq> dom m \<Longrightarrow> span s n \<subseteq> dom m \<Longrightarrow> no_wrap d n \<Longrightarrow> no_wrap s n \<Longrightarrow> unat s \<le> unat d \<Longrightarrow>
   move_down m (d + of_nat n) (s + of_nat n) n = Some (copied m d s n)"
proof (induction n arbitrary: m)
  case 0
  then show ?case by (simp add: copied_def)
next
  case (Suc n)
  have sp: "span a (Suc n) = insert (a + of_nat n) (span a n)" for a
    using span_add [of a n 1] by (auto simp: span_Suc)
  obtain v where v: "m (s + of_nat n) = Some v" using Suc.prems(2) by (auto simp: sp)
  let ?m = "m(d + of_nat n \<mapsto> v)"
  have dd: "d + of_nat n \<in> dom m" using Suc.prems(1) by (auto simp: sp)
  have u: "unat (d + of_nat n) = unat d + n" "unat (s + of_nat n) = unat s + n"
    using Suc.prems(3,4) by (auto simp: no_wrap_def intro!: unat_add_of_nat64)
  have w: "no_wrap d n" "no_wrap s n" using Suc.prems(3,4) by (auto simp: no_wrap_def)
  have "move_down ?m (d + of_nat n) (s + of_nat n) n = Some (copied ?m d s n)"
    using Suc.prems w dd by (intro Suc.IH) (auto simp: sp)
  moreover have "copied ?m d s n = copied m d s (Suc n)"
  proof
    fix a
    have nin: "d + of_nat n \<notin> span d n" using u w by (simp add: in_span_iff)
    show "copied ?m d s n a = copied m d s (Suc n) a"
    proof (cases "a \<in> span d n")
      case True
      then obtain i where i: "i < n" "a = d + of_nat i" by (auto simp: span_def)
      have "unat (s + of_nat i) = unat s + i" using w(2) i by (intro unat_add_of_nat64) (simp add: no_wrap_def)
      then have "s + of_nat i \<noteq> d + of_nat n" using u Suc.prems(5) i by (metis add_le_less_mono less_irrefl)
      then show ?thesis using True i by (simp add: copied_def sp)
    next
      case False
      then show ?thesis using nin v by (simp add: copied_def sp)
    qed
  qed
  ultimately show ?case using v dd by (simp add: st_ok)
qed

lemma memmove_ok:
  assumes "span dst n \<subseteq> dom m" "span src n \<subseteq> dom m" "no_wrap dst n" "no_wrap src n"
  shows "memmove m dst src n = Some (copied m dst src n)"
proof -
  have "unat (src + of_nat n) = unat src + n" using assms(4) by (auto simp: no_wrap_def intro!: unat_add_of_nat64)
  then have "src + of_nat n > dst \<longleftrightarrow> unat dst < unat src + n" "src < dst \<longleftrightarrow> unat src < unat dst"
    by (simp_all add: word_less_nat_alt)
  then show ?thesis
    using move_up_ok [OF assms] move_down_ok [OF assms] by (auto simp: memmove_def copied_def not_less)
qed

lemma memset_from_ok:
  "span (dst + of_nat i) n \<subseteq> dom m \<Longrightarrow>
   memset_from m dst c i n = Some (\<lambda>a. if a \<in> span (dst + of_nat i) n then Some c else m a)"
proof (induction n arbitrary: m i)
  case (Suc n)
  have "memset_from (m(dst + of_nat i \<mapsto> c)) dst c (i + 1) n =
    Some (\<lambda>a. if a \<in> span (dst + of_nat (i + 1)) n then Some c else (m(dst + of_nat i \<mapsto> c)) a)"
    using Suc.prems by (intro Suc.IH) (auto simp: span_Suc ac_simps)
  then show ?case using Suc.prems by (auto simp: span_Suc st_ok ac_simps fun_eq_iff)
qed simp

subsection \<open>Length and comparison\<close>

lemma strlen_from_ok: "cstr m (s + of_nat n) x \<Longrightarrow> strlen_from m s n = Some (n + length x)"
proof (induction x arbitrary: n)
  case Nil
  then show ?case by (subst strlen_from.simps) simp
next
  case (Cons c x)
  then have "strlen_from m s (n + 1) = Some (n + 1 + length x)" by (intro Cons.IH) (simp add: ac_simps)
  then show ?case using Cons.prems by (subst strlen_from.simps) simp
qed

lemma strlen_ok: "cstr m s x \<Longrightarrow> strlen m s = Some (length x)"
  using strlen_from_ok [of m s 0 x] by (simp add: strlen_def)

lemma strnlen_from_ok: "cstr m (s + of_nat n) x \<Longrightarrow> strnlen_from m s n k = Some (n + min k (length x))"
proof (induction k arbitrary: n x)
  case (Suc k)
  show ?case
  proof (cases x)
    case (Cons c y)
    then have "strnlen_from m s (n + 1) k = Some (n + 1 + min k (length y))"
      using Suc.prems by (intro Suc.IH) (simp add: ac_simps)
    then show ?thesis using Suc.prems Cons by simp
  qed (use Suc.prems in simp)
qed simp

text \<open>The difference at the first position where two terminated strings differ.\<close>

fun cdiff :: "u8 list \<Rightarrow> u8 list \<Rightarrow> int" where
  "cdiff [] [] = 0"
| "cdiff [] (d # y) = - uint d"
| "cdiff (c # x) [] = uint c"
| "cdiff (c # x) (d # y) = (if c = d then cdiff x y else uint c - uint d)"

lemma strcmp_ok: "cstr m p x \<Longrightarrow> cstr m q y \<Longrightarrow> strcmp m p q = Some (cdiff x y)"
proof (induction x y arbitrary: p q rule: cdiff.induct)
  case (4 c x d y)
  then show ?case by (subst strcmp.simps) auto
qed (subst strcmp.simps, auto)+

lemma strncmp_ok: "cstr m p x \<Longrightarrow> cstr m q y \<Longrightarrow> strncmp m p q n = Some (cdiff (take n x) (take n y))"
proof (induction n arbitrary: p q x y)
  case (Suc n)
  then show ?case by (cases x; cases y) auto
qed simp

lemma cdiff_sign:
  "0 \<notin> set x \<Longrightarrow> 0 \<notin> set y \<Longrightarrow>
   (cdiff x y = 0 \<longleftrightarrow> x = y) \<and> (cdiff x y < 0 \<longleftrightarrow> (x, y) \<in> lexord {(a, b). a < b})"
proof (induction x y rule: cdiff.induct)
  case (2 d y)
  then have "uint d > 0" using uint_0_iff [of d] uint_ge_0 [of d] by (auto simp: less_le)
  then show ?case by simp
next
  case (3 c x)
  then have "uint c > 0" using uint_0_iff [of c] uint_ge_0 [of c] by (auto simp: less_le)
  then show ?case by simp
next
  case (4 c x d y)
  then show ?case by (auto simp: word_less_def word_uint_eq_iff)
qed simp

lemma cstr_nonzero: "cstr m a x \<Longrightarrow> 0 \<notin> set x"
  by (induction x arbitrary: a) auto

subsection \<open>String copies\<close>

lemma st_dom: "st m a v = Some m' \<Longrightarrow> dom m' = dom m"
  by (auto simp: st_Some)

lemma zero_fill_Some: "zero_fill m s n = Some m' \<Longrightarrow> dom m' = dom m \<and> span s n \<subseteq> dom m"
proof (induction n arbitrary: m s)
  case (Suc n)
  then obtain m1 where m1: "st m s 0 = Some m1" "zero_fill m1 (s + 1) n = Some m'"
    by (auto simp: bind_eq_Some_conv)
  have "dom m1 = dom m" "s \<in> dom m" using st_dom m1(1) by (auto simp: st_Some)
  then show ?case using Suc.IH [OF m1(2)] by (simp add: span_Suc)
qed simp

lemma zero_fill_ok:
  "span s n \<subseteq> dom m \<Longrightarrow> zero_fill m s n = Some (\<lambda>a. if a \<in> span s n then Some 0 else m a)"
proof (induction n arbitrary: m s)
  case (Suc n)
  have "zero_fill (m(s \<mapsto> 0)) (s + 1) n = Some (\<lambda>a. if a \<in> span (s + 1) n then Some 0 else (m(s \<mapsto> 0)) a)"
    using Suc.prems by (intro Suc.IH) (auto simp: span_Suc)
  then show ?case using Suc.prems by (auto simp: span_Suc st_ok fun_eq_iff)
qed simp

text \<open>Writing a list of bytes.\<close>

fun wr :: "mem \<Rightarrow> addr \<Rightarrow> u8 list \<Rightarrow> mem" where
  "wr m a [] = m"
| "wr m a (c # x) = wr (m(a \<mapsto> c)) (a + 1) x"

lemma wr_outside: "b \<notin> span a (length x) \<Longrightarrow> wr m a x b = m b"
  by (induction x arbitrary: m a) (auto simp: span_Suc)

lemma dom_wr: "span a (length x) \<subseteq> dom m \<Longrightarrow> dom (wr m a x) = dom m"
proof (induction x arbitrary: m a)
  case (Cons c x)
  then have "dom (m(a \<mapsto> c)) = dom m" by (auto simp: span_Suc)
  moreover have "dom (wr (m(a \<mapsto> c)) (a + 1) x) = dom (m(a \<mapsto> c))"
    using Cons.prems by (intro Cons.IH) (auto simp: span_Suc)
  ultimately show ?case by simp
qed simp

lemma wr_append: "wr m a (x @ y) = wr (wr m a x) (a + of_nat (length x)) y"
  by (induction x arbitrary: m a) (simp_all add: add.assoc)

lemma no_wrap_Suc: "no_wrap a (Suc n) \<Longrightarrow> no_wrap (a + 1) n \<and> a \<notin> span (a + 1) n"
proof -
  assume w: "no_wrap a (Suc n)"
  then have "unat (a + 1) = unat a + 1" using unat_add_of_nat64 [of a 1] by (simp add: no_wrap_def)
  then have "no_wrap (a + 1) n" "unat a < unat (a + 1)" using w by (simp_all add: no_wrap_def)
  then show ?thesis by (simp add: in_span_iff)
qed

lemma cstr_wr: "no_wrap a (Suc (length x)) \<Longrightarrow> 0 \<notin> set x \<Longrightarrow> cstr (wr m a (x @ [0])) a x"
proof (induction x arbitrary: m a)
  case (Cons c x)
  then have "cstr (wr (m(a \<mapsto> c)) (a + 1) (x @ [0])) (a + 1) x"
    using no_wrap_Suc [of a "Suc (length x)"] by (intro Cons.IH) auto
  moreover have "wr (m(a \<mapsto> c)) (a + 1) (x @ [0]) a = Some c"
    using no_wrap_Suc [of a "Suc (length x)"] Cons.prems by (subst wr_outside) auto
  ultimately show ?case using Cons.prems by auto
qed simp

text \<open>One step of a copy keeps the rest of the source.\<close>

lemma cstr_step:
  assumes "cstr m t (c # x)" "s \<notin> span t (Suc (Suc (length x)))"
  shows "cstr (m(s \<mapsto> v)) (t + 1) x"
proof -
  have "cstr m (t + 1) x" using assms(1) by simp
  then show ?thesis
    by (rule cstr_cong [rotated]) (use assms(2) span_Suc [of t "Suc (length x)"] in auto)
qed

lemma strncpy_copy_ok:
  "cstr m t x \<Longrightarrow> span s (min n (Suc (length x))) \<subseteq> dom m \<Longrightarrow>
   span s (min n (Suc (length x))) \<inter> span t (Suc (length x)) = {} \<Longrightarrow>
   strncpy_copy m s t n =
     (if length x < n then Some (wr m s (x @ [0]), s + of_nat (Suc (length x)), n - length x)
      else Some (wr m s (take n x), s + of_nat n, 0))"
proof (induction n arbitrary: m s t x)
  case (Suc n)
  show ?case
  proof (cases x)
    case Nil
    then show ?thesis using Suc.prems by (auto simp: span_Suc st_ok)
  next
    case (Cons c y)
    have sp: "span s (min (Suc n) (Suc (length x))) = insert s (span (s + 1) (min n (Suc (length y))))"
      "span t (Suc (length x)) = insert t (span (t + 1) (Suc (length y)))"
      using Cons by (simp_all add: span_Suc)
    have "cstr (m(s \<mapsto> c)) (t + 1) y"
      using Suc.prems Cons sp by (intro cstr_step) auto
    moreover have "span (s + 1) (min n (Suc (length y))) \<subseteq> dom (m(s \<mapsto> c))"
      "span (s + 1) (min n (Suc (length y))) \<inter> span (t + 1) (Suc (length y)) = {}"
      using Suc.prems(2,3) sp by auto
    ultimately have "strncpy_copy (m(s \<mapsto> c)) (s + 1) (t + 1) n =
     (if length y < n then Some (wr (m(s \<mapsto> c)) (s + 1) (y @ [0]), s + 1 + of_nat (Suc (length y)), n - length y)
      else Some (wr (m(s \<mapsto> c)) (s + 1) (take n y), s + 1 + of_nat n, 0))"
      by (rule Suc.IH)
    then show ?thesis using Suc.prems Cons sp by (auto simp: st_ok ac_simps)
  qed
qed simp

lemma safestrcpy_copy_ok:
  "cstr m t x \<Longrightarrow> span s (min n (Suc (length x))) \<subseteq> dom m \<Longrightarrow>
   span s (min n (Suc (length x))) \<inter> span t (Suc (length x)) = {} \<Longrightarrow>
   safestrcpy_copy m s t n =
     (if length x < n then Some (wr m s (x @ [0]), s + of_nat (Suc (length x)))
      else Some (wr m s (take n x), s + of_nat n))"
proof (induction n arbitrary: m s t x)
  case (Suc n)
  show ?case
  proof (cases x)
    case Nil
    then show ?thesis using Suc.prems by (auto simp: span_Suc st_ok)
  next
    case (Cons c y)
    have sp: "span s (min (Suc n) (Suc (length x))) = insert s (span (s + 1) (min n (Suc (length y))))"
      "span t (Suc (length x)) = insert t (span (t + 1) (Suc (length y)))"
      using Cons by (simp_all add: span_Suc)
    have "cstr (m(s \<mapsto> c)) (t + 1) y"
      using Suc.prems Cons sp by (intro cstr_step) auto
    moreover have "span (s + 1) (min n (Suc (length y))) \<subseteq> dom (m(s \<mapsto> c))"
      "span (s + 1) (min n (Suc (length y))) \<inter> span (t + 1) (Suc (length y)) = {}"
      using Suc.prems(2,3) sp by auto
    ultimately have "safestrcpy_copy (m(s \<mapsto> c)) (s + 1) (t + 1) n =
     (if length y < n then Some (wr (m(s \<mapsto> c)) (s + 1) (y @ [0]), s + 1 + of_nat (Suc (length y)))
      else Some (wr (m(s \<mapsto> c)) (s + 1) (take n y), s + 1 + of_nat n))"
      by (rule Suc.IH)
    then show ?thesis using Suc.prems Cons sp by (auto simp: st_ok ac_simps)
  qed
qed simp

lemma strncpy_dom:
  "strncpy_copy m s t n = Some (m', s', n') \<Longrightarrow> dom m' = dom m"
proof (induction n arbitrary: m s t)
  case (Suc n)
  then obtain c m1 where c: "m t = Some c" "st m s c = Some m1"
    "(if c \<noteq> 0 then strncpy_copy m1 (s + 1) (t + 1) n else Some (m1, s + 1, Suc n)) = Some (m', s', n')"
    by (auto simp: bind_eq_Some_conv)
  then show ?case using Suc.IH [of m1 "s + 1" "t + 1"] st_dom [OF c(2)] by (auto split: if_splits)
qed simp

subsection \<open>Tokens and substrings\<close>

lemma is_delim_ok: "cstr m d ds \<Longrightarrow> is_delim m c d = Some (c \<in> set ds)"
proof (induction ds arbitrary: d)
  case Nil
  then show ?case by (subst is_delim.simps) simp
next
  case (Cons b ds)
  then show ?case by (subst is_delim.simps) auto
qed

lemma skip_delims_ok:
  assumes "cstr m delim ds"
  shows "cstr m p x \<Longrightarrow> skip_delims m delim p = Some (p + of_nat (length (takeWhile (\<lambda>c. c \<in> set ds) x)))"
proof (induction x arbitrary: p)
  case Nil
  then show ?case by (subst skip_delims.simps) simp
next
  case (Cons c x)
  then show ?case using is_delim_ok [OF assms] by (subst skip_delims.simps) (auto simp: add.assoc)
qed

lemma token_end_ok:
  assumes "cstr m delim ds"
  shows "cstr m p x \<Longrightarrow> token_end m delim p =
    Some (p + of_nat (length (takeWhile (\<lambda>c. c \<notin> set ds) x)), dropWhile (\<lambda>c. c \<notin> set ds) x \<noteq> [])"
proof (induction x arbitrary: p)
  case Nil
  then show ?case by (subst token_end.simps) simp
next
  case (Cons c x)
  then show ?case using is_delim_ok [OF assms] by (subst token_end.simps) (auto simp: add.assoc)
qed

text \<open>Storing a terminator inside a string splits it in two.\<close>

lemma cstr_split:
  assumes "cstr m p (x @ c # y)" "no_wrap p (Suc (length (x @ c # y)))"
  shows "cstr (m(p + of_nat (length x) \<mapsto> 0)) p x \<and>
    cstr (m(p + of_nat (length x) \<mapsto> 0)) (p + of_nat (length x) + 1) y"
  using assms
proof (induction x arbitrary: p)
  case Nil
  have "p \<notin> span (p + 1) (Suc (length y))" using Nil.prems(2) no_wrap_Suc [of p "Suc (length y)"] by simp
  then have "(m(p \<mapsto> 0)) b = m b" if "b \<in> span (p + 1) (Suc (length y))" for b using that by auto
  then have "cstr (m(p \<mapsto> 0)) (p + 1) y"
    using Nil.prems(1) cstr_cong [of "p + 1" y "m(p \<mapsto> 0)" m] by simp
  then show ?case by (simp add: fun_upd_def)
next
  case (Cons d x)
  define e where "e = p + 1 + of_nat (length x)"
  have w: "no_wrap (p + 1) (Suc (length (x @ c # y)))" 
    using Cons.prems(2) no_wrap_Suc [of p "Suc (length (x @ c # y))"] by simp
  have e: "p + of_nat (length (d # x)) = e" by (simp add: e_def)
  have "e \<in> span (p + 1) (Suc (length (x @ c # y)))" unfolding e_def by (rule in_span) simp
  then have "p \<noteq> e" using Cons.prems(2) no_wrap_Suc [of p "Suc (length (x @ c # y))"] by auto
  moreover have "cstr (m(e \<mapsto> 0)) (p + 1) x \<and> cstr (m(e \<mapsto> 0)) (e + 1) y"
    unfolding e_def using Cons.prems(1) by (intro Cons.IH [OF _ w]) simp
  ultimately show ?case unfolding e using Cons.prems(1) by (simp add: fun_upd_def)
qed

lemma cstr_drop: "cstr m p (x @ y) \<Longrightarrow> cstr m (p + of_nat (length x)) y"
  by (simp add: cstr_append)

lemma no_wrap_add: "no_wrap p (n + k) \<Longrightarrow> no_wrap (p + of_nat n) k"
  by (simp add: no_wrap_def unat_add_of_nat64)

lemma cstr_head: "cstr m p x \<Longrightarrow> m p = Some (if x = [] then 0 else hd x)"
  by (cases x) auto

lemma strtok_r_ok:
  assumes x: "cstr m p x" and ds: "cstr m delim ds" and w: "no_wrap p (Suc (length x))"
    and p: "p = (if str = 0 then saveptr else str)"
    and r: "r = dropWhile (\<lambda>c. c \<in> set ds) x" "r \<noteq> []"
  shows "\<exists>m' save'. strtok_r m str delim saveptr = Some (m', p + of_nat (length x - length r), save') \<and>
    cstr m' (p + of_nat (length x - length r)) (takeWhile (\<lambda>c. c \<notin> set ds) r) \<and>
    cstr m' save' (tl (dropWhile (\<lambda>c. c \<notin> set ds) r)) \<and>
    (\<forall>a. a \<notin> span p (length x) \<longrightarrow> m' a = m a)"
proof -
  let ?D = "\<lambda>c. c \<in> set ds" and ?N = "\<lambda>c. c \<notin> set ds"
  let ?k = "length (takeWhile ?D x)"
  define t u where tu_def: "t = takeWhile ?N r" "u = dropWhile ?N r"
  have xr: "x = takeWhile ?D x @ r" by (simp add: r(1))
  then have k: "length x - length r = ?k" and lx: "length x = ?k + length r"
    by (metis length_append diff_add_inverse2)+
  let ?q = "p + of_nat ?k"
  have q: "cstr m ?q r" using cstr_drop [of m p "takeWhile ?D x" r] x xr by simp
  have wq: "no_wrap ?q (Suc (length r))" using w lx no_wrap_add [of p ?k "Suc (length r)"] by simp
  have "m ?q = Some (hd r)" using q r(2) by (simp add: cstr_head)
  moreover have "hd r \<noteq> 0" using cstr_nonzero [OF q] hd_in_set [OF r(2)] by metis
  ultimately have hd: "m ?q = Some (hd r)" "hd r \<noteq> 0" by auto
  have tu: "r = t @ u" by (simp add: tu_def)
  have step: "strtok_r m str delim saveptr =
      (if u \<noteq> [] then do { m' \<leftarrow> st m (?q + of_nat (length t)) 0; Some (m', ?q, ?q + of_nat (length t) + 1) }
       else Some (m, ?q, ?q + of_nat (length t)))"
    unfolding strtok_r_def p [symmetric]
    using skip_delims_ok [OF ds x] token_end_ok [OF ds q, folded tu_def] hd by simp
  show ?thesis unfolding k tu_def [symmetric]
  proof (cases u)
    case Nil
    then have "r = t" using tu by simp
    then show "\<exists>m' save'. strtok_r m str delim saveptr = Some (m', ?q, save') \<and> cstr m' ?q t \<and>
        cstr m' save' (tl u) \<and> (\<forall>a. a \<notin> span p (length x) \<longrightarrow> m' a = m a)"
      using step Nil q cstr_drop [of m ?q r "[]"] by simp
  next
    case (Cons c v)
    let ?e = "?q + of_nat (length t)"
    have rr: "r = t @ c # v" using tu Cons by simp
    have sp: "cstr (m(?e \<mapsto> 0)) ?q t \<and> cstr (m(?e \<mapsto> 0)) (?e + 1) v"
      using q wq unfolding rr by (rule cstr_split)
    have "?e = p + of_nat (?k + length t)" by (simp add: add.assoc)
    then have "?e \<in> span p (length x)" using rr lx in_span [of "?k + length t" "length x" p] by (simp add: add.assoc)
    moreover have "m ?e \<noteq> None" using cstr_drop [of m ?q t "c # v"] q rr by simp
    ultimately show "\<exists>m' save'. strtok_r m str delim saveptr = Some (m', ?q, save') \<and> cstr m' ?q t \<and>
        cstr m' save' (tl u) \<and> (\<forall>a. a \<notin> span p (length x) \<longrightarrow> m' a = m a)"
      using step Cons sp by (auto simp: st_def)
  qed
qed

definition occurs_at :: "u8 list \<Rightarrow> u8 list \<Rightarrow> nat \<Rightarrow> bool" where
  "occurs_at y x i \<longleftrightarrow> take (length y) (drop i x) = y"

lemma strncmp_occurs:
  assumes "cstr m h hs" "cstr m nd ns" "i \<le> length hs"
  shows "\<exists>r. strncmp m (h + of_nat i) nd (length ns) = Some r \<and> (r = 0 \<longleftrightarrow> occurs_at ns hs i)"
proof -
  have "cstr m (h + of_nat i) (drop i hs)"
    using cstr_drop [of m h "take i hs" "drop i hs"] assms(1,3) by simp
  then have "strncmp m (h + of_nat i) nd (length ns) = Some (cdiff (take (length ns) (drop i hs)) ns)"
    using strncmp_ok [OF _ assms(2)] by simp
  moreover have "0 \<notin> set (take (length ns) (drop i hs))" "0 \<notin> set ns"
    using cstr_nonzero [OF assms(1)] cstr_nonzero [OF assms(2)] by (auto dest: in_set_takeD in_set_dropD)
  ultimately show ?thesis using cdiff_sign by (auto simp: occurs_at_def)
qed

lemma of_nat_le64: "a < 2 ^ 64 \<Longrightarrow> b < 2 ^ 64 \<Longrightarrow> (of_nat a :: u64) \<le> of_nat b \<longleftrightarrow> a \<le> b"
  by (simp add: word_le_nat_alt unat_of_nat)

lemma strstr_from_ok:
  assumes "cstr m h hs" "cstr m nd ns" "length ns \<le> length hs" "length hs < 2 ^ 63"
  shows "i \<le> Suc (length hs - length ns) \<Longrightarrow> (\<And>j. j < i \<Longrightarrow> \<not> occurs_at ns hs j) \<Longrightarrow>
    \<exists>r. first_set (occurs_at ns hs) (Suc (length hs - length ns)) r \<and>
      strstr_from m h nd (length ns) (of_nat (length hs - length ns)) (of_nat i) =
        Some (if r < 0 then 0 else h + of_nat (nat r))"
proof (induction "Suc (length hs - length ns) - i" arbitrary: i)
  case 0
  then have i: "i = Suc (length hs - length ns)" by simp
  have "\<not> (of_nat i :: u64) \<le> of_nat (length hs - length ns)"
    using assms(4) i of_nat_le64 [of i "length hs - length ns"] by simp
  moreover have "first_set (occurs_at ns hs) (Suc (length hs - length ns)) (-1)"
    using 0 i by (intro first_set_noneI) auto
  ultimately show ?case by (subst strstr_from.simps) (intro exI [of _ "-1"], simp)
next
  case (Suc k)
  then have i: "i \<le> length hs - length ns" by simp
  then have le: "(of_nat i :: u64) \<le> of_nat (length hs - length ns)"
    using assms(4) of_nat_le64 [of i "length hs - length ns"] by simp
  obtain r where r: "strncmp m (h + of_nat i) nd (length ns) = Some r" "r = 0 \<longleftrightarrow> occurs_at ns hs i"
    using strncmp_occurs [OF assms(1,2), of i] le_trans [OF i diff_le_self] by blast
  show ?case
  proof (cases "r = 0")
    case True
    then have "first_set (occurs_at ns hs) (Suc (length hs - length ns)) (int i)"
      using r i Suc.prems by (intro first_setI) auto
    then show ?thesis using True r le by (subst strstr_from.simps) (intro exI [of _ "int i"], simp)
  next
    case False
    have "\<exists>q. first_set (occurs_at ns hs) (Suc (length hs - length ns)) q \<and>
      strstr_from m h nd (length ns) (of_nat (length hs - length ns)) (of_nat (Suc i)) =
        Some (if q < 0 then 0 else h + of_nat (nat q))"
      using Suc.hyps(2) Suc.prems False r i by (intro Suc.hyps(1)) (auto simp: less_Suc_eq)
    then show ?thesis using False r le by (subst strstr_from.simps) (simp add: add.commute)
  qed
qed

text \<open>With a longer needle the loop bound wraps around to a huge value.\<close>

lemma overrun_bound:
  assumes "l < n" "n < 2 ^ 63" "i \<le> Suc l"
  shows "(of_nat i :: u64) \<le> of_nat l - of_nat n"
proof -
  have "n \<le> 2 ^ 64 + l" using assms(2) by simp
  then have "(of_nat l :: u64) - of_nat n = of_nat (2 ^ 64 + l - n)" by (simp add: of_nat_diff)
  moreover have "(of_nat i :: u64) \<le> of_nat (2 ^ 64 + l - n)"
    using assms by (subst of_nat_le64) auto
  ultimately show ?thesis by simp
qed

lemma strstr_from_overrun:
  assumes "cstr m h hs" "cstr m nd ns" "length hs < length ns" "length ns < 2 ^ 63"
    and "m (h + of_nat (Suc (length hs))) = None"
  shows "i \<le> Suc (length hs) \<Longrightarrow>
    strstr_from m h nd (length ns) (of_nat (length hs) - of_nat (length ns)) (of_nat i) = None"
proof (induction "Suc (length hs) - i" arbitrary: i)
  case 0
  then have "i = Suc (length hs)" by simp
  moreover obtain n where "length ns = Suc n" using assms(3) by (cases "length ns") auto
  ultimately have "strncmp m (h + of_nat i) nd (length ns) = None" using assms(5) by simp
  moreover have "(of_nat i :: u64) \<le> of_nat (length hs) - of_nat (length ns)"
    using 0 assms(3,4) by (intro overrun_bound) auto
  ultimately show ?case by (subst strstr_from.simps) simp
next
  case (Suc k)
  then have i: "i \<le> length hs" by simp
  obtain r where r: "strncmp m (h + of_nat i) nd (length ns) = Some r" "r = 0 \<longleftrightarrow> occurs_at ns hs i"
    using strncmp_occurs [OF assms(1,2) i] by auto
  have "length (take (length ns) (drop i hs)) \<noteq> length ns" using assms(3) by simp
  then have "r \<noteq> 0" using r(2) unfolding occurs_at_def by metis
  moreover have "strstr_from m h nd (length ns) (of_nat (length hs) - of_nat (length ns)) (of_nat (Suc i)) = None"
    using Suc.hyps(2) i by (intro Suc.hyps(1)) auto
  moreover have "(of_nat i :: u64) \<le> of_nat (length hs) - of_nat (length ns)"
    using i assms(3,4) by (intro overrun_bound) auto
  ultimately show ?case using r(1) by (subst strstr_from.simps) (simp add: add.commute)
qed

subsection \<open>Whole copies\<close>

lemma span_disjoint: "no_wrap s (a + b) \<Longrightarrow> span s a \<inter> span (s + of_nat a) b = {}"
proof -
  assume w: "no_wrap s (a + b)"
  have "no_wrap s a" "no_wrap (s + of_nat a) b" "unat (s + of_nat a) = unat s + a"
    using w no_wrap_add [OF w] by (auto simp: no_wrap_def intro: unat_add_of_nat64)
  then show ?thesis by (auto simp: in_span_iff)
qed

lemma safestrcpy_ok:
  assumes x: "cstr m t x" and n: "0 < n" and d: "span s n \<subseteq> dom m" and w: "no_wrap s n"
    and disj: "span s n \<inter> span t (Suc (length x)) = {}"
  shows "\<exists>m'. safestrcpy m s t n = Some m' \<and> cstr m' s (take (n - 1) x) \<and>
    (\<forall>a. a \<notin> span s n \<longrightarrow> m' a = m a)"
proof -
  have sub: "span s (min (n - 1) (Suc (length x))) \<subseteq> span s n" by (rule span_mono) simp
  have "span s (min (n - 1) (Suc (length x))) \<subseteq> dom m"
    "span s (min (n - 1) (Suc (length x))) \<inter> span t (Suc (length x)) = {}"
    using sub d disj by blast+
  note cp = safestrcpy_copy_ok [OF x this]
  obtain z where z: "safestrcpy_copy m s t (n - 1) = Some (wr m s z, s + of_nat (length z))"
    "length z < n" "cstr (wr m s (z @ [0])) s (take (n - 1) x)"
  proof (cases "length x < n - 1")
    case True
    then have "cstr (wr m s (x @ [0])) s x" using w cstr_nonzero [OF x] by (intro cstr_wr) (simp_all add: no_wrap_def)
    then have "cstr (wr m s ((x @ [0]) @ [0])) s x"
      unfolding wr_append [of m s "x @ [0]"]
    proof (rule cstr_cong [rotated])
      fix b assume "b \<in> span s (Suc (length x))"
      moreover have "span s (Suc (length x)) \<inter> span (s + of_nat (Suc (length x))) 1 = {}"
        using w True by (intro span_disjoint) (simp add: no_wrap_def)
      ultimately show "wr (wr m s (x @ [0])) (s + of_nat (length (x @ [0]))) [0] b = wr m s (x @ [0]) b"
        by (intro wr_outside) auto
    qed
    then show thesis using that [of "x @ [0]"] cp True by simp
  next
    case False
    then have "cstr (wr m s (take (n - 1) x @ [0])) s (take (n - 1) x)"
      using w n cstr_nonzero [OF x] in_set_takeD [of 0 "n - 1" x] by (intro cstr_wr) (auto simp: no_wrap_def)
    then show thesis using that [of "take (n - 1) x"] cp False n by simp
  qed
  have dz: "span s (length z) \<subseteq> dom m" using span_mono [of "length z" n s] z(2) d by auto
  have "s + of_nat (length z) \<in> dom (wr m s z)" using dom_wr [OF dz] in_span [OF z(2), of s] d by auto
  then have e: "safestrcpy m s t n = Some (wr m s (z @ [0]))"
    using n z(1) by (simp add: safestrcpy_def st_ok wr_append)
  have out: "wr m s (z @ [0]) a = m a" if "a \<notin> span s n" for a
    using that z(2) span_mono [of "length (z @ [0])" n s] by (intro wr_outside) auto
  then show ?thesis using e z(3) by blast
qed

lemma strncpy_short:
  assumes x: "cstr m t x" and n: "length x < n" and d: "span s n \<subseteq> dom m" and w: "no_wrap s (Suc n)"
    and disj: "span s (Suc n) \<inter> span t (Suc (length x)) = {}"
  shows "if s + of_nat n \<in> dom m
    then \<exists>m'. strncpy m s t n = Some m' \<and> cstr m' s x \<and> m' (s + of_nat n) = Some 0
    else strncpy m s t n = None"
proof -
  let ?l = "Suc (length x)" and ?m = "wr m s (x @ [0])"
  let ?s = "s + of_nat ?l"
  have dl: "span s ?l \<subseteq> dom m" using span_mono [of ?l n s] n d by auto
  have "min n ?l = ?l" using n by simp
  moreover have "span s ?l \<inter> span t ?l = {}" using span_mono [of ?l "Suc n" s] n disj by auto
  ultimately have cp: "strncpy m s t n = zero_fill ?m ?s (n - length x)"
    using strncpy_copy_ok [OF x, of s n] dl n by (simp add: strncpy_def)
  have sp: "span s (Suc n) = span s ?l \<union> span ?s (n - length x)"
    using span_add [of s ?l "n - length x"] n by simp
  have dm: "dom ?m = dom m" using dom_wr [of s "x @ [0]" m] dl by simp
  obtain k where k: "n = ?l + k" using n less_iff_Suc_add by auto
  have "s + of_nat n = ?s + of_nat k" "n - length x = Suc k" by (simp_all add: k ac_simps)
  then have lst: "s + of_nat n \<in> span ?s (n - length x)" 
    using in_span [of k "Suc k" ?s] by (simp only: lessI)
  show ?thesis
  proof (cases "s + of_nat n \<in> dom m")
    case False
    then have "strncpy m s t n \<noteq> Some m'" for m'
      using zero_fill_Some [of ?m ?s "n - length x" m'] lst dm cp by auto
    then have "strncpy m s t n = None" by (cases "strncpy m s t n") auto
    then show ?thesis using False by simp
  next
    case True
    have "span s (Suc n) = insert (s + of_nat n) (span s n)" using span_add [of s n 1] by (auto simp: span_Suc)
    then have "span s (Suc n) \<subseteq> dom m" using d True by simp
    then have "span ?s (n - length x) \<subseteq> dom ?m" using sp dm by blast
    from zero_fill_ok [OF this] cp
    have "strncpy m s t n = Some (\<lambda>a. if a \<in> span ?s (n - length x) then Some 0 else ?m a)" by simp
    moreover have dj: "span s ?l \<inter> span ?s (n - length x) = {}"
      using w n by (intro span_disjoint) (simp add: no_wrap_def)
    have "cstr ?m s x" using w n cstr_nonzero [OF x] by (intro cstr_wr) (simp_all add: no_wrap_def)
    then have "cstr (\<lambda>a. if a \<in> span ?s (n - length x) then Some 0 else ?m a) s x"
      by (rule cstr_cong [rotated]) (use dj in \<open>simp add: disjoint_iff\<close>)
    moreover have "(if s + of_nat n \<in> span ?s (n - length x) then Some 0 else ?m (s + of_nat n)) = Some 0"
      by (rule if_P [OF lst])
    ultimately show ?thesis unfolding if_P [OF True] by blast
  qed
qed

subsection \<open>Properties\<close>

text \<open>
  C31. \<open>memmove\<close> copies as if all bytes were read before any is written, whichever way source
  and destination overlap: the destination receives the old source bytes, everything else is
  unchanged, and no byte outside the two ranges is touched.
\<close>

theorem memmove_overlap:
  assumes "span dst n \<subseteq> dom m" "span src n \<subseteq> dom m" "no_wrap dst n" "no_wrap src n"
  shows "\<exists>m'. memmove m dst src n = Some m' \<and>
    (\<forall>i<n. m' (dst + of_nat i) = m (src + of_nat i)) \<and> (\<forall>a. a \<notin> span dst n \<longrightarrow> m' a = m a)"
  using memmove_ok [OF assms] by (auto simp: copied_def in_span)

theorem memmove_overlap_witness:
  "let m = [8 \<mapsto> 1, 9 \<mapsto> 2, 10 \<mapsto> 3, 11 \<mapsto> 4] in
   (\<exists>m'. memmove m 9 8 3 = Some m' \<and>
      (\<forall>i<3. m' (9 + of_nat i) = m (8 + of_nat i)) \<and> (\<forall>a. a \<notin> span 9 3 \<longrightarrow> m' a = m a))"
  unfolding Let_def by (rule memmove_overlap) (auto simp: span_numerals span_Suc no_wrap_def)

text \<open>
  C32. On terminated strings \<open>strlen\<close> returns the length, \<open>strnlen\<close> the length cut off at the
  bound, and \<open>strcmp\<close> is zero for equal strings and negative exactly when the first string
  comes first in the lexicographic order of unsigned bytes.
\<close>

theorem string_compare_length:
  assumes "cstr m p x" "cstr m q y"
  shows "strlen m p = Some (length x) \<and> strnlen m p k = Some (min k (length x)) \<and>
    (\<exists>r. strcmp m p q = Some r \<and> (r = 0 \<longleftrightarrow> x = y) \<and> (r < 0 \<longleftrightarrow> (x, y) \<in> lexord {(a, b). a < b}))"
  using strlen_ok [OF assms(1)] strcmp_ok [OF assms] strnlen_from_ok [of m p 0 x k]
    cdiff_sign [OF cstr_nonzero [OF assms(1)] cstr_nonzero [OF assms(2)]] assms(1)
  by (simp add: strnlen_def)

theorem string_compare_length_witness:
  "let m = [8 \<mapsto> 97, 9 \<mapsto> 98, 10 \<mapsto> 0, 16 \<mapsto> 97, 17 \<mapsto> 0] in
   strlen m 8 = Some 2 \<and> (\<exists>r. strcmp m 16 8 = Some r \<and> r < 0)"
  using string_compare_length [of "[8 \<mapsto> 97, 9 \<mapsto> 98, 10 \<mapsto> 0, 16 \<mapsto> 97, 17 \<mapsto> 0]" 8 "[97, 98]" 8 "[97, 98]"]
    string_compare_length [of "[8 \<mapsto> 97, 9 \<mapsto> 98, 10 \<mapsto> 0, 16 \<mapsto> 97, 17 \<mapsto> 0]" 16 "[97]" 8 "[97, 98]"]
  by auto

text \<open>
  C33. \<open>safestrcpy\<close> into a buffer of \<open>n > 0\<close> bytes stays inside the buffer and always leaves a
  terminated string there, the source cut off after \<open>n - 1\<close> bytes.
\<close>

theorem safestrcpy_terminates_string:
  assumes "cstr m t x" "0 < n" "span s n \<subseteq> dom m" "no_wrap s n" "span s n \<inter> span t (Suc (length x)) = {}"
  shows "\<exists>m'. safestrcpy m s t n = Some m' \<and> cstr m' s (take (n - 1) x) \<and>
    (\<forall>a. a \<notin> span s n \<longrightarrow> m' a = m a)"
  using safestrcpy_ok [OF assms] .

theorem safestrcpy_terminates_string_witness:
  "let m = [8 \<mapsto> 97, 9 \<mapsto> 98, 10 \<mapsto> 0, 16 \<mapsto> 1, 17 \<mapsto> 2] in
   (\<exists>m'. safestrcpy m 16 8 2 = Some m' \<and> cstr m' 16 (take (2 - 1) [97, 98]) \<and>
      (\<forall>a. a \<notin> span 16 2 \<longrightarrow> m' a = m a))"
  unfolding Let_def by (rule safestrcpy_terminates_string) (auto simp: span_numerals span_Suc no_wrap_def)

text \<open>
  C39. \<open>strncpy\<close> with a source shorter than \<open>n\<close> does not count the terminator it copies: it
  writes \<open>n + 1\<close> bytes. A destination of exactly \<open>n\<close> bytes is overrun: the byte after it is
  overwritten with zero, or the access fails when that byte does not exist.
\<close>

theorem strncpy_overruns:
  assumes "cstr m t x" "length x < n" "span s n \<subseteq> dom m" "no_wrap s (Suc n)"
    and "span s (Suc n) \<inter> span t (Suc (length x)) = {}"
  shows "if s + of_nat n \<in> dom m
    then \<exists>m'. strncpy m s t n = Some m' \<and> cstr m' s x \<and> m' (s + of_nat n) = Some 0
    else strncpy m s t n = None"
  using strncpy_short [OF assms] .

theorem strncpy_overruns_witness:
  "strncpy [8 \<mapsto> 97, 9 \<mapsto> 0, 16 \<mapsto> 1, 17 \<mapsto> 2] 16 8 2 = None"
  using strncpy_overruns [of "[8 \<mapsto> 97, 9 \<mapsto> 0, 16 \<mapsto> 1, 17 \<mapsto> 2]" 8 "[97]" 2 16]
  by (simp add: span_numerals span_Suc no_wrap_def)

text \<open>
  C34. \<open>strtok_r\<close> on a string that is not only delimiters returns the first maximal run of
  non-delimiters as a terminated string, and leaves \<open>*saveptr\<close> at a terminated string holding
  what follows the delimiter, ready for the next call; only the string itself is modified.
\<close>

theorem strtok_r_next_token:
  assumes "cstr m p x" "cstr m delim ds" "no_wrap p (Suc (length x))" "p = (if str = 0 then saveptr else str)"
    and "r = dropWhile (\<lambda>c. c \<in> set ds) x" "r \<noteq> []"
  shows "\<exists>m' save'. strtok_r m str delim saveptr = Some (m', p + of_nat (length x - length r), save') \<and>
    cstr m' (p + of_nat (length x - length r)) (takeWhile (\<lambda>c. c \<notin> set ds) r) \<and>
    cstr m' save' (tl (dropWhile (\<lambda>c. c \<notin> set ds) r)) \<and>
    (\<forall>a. a \<notin> span p (length x) \<longrightarrow> m' a = m a)"
  by (rule strtok_r_ok [OF assms])

theorem strtok_r_next_token_witness:
  "let m = [8 \<mapsto> 32, 9 \<mapsto> 97, 10 \<mapsto> 32, 11 \<mapsto> 98, 12 \<mapsto> 0, 16 \<mapsto> 32, 17 \<mapsto> 0] in
   (\<exists>m' save'. strtok_r m 8 16 0 = Some (m', 8 + of_nat (4 - 3), save') \<and>
      cstr m' (8 + of_nat (4 - 3)) [97] \<and> cstr m' save' [98])"
  using strtok_r_next_token [of "[8 \<mapsto> 32, 9 \<mapsto> 97, 10 \<mapsto> 32, 11 \<mapsto> 98, 12 \<mapsto> 0, 16 \<mapsto> 32, 17 \<mapsto> 0]"
      8 "[32, 97, 32, 98]" 16 "[32]" 8 0 "[97, 32, 98]"]
  by (auto simp: no_wrap_def)

text \<open>
  C35. \<open>strstr\<close> finds the first occurrence of a needle that is not longer than the haystack,
  or returns a null pointer. For a longer needle the unsigned loop bound wraps around and the
  search reads past the terminator of the haystack: the access fails when the haystack ends
  its mapped memory.
\<close>

theorem strstr_search:
  assumes "cstr m h hs" "cstr m nd ns" "ns \<noteq> []" "length hs < 2 ^ 63" "length ns < 2 ^ 63"
  shows "if length ns \<le> length hs
    then \<exists>r. first_set (occurs_at ns hs) (Suc (length hs - length ns)) r \<and>
      strstr m h nd = Some (if r < 0 then 0 else h + of_nat (nat r))
    else m (h + of_nat (Suc (length hs))) = None \<longrightarrow> strstr m h nd = None"
proof (cases "length ns \<le> length hs")
  case True
  then show ?thesis
    using strstr_from_ok [OF assms(1,2) True assms(4), of 0] strlen_ok [OF assms(1)] strlen_ok [OF assms(2)] assms(3)
    by (simp add: strstr_def of_nat_diff)
next
  case False
  then show ?thesis
    using strstr_from_overrun [OF assms(1,2) _ assms(5), of 0] strlen_ok [OF assms(1)] strlen_ok [OF assms(2)] assms(3)
    by (simp add: strstr_def)
qed

theorem strstr_search_witness:
  "strstr [8 \<mapsto> 97, 9 \<mapsto> 0, 16 \<mapsto> 98, 17 \<mapsto> 98, 18 \<mapsto> 0] 8 16 = None"
  using strstr_search [of "[8 \<mapsto> 97, 9 \<mapsto> 0, 16 \<mapsto> 98, 17 \<mapsto> 98, 18 \<mapsto> 0]" 8 "[97]" 16 "[98, 98]"]
  by simp

end
