(* ===== verification/Fd_Table.thy ===== *)
theory Fd_Table
  imports Bits
begin

text \<open>
  The file descriptor tables of \<open>kernel/vfs/fdtable.c\<close> with the reference counting of
  \<open>vfs_fdup\<close> and \<open>vfs_fput\<close> (\<open>kernel/vfs/file.c\<close>). The state is the heap of tables and the
  heap of open files; a freed object is absent. Writers hold the table's lock for a whole
  operation, so each operation is one transition; a failed assertion or a wild access is
  \<open>None\<close>. Tearing a file down after its last reference (flush, pipe, device and inode
  release) is the removal of the file from the heap.
\<close>

subsection \<open>State\<close>

definition NOFILE :: nat where "NOFILE = 64"

definition IS_FD :: "addr \<Rightarrow> bool" where
  "IS_FD fd \<longleftrightarrow> fd > of_nat NOFILE"

record vfs_fdtable =
  fd_count :: int
  files :: "addr list"
  files_bitmap :: "u64 list"
  ref_count :: int

record vfs_file =
  f_ref_count :: int
  f_fd :: int

record fdw =
  fdts :: "addr \<rightharpoonup> vfs_fdtable"
  vfiles :: "addr \<rightharpoonup> vfs_file"

subsection \<open>File references\<close>

definition vfs_fdup :: "fdw \<Rightarrow> addr \<Rightarrow> (addr \<times> fdw) option" where
  "vfs_fdup w file =
     (if file = NULL then Some (NULL, w)
      else do {
        f \<leftarrow> vfiles w file;
        if f_ref_count f = 0 then Some (NULL, w)
        else Some (file, w\<lparr>vfiles := (vfiles w)(file \<mapsto> f\<lparr>f_ref_count := f_ref_count f + 1\<rparr>)\<rparr>) })"

definition vfs_fput :: "fdw \<Rightarrow> addr \<Rightarrow> fdw option" where
  "vfs_fput w file =
     (if file = NULL then Some w
      else do {
        f \<leftarrow> vfiles w file;
        if f_ref_count f \<noteq> 1
        then Some (w\<lparr>vfiles := (vfiles w)(file \<mapsto> f\<lparr>f_ref_count := f_ref_count f - 1\<rparr>)\<rparr>)
        else Some (w\<lparr>vfiles := (vfiles w)(file := None)\<rparr>) })"

subsection \<open>The bitmap in memory\<close>

definition bitmap_mem :: "addr \<Rightarrow> u64 list \<Rightarrow> mem" where
  "bitmap_mem base bm = (\<lambda>a. let k = unat (a - base) in
     if k < 8 * length bm then Some (ucast (drop_bit (8 * (k mod 8)) (bm ! (k div 8)))) else None)"

text \<open>
  \<open>&fdtable->files_bitmap[fd >> 6]\<close> with bit \<open>fd & 63\<close>: the rest of the array from that element.
\<close>

definition bitmap_elem_op ::
    "(u64 list \<Rightarrow> nat \<Rightarrow> (bool \<times> u64 list) option) \<Rightarrow> u64 list \<Rightarrow> nat \<Rightarrow> u64 list option" where
  "bitmap_elem_op f bm fd = do {
     (was_set, rest) \<leftarrow> f (drop (drop_bit 6 fd) bm) (fd AND 63);
     Some (take (drop_bit 6 fd) bm @ rest) }"

subsection \<open>Operations\<close>

definition fdtable_zero :: vfs_fdtable where
  "fdtable_zero = \<lparr>fd_count = 0, files = replicate NOFILE NULL, files_bitmap = [0], ref_count = 0\<rparr>"

text \<open>\<open>new\<close> is the block the slab cache returns, \<open>NULL\<close> when it has none.\<close>

definition i_vfs_fdtable_alloc_init :: "fdw \<Rightarrow> addr \<Rightarrow> addr \<times> fdw" where
  "i_vfs_fdtable_alloc_init w new =
     (if new = NULL then (NULL, w)
      else (new, w\<lparr>fdts := (fdts w)(new \<mapsto> fdtable_zero\<lparr>ref_count := 1\<rparr>)\<rparr>))"

definition i_vfs_fdtable_free :: "fdw \<Rightarrow> addr \<Rightarrow> fdw" where
  "i_vfs_fdtable_free w fdtable =
     (if fdtable \<noteq> NULL then w\<lparr>fdts := (fdts w)(fdtable := None)\<rparr> else w)"

definition vfs_fdtable_init :: "fdw \<Rightarrow> addr \<Rightarrow> (addr \<times> fdw) option" where
  "vfs_fdtable_init w new =
     (let (fdtable, w') = i_vfs_fdtable_alloc_init w new in
      if fdtable = NULL then None
      else do {
        t \<leftarrow> fdts w' fdtable;
        Some (fdtable, w'\<lparr>fdts := (fdts w')(fdtable \<mapsto>
          t\<lparr>files := replicate NOFILE NULL, files_bitmap := [0]\<rparr>)\<rparr>) })"

definition vfs_fdtable_alloc_fd_from :: "addr \<Rightarrow> fdw \<Rightarrow> addr \<Rightarrow> addr \<Rightarrow> int \<Rightarrow> (int \<times> fdw) option" where
  "vfs_fdtable_alloc_fd_from bm_addr w fdtable file start_fd =
     (if fdtable = NULL \<or> file = NULL then Some (- EINVAL, w)
      else if start_fd < 0 \<or> start_fd \<ge> int NOFILE then Some (- EINVAL, w)
      else do {
        t \<leftarrow> fdts w fdtable;
        if fd_count t \<ge> int NOFILE then Some (- EMFILE, w)
        else do {
          fd \<leftarrow> i_bits_ctz_ptr_from (bitmap_mem bm_addr (files_bitmap t)) bm_addr (nat start_fd) NOFILE True;
          if fd < 0 \<or> fd \<ge> int NOFILE then Some (- EMFILE, w)
          else do {
            (dup, w1) \<leftarrow> vfs_fdup w file;
            if dup = NULL then Some (- ENOMEM, w1)
            else do {
              bm \<leftarrow> bitmap_elem_op bits_test_and_set_bit64 (files_bitmap t) (nat fd);
              f \<leftarrow> vfiles w1 file;
              Some (fd, w1\<lparr>
                fdts := (fdts w1)(fdtable \<mapsto> t\<lparr>files_bitmap := bm, files := (files t)[nat fd := file],
                                              fd_count := fd_count t + 1\<rparr>),
                vfiles := (vfiles w1)(file \<mapsto> f\<lparr>f_fd := fd\<rparr>)\<rparr>) } } } })"

definition vfs_fdtable_alloc_fd :: "addr \<Rightarrow> fdw \<Rightarrow> addr \<Rightarrow> addr \<Rightarrow> (int \<times> fdw) option" where
  "vfs_fdtable_alloc_fd bm_addr w fdtable file = vfs_fdtable_alloc_fd_from bm_addr w fdtable file 0"

definition vfs_fdtable_get_file :: "fdw \<Rightarrow> addr \<Rightarrow> int \<Rightarrow> (addr \<times> fdw) option" where
  "vfs_fdtable_get_file w fdtable fd =
     (if fdtable = NULL \<or> fd < 0 \<or> fd \<ge> int NOFILE then Some (NULL, w)
      else do {
        t \<leftarrow> fdts w fdtable;
        let file = files t ! nat fd;
        if IS_FD file then vfs_fdup w file else Some (NULL, w) })"

definition vfs_fdtable_dealloc_fd :: "fdw \<Rightarrow> addr \<Rightarrow> int \<Rightarrow> (addr \<times> fdw) option" where
  "vfs_fdtable_dealloc_fd w fdtable fd =
     (if fdtable = NULL \<or> fd < 0 \<or> fd \<ge> int NOFILE then Some (NULL, w)
      else do {
        t \<leftarrow> fdts w fdtable;
        let file = files t ! nat fd;
        if \<not> IS_FD file then Some (NULL, w)
        else do {
          bm \<leftarrow> bitmap_elem_op bits_test_and_clear_bit64 (files_bitmap t) (nat fd);
          Some (file, w\<lparr>fdts := (fdts w)(fdtable \<mapsto>
            t\<lparr>files := (files t)[nat fd := NULL], files_bitmap := bm, fd_count := fd_count t - 1\<rparr>)\<rparr>) } })"

text \<open>
  The copy loop of \<open>vfs_fdtable_clone\<close> over the slots \<open>i, i + 1, ...\<close>; \<open>ERR_PTR\<close> results are
  the left summand.
\<close>

fun clone_slots :: "addr list \<Rightarrow> fdw \<Rightarrow> vfs_fdtable \<Rightarrow> nat \<Rightarrow> (vfs_fdtable \<times> fdw) option" where
  "clone_slots [] w dest i = Some (dest, w)"
| "clone_slots (src_file # rest) w dest i =
     (if IS_FD src_file then do {
        (dst_file, w1) \<leftarrow> vfs_fdup w src_file;
        if dst_file \<noteq> NULL then do {
          bm \<leftarrow> bitmap_elem_op bits_test_and_set_bit64 (files_bitmap dest) i;
          clone_slots rest w1 (dest\<lparr>files := (files dest)[i := dst_file],
            fd_count := fd_count dest + 1, files_bitmap := bm\<rparr>) (i + 1) }
        else clone_slots rest w1 (dest\<lparr>files := (files dest)[i := NULL]\<rparr>) (i + 1) }
      else clone_slots rest w dest (i + 1))"

definition vfs_fdtable_clone :: "fdw \<Rightarrow> addr \<Rightarrow> bool \<Rightarrow> addr \<Rightarrow> ((int + addr) \<times> fdw) option" where
  "vfs_fdtable_clone w src clone_files new =
     (if src = NULL then Some (Inl (- EINVAL), w)
      else do {
        t \<leftarrow> fdts w src;
        if clone_files
        then Some (Inr src, w\<lparr>fdts := (fdts w)(src \<mapsto> t\<lparr>ref_count := ref_count t + 1\<rparr>)\<rparr>)
        else
          let (dest, w1) = i_vfs_fdtable_alloc_init w new in
          if dest = NULL then Some (Inl (- ENOMEM), w1)
          else do {
            d \<leftarrow> fdts w1 dest;
            (d', w2) \<leftarrow> clone_slots (files t) w1
              (d\<lparr>fd_count := 0, files := replicate NOFILE NULL, files_bitmap := [0]\<rparr>) 0;
            Some (Inr dest, w2\<lparr>fdts := (fdts w2)(dest \<mapsto> d')\<rparr>) } })"

text \<open>The closing loop of \<open>vfs_fdtable_put\<close> returns the number of closed slots.\<close>

fun put_slots :: "addr list \<Rightarrow> fdw \<Rightarrow> (nat \<times> fdw) option" where
  "put_slots [] w = Some (0, w)"
| "put_slots (file # rest) w =
     (if IS_FD file then do {
        w1 \<leftarrow> vfs_fput w file;
        (n, w2) \<leftarrow> put_slots rest w1;
        Some (n + 1, w2) }
      else put_slots rest w)"

definition vfs_fdtable_put :: "fdw \<Rightarrow> addr \<Rightarrow> fdw option" where
  "vfs_fdtable_put w fdtable =
     (if fdtable = NULL then Some w
      else do {
        t \<leftarrow> fdts w fdtable;
        if ref_count t \<noteq> 1
        then Some (w\<lparr>fdts := (fdts w)(fdtable \<mapsto> t\<lparr>ref_count := ref_count t - 1\<rparr>)\<rparr>)
        else do {
          (n, w1) \<leftarrow> put_slots (files t) w;
          if fd_count t - int n \<ge> 0 then Some (i_vfs_fdtable_free w1 fdtable) else None } })"

subsection \<open>The invariant of a table\<close>

definition open_slots :: "addr list \<Rightarrow> nat set" where
  "open_slots fs = {i. i < NOFILE \<and> IS_FD (fs ! i)}"

definition fdt_ok :: "vfs_fdtable \<Rightarrow> bool" where
  "fdt_ok t \<longleftrightarrow> length (files t) = NOFILE \<and> length (files_bitmap t) = 1 \<and>
     bitmap_set (files_bitmap t) = open_slots (files t) \<and>
     (\<forall>i<NOFILE. \<not> IS_FD (files t ! i) \<longrightarrow> files t ! i = NULL) \<and>
     fd_count t = int (card (open_slots (files t)))"

lemma finite_open_slots [simp]: "finite (open_slots (files t))"
  by (simp add: open_slots_def)

lemma not_IS_FD_NULL [simp]: "\<not> IS_FD NULL"
  by (simp add: IS_FD_def)

lemma IS_FD_not_NULL: "IS_FD f \<Longrightarrow> f \<noteq> NULL"
  by auto

lemma bitmap_elem_op_1:
  assumes "length bm = 1" "fd < NOFILE"
  shows "bitmap_elem_op f bm fd = map_option snd (f bm fd)"
proof -
  have "drop_bit 6 fd = 0" using assms(2) by (simp add: NOFILE_def drop_bit_eq_div)
  moreover have "fd AND 63 = fd"
    using take_bit_eq_mask [of 6 fd] assms(2) by (simp add: NOFILE_def mask_eq_exp_minus_1 take_bit_nat_eq_self)
  ultimately show ?thesis by (cases "f bm fd") (auto simp: bitmap_elem_op_def)
qed

lemma bitmap_set_clear_1:
  assumes "length bm = 1" "fd < NOFILE"
  shows "\<exists>bm1. bitmap_elem_op bits_test_and_set_bit64 bm fd = Some bm1 \<and> length bm1 = 1 \<and>
           bitmap_set bm1 = insert fd (bitmap_set bm)"
    "\<exists>bm2. bitmap_elem_op bits_test_and_clear_bit64 bm fd = Some bm2 \<and> length bm2 = 1 \<and>
           bitmap_set bm2 = bitmap_set bm - {fd}"
  using bitmap_ops_spec [of fd bm] assms by (auto simp: bitmap_elem_op_1 NOFILE_def)

lemma bitmap_mem_at:
  "k < 8 * length bm \<Longrightarrow> 8 * length bm < 2 ^ 64 \<Longrightarrow>
   bitmap_mem base bm (base + of_nat k) = Some (ucast (drop_bit (8 * (k mod 8)) (bm ! (k div 8))))"
  by (simp add: bitmap_mem_def unat_of_nat)

lemma region_bit_bitmap:
  assumes "j < 64 * length bm" "8 * length bm < 2 ^ 64"
  shows "region_bit (bitmap_mem base bm) base iv j \<longleftrightarrow> (j \<in> bitmap_set bm) \<noteq> iv"
proof -
  have k: "j div 8 < 8 * length bm" using assms(1) by (simp add: div_less_iff_less_mult)
  have "j div 8 div 8 = j div 64" by (simp add: div_mult2_eq [symmetric])
  moreover have "8 * (j div 8 mod 8) + j mod 8 = j mod 64"
    using mod_mult2_eq [of j 8 8] by simp
  moreover have "bit (ucast (drop_bit n (x::u64)) :: u8) r = bit x (n + r)" if "r < 8" for n x r
    using that by (simp add: bit_ucast_iff bit_drop_bit_eq)
  ultimately show ?thesis
    using bitmap_mem_at [OF k assms(2), of base] assms(1) by (auto simp: region_bit_def bitmap_set_def)
qed

lemma find_free_fd:
  assumes "length bm = 1" "base \<noteq> NULL" "unat base + 8 < 2 ^ 64"
  shows "\<exists>r. i_bits_ctz_ptr_from (bitmap_mem base bm) base start NOFILE True = Some r \<and>
    first_set (\<lambda>j. start \<le> j \<and> j \<notin> bitmap_set bm) NOFILE r"
proof -
  have "readable (bitmap_mem base bm) base 8"
    using assms(1) bitmap_mem_at [of _ bm base] by (auto simp: readable_def)
  then obtain r where r: "i_bits_ctz_ptr_from (bitmap_mem base bm) base start NOFILE True = Some r"
    "first_set (\<lambda>j. start \<le> j \<and> region_bit (bitmap_mem base bm) base True j) NOFILE r"
    using bits_ctz_ptr_from_spec [of base NOFILE "bitmap_mem base bm" start True] assms(2,3)
    by (auto simp: NOFILE_def)
  have "first_set (\<lambda>j. start \<le> j \<and> j \<notin> bitmap_set bm) NOFILE r"
    by (rule first_set_cong [OF r(2)]) (use region_bit_bitmap [of _ bm base True] assms(1) in \<open>simp add: NOFILE_def\<close>)
  then show ?thesis using r(1) by blast
qed

lemma open_slots_update:
  assumes "i < NOFILE" "length fs = NOFILE"
  shows "open_slots (fs[i := f]) = (if IS_FD f then insert i (open_slots fs) else open_slots fs - {i})"
  using assms by (auto simp: open_slots_def nth_list_update split: if_splits)

lemma null_slots_update:
  "\<forall>i<NOFILE. \<not> IS_FD (fs ! i) \<longrightarrow> fs ! i = NULL \<Longrightarrow> length fs = NOFILE \<Longrightarrow> IS_FD f \<or> f = NULL \<Longrightarrow>
   \<forall>i<NOFILE. \<not> IS_FD (fs[k := f] ! i) \<longrightarrow> fs[k := f] ! i = NULL"
  by (metis (full_types) nth_list_update_eq nth_list_update_neq)

lemma fdt_ok_set:
  assumes ok: "fdt_ok t" and i: "i < NOFILE" "\<not> IS_FD (files t ! i)" and f: "IS_FD f"
    and t': "length (files_bitmap t') = 1" "bitmap_set (files_bitmap t') = insert i (bitmap_set (files_bitmap t))"
      "files t' = (files t)[i := f]" "fd_count t' = fd_count t + 1"
  shows "fdt_ok t'"
proof -
  have "i \<notin> open_slots (files t)" using i by (simp add: open_slots_def)
  then show ?thesis
    using ok i f t' null_slots_update [of "files t" f i] by (simp add: fdt_ok_def open_slots_update)
qed

lemma fdt_ok_clear:
  assumes ok: "fdt_ok t" and i: "i < NOFILE" "IS_FD (files t ! i)"
    and t': "length (files_bitmap t') = 1" "bitmap_set (files_bitmap t') = bitmap_set (files_bitmap t) - {i}"
      "files t' = (files t)[i := NULL]" "fd_count t' = fd_count t - 1"
  shows "fdt_ok t'"
proof -
  have "i \<in> open_slots (files t)" using i by (simp add: open_slots_def)
  moreover from this have "card (open_slots (files t)) > 0" by (auto simp: card_gt_0_iff)
  ultimately have "int (card (open_slots (files t) - {i})) = int (card (open_slots (files t))) - 1"
    by (simp add: card_Diff_singleton of_nat_diff)
  then show ?thesis
    using ok i t' null_slots_update [of "files t" NULL i] by (simp add: fdt_ok_def open_slots_update)
qed

subsection \<open>Allocation\<close>

lemma fd_count_full: "fdt_ok t \<Longrightarrow> fd_count t \<ge> int NOFILE \<Longrightarrow> i < NOFILE \<Longrightarrow> IS_FD (files t ! i)"
proof -
  assume ok: "fdt_ok t" "fd_count t \<ge> int NOFILE" and i: "i < NOFILE"
  have "open_slots (files t) \<subseteq> {..<NOFILE}" by (auto simp: open_slots_def)
  moreover have "card {..<NOFILE} \<le> card (open_slots (files t))" using ok by (simp add: fdt_ok_def)
  ultimately have "open_slots (files t) = {..<NOFILE}" by (intro card_seteq) auto
  then show ?thesis using i by (auto simp: open_slots_def)
qed

lemma alloc_fd_from_ok:
  assumes t: "fdtable \<noteq> NULL" "fdts w fdtable = Some t" "fdt_ok t"
    and f: "IS_FD file" "vfiles w file = Some f" "f_ref_count f > 0"
    and s: "0 \<le> start" "start < int NOFILE" and bm: "bm_addr \<noteq> NULL" "unat bm_addr + 8 < 2 ^ 64"
  shows "\<exists>r. first_set (\<lambda>j. nat start \<le> j \<and> \<not> IS_FD (files t ! j)) NOFILE r \<and>
    (if r < 0 then vfs_fdtable_alloc_fd_from bm_addr w fdtable file start = Some (- EMFILE, w)
     else \<exists>t'. vfs_fdtable_alloc_fd_from bm_addr w fdtable file start =
         Some (r, w\<lparr>fdts := (fdts w)(fdtable \<mapsto> t'),
           vfiles := (vfiles w)(file \<mapsto> f\<lparr>f_ref_count := f_ref_count f + 1, f_fd := r\<rparr>)\<rparr>) \<and>
       fdt_ok t' \<and> files t' = (files t)[nat r := file] \<and> ref_count t' = ref_count t)"
proof -
  have fn: "file \<noteq> NULL" using f(1) by auto
  have l: "length (files_bitmap t) = 1" using t(3) by (simp add: fdt_ok_def)
  obtain r where r: "i_bits_ctz_ptr_from (bitmap_mem bm_addr (files_bitmap t)) bm_addr (nat start) NOFILE True = Some r"
    "first_set (\<lambda>j. nat start \<le> j \<and> j \<notin> bitmap_set (files_bitmap t)) NOFILE r"
    using find_free_fd [OF l bm] by blast
  have fs: "first_set (\<lambda>j. nat start \<le> j \<and> \<not> IS_FD (files t ! j)) NOFILE r"
    by (rule first_set_cong [OF r(2)]) (use t(3) in \<open>simp add: fdt_ok_def open_slots_def\<close>)
  show ?thesis
  proof (cases "r < 0")
    case True
    then show ?thesis using fs r(1) t(1,2) fn s
      by (intro exI [of _ r]) (auto simp: vfs_fdtable_alloc_fd_from_def)
  next
    case False
    then have n: "nat r < NOFILE" "\<not> IS_FD (files t ! nat r)" using fs by (auto simp: first_set_def split: if_splits)
    then have nf: "\<not> fd_count t \<ge> int NOFILE" using fd_count_full [OF t(3)] by blast
    obtain b where b: "bitmap_elem_op bits_test_and_set_bit64 (files_bitmap t) (nat r) = Some b" "length b = 1"
      "bitmap_set b = insert (nat r) (bitmap_set (files_bitmap t))" using bitmap_set_clear_1(1) [OF l n(1)] by blast
    let ?t = "t\<lparr>files_bitmap := b, files := (files t)[nat r := file], fd_count := fd_count t + 1\<rparr>"
    have "fdt_ok ?t" by (rule fdt_ok_set [OF t(3) n f(1)]) (simp_all add: b)
    moreover have "r < int NOFILE" using n(1) False by simp
    ultimately show ?thesis using False fs r(1) t(1,2) fn s nf b(1) f(2,3)
      by (intro exI [of _ r]) (simp add: vfs_fdtable_alloc_fd_from_def vfs_fdup_def, intro exI [of _ ?t], simp)
  qed
qed

subsection \<open>Lookup and release of a descriptor\<close>

definition frefs :: "fdw \<Rightarrow> addr \<Rightarrow> int" where
  "frefs w f = (case vfiles w f of None \<Rightarrow> 0 | Some x \<Rightarrow> f_ref_count x)"

lemma vfs_fdup_ok:
  assumes "frefs w f > 0" "f \<noteq> NULL"
  shows "\<exists>w'. vfs_fdup w f = Some (f, w') \<and> fdts w' = fdts w \<and> frefs w' = (frefs w)(f := frefs w f + 1) \<and>
    dom (vfiles w') = dom (vfiles w)"
proof -
  obtain x where x: "vfiles w f = Some x" "f_ref_count x > 0"
    using assms(1) by (auto simp: frefs_def split: option.splits)
  then show ?thesis using assms(2) by (auto simp: vfs_fdup_def frefs_def fun_eq_iff)
qed

lemma vfs_fput_ok:
  assumes "frefs w f > 0" "f \<noteq> NULL"
  shows "\<exists>w'. vfs_fput w f = Some w' \<and> fdts w' = fdts w \<and> frefs w' = (frefs w)(f := frefs w f - 1) \<and>
    dom (vfiles w') = (if frefs w f = 1 then dom (vfiles w) - {f} else dom (vfiles w))"
proof -
  obtain x where x: "vfiles w f = Some x" "f_ref_count x > 0"
    using assms(1) by (auto simp: frefs_def split: option.splits)
  then show ?thesis using assms(2) by (auto simp: vfs_fput_def frefs_def fun_eq_iff)
qed

lemma get_file_ok:
  assumes "fdtable \<noteq> NULL" "fdts w fdtable = Some t" "fd < NOFILE" "IS_FD (files t ! fd)"
    and "frefs w (files t ! fd) > 0"
  shows "\<exists>w'. vfs_fdtable_get_file w fdtable (int fd) = Some (files t ! fd, w') \<and> fdts w' = fdts w \<and>
    frefs w' = (frefs w)(files t ! fd := frefs w (files t ! fd) + 1)"
  using vfs_fdup_ok [OF assms(5)] IS_FD_not_NULL [OF assms(4)] assms
  by (auto simp: vfs_fdtable_get_file_def)

lemma dealloc_fd_ok:
  assumes t: "fdtable \<noteq> NULL" "fdts w fdtable = Some t" "fdt_ok t" and fd: "fd < NOFILE" "IS_FD (files t ! fd)"
  shows "\<exists>t'. vfs_fdtable_dealloc_fd w fdtable (int fd) =
      Some (files t ! fd, w\<lparr>fdts := (fdts w)(fdtable \<mapsto> t')\<rparr>) \<and>
    fdt_ok t' \<and> files t' = (files t)[fd := NULL] \<and> ref_count t' = ref_count t"
proof -
  have l: "length (files_bitmap t) = 1" using t(3) by (simp add: fdt_ok_def)
  obtain b where b: "bitmap_elem_op bits_test_and_clear_bit64 (files_bitmap t) fd = Some b" "length b = 1"
    "bitmap_set b = bitmap_set (files_bitmap t) - {fd}" using bitmap_set_clear_1(2) [OF l fd(1)] by blast
  let ?t = "t\<lparr>files := (files t)[fd := NULL], files_bitmap := b, fd_count := fd_count t - 1\<rparr>"
  have "fdt_ok ?t" by (rule fdt_ok_clear [OF t(3) fd]) (simp_all add: b)
  then show ?thesis using t(1,2) fd b(1)
    by (intro exI [of _ ?t]) (simp add: vfs_fdtable_dealloc_fd_def)
qed

subsection \<open>Cloning and dropping a table\<close>

lemma clone_slots_ok:
  assumes "\<And>f. f \<in> set fs \<Longrightarrow> IS_FD f \<or> f = NULL" "\<And>f. f \<in> set fs \<Longrightarrow> IS_FD f \<Longrightarrow> frefs w f > 0"
    and "fdt_ok dest" "files dest = pre @ replicate (length fs) NULL"
  shows "\<exists>dest' w'. clone_slots fs w dest (length pre) = Some (dest', w') \<and> fdt_ok dest' \<and>
    files dest' = pre @ fs \<and> ref_count dest' = ref_count dest \<and> fdts w' = fdts w \<and>
    dom (vfiles w') = dom (vfiles w) \<and> (\<forall>f. frefs w' f = frefs w f + int (count_list (filter IS_FD fs) f))"
  using assms
proof (induction fs arbitrary: w dest pre)
  case (Cons g fs)
  have len: "length pre < NOFILE" using Cons.prems(3,4) by (auto simp: fdt_ok_def)
  show ?case
  proof (cases "IS_FD g")
    case True
    obtain w1 where w1: "vfs_fdup w g = Some (g, w1)" "fdts w1 = fdts w" "frefs w1 = (frefs w)(g := frefs w g + 1)"
      "dom (vfiles w1) = dom (vfiles w)"
      using vfs_fdup_ok [of w g] Cons.prems(2) [of g] True IS_FD_not_NULL [OF True] by auto
    have "length (files_bitmap dest) = 1" using Cons.prems(3) by (simp add: fdt_ok_def)
    then obtain b where b: "bitmap_elem_op bits_test_and_set_bit64 (files_bitmap dest) (length pre) = Some b"
      "length b = 1" "bitmap_set b = insert (length pre) (bitmap_set (files_bitmap dest))"
      using bitmap_set_clear_1(1) len by blast
    let ?d = "dest\<lparr>files := (files dest)[length pre := g], fd_count := fd_count dest + 1, files_bitmap := b\<rparr>"
    have "fdt_ok ?d"
      by (rule fdt_ok_set [OF Cons.prems(3) len _ True]) (simp_all add: b Cons.prems(4) nth_append)
    moreover have "files ?d = (pre @ [g]) @ replicate (length fs) NULL" by (simp add: Cons.prems(4))
    moreover have "frefs w1 f > 0" if "f \<in> set fs" "IS_FD f" for f using that Cons.prems(2) [of f] w1(3) by auto
    ultimately have "\<exists>dest' w'. clone_slots fs w1 ?d (length (pre @ [g])) = Some (dest', w') \<and> fdt_ok dest' \<and>
        files dest' = (pre @ [g]) @ fs \<and> ref_count dest' = ref_count ?d \<and> fdts w' = fdts w1 \<and> dom (vfiles w') = dom (vfiles w1) \<and>
        (\<forall>f. frefs w' f = frefs w1 f + int (count_list (filter IS_FD fs) f))"
      using Cons.prems(1) by (intro Cons.IH) auto
    then show ?thesis using True w1 b(1) by auto
  next
    case False
    then have "g = NULL" using Cons.prems(1) by auto
    then have "\<exists>dest' w'. clone_slots fs w dest (length (pre @ [g])) = Some (dest', w') \<and> fdt_ok dest' \<and>
        files dest' = (pre @ [g]) @ fs \<and> ref_count dest' = ref_count dest \<and> fdts w' = fdts w \<and> dom (vfiles w') = dom (vfiles w) \<and>
        (\<forall>f. frefs w' f = frefs w f + int (count_list (filter IS_FD fs) f))"
      using Cons.prems by (intro Cons.IH) auto
    then show ?thesis using False by auto
  qed
qed auto

lemma fdt_ok_zero: "fdt_ok (fdtable_zero\<lparr>ref_count := r\<rparr>)"
proof -
  have "\<not> IS_FD (replicate NOFILE NULL ! i)" if "i < NOFILE" for i
    using that IS_FD_not_NULL by force
  moreover have "bitmap_set [0] = {}" by (auto simp: bitmap_set_def)
  ultimately show ?thesis by (auto simp: fdt_ok_def fdtable_zero_def open_slots_def)
qed

lemma clone_ok:
  assumes "src \<noteq> NULL" "fdts w src = Some t" "fdt_ok t" "new \<noteq> NULL" "fdts w new = None"
    and "\<And>f. f \<in> set (files t) \<Longrightarrow> IS_FD f \<Longrightarrow> frefs w f > 0"
  shows "\<exists>d w'. vfs_fdtable_clone w src False new = Some (Inr new, w') \<and>
    fdts w' = (fdts w)(new \<mapsto> d) \<and> fdt_ok d \<and> files d = files t \<and> ref_count d = 1 \<and>
    dom (vfiles w') = dom (vfiles w) \<and> (\<forall>f. frefs w' f = frefs w f + int (count_list (filter IS_FD (files t)) f))"
proof -
  let ?w = "w\<lparr>fdts := (fdts w)(new \<mapsto> fdtable_zero\<lparr>ref_count := 1\<rparr>)\<rparr>"
  let ?d = "fdtable_zero\<lparr>ref_count := 1, fd_count := 0, files := replicate NOFILE NULL, files_bitmap := [0]\<rparr>"
  have ft: "length (files t) = NOFILE" "f \<in> set (files t) \<Longrightarrow> IS_FD f \<or> f = NULL" for f
    using assms(3) by (auto simp: fdt_ok_def in_set_conv_nth)
  have d: "?d = fdtable_zero\<lparr>ref_count := 1\<rparr>" by (simp add: fdtable_zero_def)
  have "frefs ?w = frefs w" by (simp add: frefs_def fun_eq_iff)
  moreover have "\<exists>dest' w'. clone_slots (files t) ?w ?d (length ([] :: addr list)) = Some (dest', w') \<and> fdt_ok dest' \<and>
    files dest' = [] @ files t \<and> ref_count dest' = ref_count ?d \<and> fdts w' = fdts ?w \<and>
    dom (vfiles w') = dom (vfiles ?w) \<and> (\<forall>f. frefs w' f = frefs ?w f + int (count_list (filter IS_FD (files t)) f))"
  proof (rule clone_slots_ok)
    show "fdt_ok ?d" unfolding d by (rule fdt_ok_zero)
    show "files ?d = [] @ replicate (length (files t)) NULL" by (simp add: ft(1))
  qed (use ft(2) assms(6) calculation in auto)
  ultimately obtain d' w' where c: "clone_slots (files t) ?w ?d 0 = Some (d', w')" "fdt_ok d'"
    "files d' = files t" "ref_count d' = 1" "fdts w' = fdts ?w" "dom (vfiles w') = dom (vfiles w)"
    "\<forall>f. frefs w' f = frefs w f + int (count_list (filter IS_FD (files t)) f)" by auto
  let ?w' = "w'\<lparr>fdts := (fdts w')(new \<mapsto> d')\<rparr>"
  have "vfs_fdtable_clone w src False new = Some (Inr new, ?w')"
    using assms(1,2,4) c(1) by (simp add: vfs_fdtable_clone_def i_vfs_fdtable_alloc_init_def)
  moreover have "fdts ?w' = (fdts w)(new \<mapsto> d')" "frefs ?w' = frefs w'" "dom (vfiles ?w') = dom (vfiles w)"
    using c(5,6) by (simp_all add: frefs_def fun_eq_iff)
  ultimately show ?thesis using c by auto
qed

definition refs_pos :: "fdw \<Rightarrow> bool" where
  "refs_pos w = (\<forall>f \<in> dom (vfiles w). frefs w f > 0)"

lemma put_slots_ok:
  assumes "\<And>f. IS_FD f \<Longrightarrow> int (count_list fs f) \<le> frefs w f" "refs_pos w"
  shows "\<exists>w'. put_slots fs w = Some (length (filter IS_FD fs), w') \<and> fdts w' = fdts w \<and>
    (\<forall>f. frefs w' f = frefs w f - int (count_list (filter IS_FD fs) f)) \<and> refs_pos w'"
  using assms
proof (induction fs arbitrary: w)
  case (Cons g fs)
  show ?case
  proof (cases "IS_FD g")
    case True
    have "frefs w g > 0" using Cons.prems(1) [OF True] by auto
    then obtain w1 where w1: "vfs_fput w g = Some w1" "fdts w1 = fdts w" "frefs w1 = (frefs w)(g := frefs w g - 1)"
      "dom (vfiles w1) = (if frefs w g = 1 then dom (vfiles w) - {g} else dom (vfiles w))"
      using vfs_fput_ok True IS_FD_not_NULL by metis
    have p: "refs_pos w1" using Cons.prems(2) w1(3,4) by (force simp: refs_pos_def split: if_splits)
    have "int (count_list fs f) \<le> frefs w1 f" if "IS_FD f" for f
      using Cons.prems(1) [OF that] w1(3) by (auto split: if_splits)
    from Cons.IH [OF this p] show ?thesis using True w1 by auto
  next
    case False
    have "int (count_list fs f) \<le> frefs w f" if "IS_FD f" for f
      using Cons.prems(1) [OF that] False that by (auto split: if_splits)
    from Cons.IH [OF this Cons.prems(2)] show ?thesis using False by auto
  qed
qed auto

lemma put_last_ok:
  assumes "fdtable \<noteq> NULL" "fdts w fdtable = Some t" "fdt_ok t" "ref_count t = 1" "refs_pos w"
    and "\<And>f. IS_FD f \<Longrightarrow> int (count_list (files t) f) \<le> frefs w f"
  shows "\<exists>w'. vfs_fdtable_put w fdtable = Some w' \<and> fdts w' = (fdts w)(fdtable := None) \<and> refs_pos w' \<and>
    (\<forall>f. frefs w' f = frefs w f - int (count_list (filter IS_FD (files t)) f))"
proof -
  have "length (filter IS_FD (files t)) = card {i. i < length (files t) \<and> IS_FD (files t ! i)}"
    by (rule length_filter_conv_card)
  then have n: "fd_count t = int (length (filter IS_FD (files t)))"
    using assms(3) by (simp add: fdt_ok_def open_slots_def)
  obtain w1 where w1: "put_slots (files t) w = Some (length (filter IS_FD (files t)), w1)" "fdts w1 = fdts w"
    "\<forall>f. frefs w1 f = frefs w f - int (count_list (filter IS_FD (files t)) f)" "refs_pos w1"
    using put_slots_ok [OF assms(6,5)] by blast
  let ?w = "i_vfs_fdtable_free w1 fdtable"
  have "vfiles ?w = vfiles w1" "fdts ?w = (fdts w)(fdtable := None)"
    using assms(1) w1(2) by (simp_all add: i_vfs_fdtable_free_def)
  then have "frefs ?w = frefs w1" by (simp add: frefs_def fun_eq_iff)
  moreover from this have "refs_pos ?w" using w1(4) \<open>vfiles ?w = vfiles w1\<close> by (simp add: refs_pos_def)
  moreover have "vfs_fdtable_put w fdtable = Some ?w" using assms w1(1) n by (simp add: vfs_fdtable_put_def)
  ultimately show ?thesis using w1(3) \<open>fdts ?w = (fdts w)(fdtable := None)\<close> by simp
qed

lemma count_filter_eq: "P f \<Longrightarrow> count_list (filter P xs) f = count_list xs f"
  by (induction xs) auto

lemma refs_pos_mono:
  "refs_pos w \<Longrightarrow> dom (vfiles w') = dom (vfiles w) \<Longrightarrow> \<forall>f. frefs w' f \<ge> frefs w f \<Longrightarrow> refs_pos w'"
  unfolding refs_pos_def by (metis order_less_le_trans)

lemma refs_posD: "refs_pos w \<Longrightarrow> vfiles w f \<noteq> None \<Longrightarrow> frefs w f > 0"
  by (auto simp: refs_pos_def)

subsection \<open>Properties\<close>

definition fd_demo :: fdw where
  "fd_demo = \<lparr>fdts = [4096 \<mapsto> fdtable_zero\<lparr>ref_count := 1\<rparr>],
              vfiles = [8192 \<mapsto> \<lparr>f_ref_count = 1, f_fd = -1\<rparr>]\<rparr>"

lemma fd_demo_at:
  "fdts fd_demo 4096 = Some (fdtable_zero\<lparr>ref_count := 1\<rparr>)"
  "vfiles fd_demo 8192 = Some \<lparr>f_ref_count = 1, f_fd = -1\<rparr>" "IS_FD 8192" "refs_pos fd_demo"
  "fdts fd_demo 12288 = None"
  by (auto simp: fd_demo_def IS_FD_def NOFILE_def refs_pos_def frefs_def)

text \<open>
  C21. Allocation from a start number gives the lowest free descriptor at or above it, puts the
  file there with one more reference, and keeps the table's invariant (bitmap, slots and count
  agree); when every slot from the start on is taken it returns \<open>-EMFILE\<close> and changes nothing.
\<close>

theorem alloc_fd_lowest_free:
  assumes t: "fdtable \<noteq> NULL" "fdts w fdtable = Some t" "fdt_ok t"
    and f: "IS_FD file" "vfiles w file = Some f" "f_ref_count f > 0"
    and s: "start < NOFILE" and bm: "bm_addr \<noteq> NULL" "unat bm_addr + 8 < 2 ^ 64"
  shows "if \<forall>j. start \<le> j \<and> j < NOFILE \<longrightarrow> IS_FD (files t ! j)
    then vfs_fdtable_alloc_fd_from bm_addr w fdtable file (int start) = Some (- EMFILE, w)
    else \<exists>fd t'. start \<le> fd \<and> fd < NOFILE \<and> \<not> IS_FD (files t ! fd) \<and>
      (\<forall>j. start \<le> j \<and> j < fd \<longrightarrow> IS_FD (files t ! j)) \<and>
      vfs_fdtable_alloc_fd_from bm_addr w fdtable file (int start) =
        Some (int fd, w\<lparr>fdts := (fdts w)(fdtable \<mapsto> t'),
          vfiles := (vfiles w)(file \<mapsto> f\<lparr>f_ref_count := f_ref_count f + 1, f_fd := int fd\<rparr>)\<rparr>) \<and>
      fdt_ok t' \<and> files t' = (files t)[fd := file]"
proof -
  obtain r where r: "first_set (\<lambda>j. start \<le> j \<and> \<not> IS_FD (files t ! j)) NOFILE r"
    "if r < 0 then vfs_fdtable_alloc_fd_from bm_addr w fdtable file (int start) = Some (- EMFILE, w)
     else \<exists>t'. vfs_fdtable_alloc_fd_from bm_addr w fdtable file (int start) =
         Some (r, w\<lparr>fdts := (fdts w)(fdtable \<mapsto> t'),
           vfiles := (vfiles w)(file \<mapsto> f\<lparr>f_ref_count := f_ref_count f + 1, f_fd := r\<rparr>)\<rparr>) \<and>
       fdt_ok t' \<and> files t' = (files t)[nat r := file] \<and> ref_count t' = ref_count t"
    using alloc_fd_from_ok [OF t f _ _ bm, of "int start"] s by auto
  show ?thesis
  proof (cases "r < 0")
    case True
    then have "\<forall>j. start \<le> j \<and> j < NOFILE \<longrightarrow> IS_FD (files t ! j)"
      using r(1) by (auto simp: first_set_def split: if_splits)
    then show ?thesis using r(2) True by simp
  next
    case False
    then have fd: "start \<le> nat r" "nat r < NOFILE" "\<not> IS_FD (files t ! nat r)"
      "\<forall>j. start \<le> j \<and> j < nat r \<longrightarrow> IS_FD (files t ! j)"
      using r(1) by (auto simp: first_set_def split: if_splits)
    then have "\<not> (\<forall>j. start \<le> j \<and> j < NOFILE \<longrightarrow> IS_FD (files t ! j))" by blast
    moreover have "int (nat r) = r" using False by simp
    moreover from r(2) False obtain t' where
      "vfs_fdtable_alloc_fd_from bm_addr w fdtable file (int start) =
         Some (r, w\<lparr>fdts := (fdts w)(fdtable \<mapsto> t'),
           vfiles := (vfiles w)(file \<mapsto> f\<lparr>f_ref_count := f_ref_count f + 1, f_fd := r\<rparr>)\<rparr>)"
       "fdt_ok t'" "files t' = (files t)[nat r := file]" by auto
    ultimately show ?thesis using fd by (subst if_not_P) (blast, intro exI [of _ "nat r"] exI [of _ t'], simp)
  qed
qed

theorem alloc_fd_lowest_free_witness:
  "\<exists>t'. vfs_fdtable_alloc_fd_from 16384 fd_demo 4096 8192 3 =
     Some (3, fd_demo\<lparr>fdts := (fdts fd_demo)(4096 \<mapsto> t'),
       vfiles := (vfiles fd_demo)(8192 \<mapsto> \<lparr>f_ref_count = 2, f_fd = 3\<rparr>)\<rparr>) \<and> fdt_ok t'"
proof -
  have free: "\<not> IS_FD (files (fdtable_zero\<lparr>ref_count := 1\<rparr>) ! j)" if "j < NOFILE" for j
    using that by (simp add: fdtable_zero_def)
  have nall: "\<not> (\<forall>j. 3 \<le> j \<and> j < NOFILE \<longrightarrow> IS_FD (files (fdtable_zero\<lparr>ref_count := 1\<rparr>) ! j))"
    using free [of 3] by (auto simp: NOFILE_def)
  have p: "(4096::addr) \<noteq> NULL" "f_ref_count \<lparr>f_ref_count = 1, f_fd = -1\<rparr> > 0" "3 < NOFILE"
    "(16384::addr) \<noteq> NULL" "unat (16384::addr) + 8 < 2 ^ 64" by (simp_all add: NOFILE_def)
  obtain fd t' where fd: "3 \<le> fd"
      "\<forall>j. 3 \<le> j \<and> j < fd \<longrightarrow> IS_FD (files (fdtable_zero\<lparr>ref_count := 1\<rparr>) ! j)"
      "vfs_fdtable_alloc_fd_from 16384 fd_demo 4096 8192 (int 3) =
        Some (int fd, fd_demo\<lparr>fdts := (fdts fd_demo)(4096 \<mapsto> t'), vfiles := (vfiles fd_demo)(8192 \<mapsto>
          \<lparr>f_ref_count = 1, f_fd = -1\<rparr>\<lparr>f_ref_count := f_ref_count \<lparr>f_ref_count = 1, f_fd = -1\<rparr> + 1, f_fd := int fd\<rparr>)\<rparr>)"
      "fdt_ok t'"
    using alloc_fd_lowest_free [OF p(1) fd_demo_at(1) fdt_ok_zero fd_demo_at(3,2) p(2-5), unfolded if_not_P [OF nall]]
    by blast
  have "fd = 3" using fd(1,2) free [of 3] by (cases "fd = 3") (auto simp: NOFILE_def)
  then show ?thesis using fd(3,4) by (intro exI [of _ t']) simp
qed

text \<open>
  C22. Round trip through a table: the descriptor that allocation returns is in range, looking it
  up yields the installed file with one more reference, releasing it yields the same file, and
  the slots are then as they were.
\<close>

theorem fd_alloc_get_dealloc:
  assumes t: "fdtable \<noteq> NULL" "fdts w fdtable = Some t" "fdt_ok t"
    and f: "IS_FD file" "vfiles w file = Some f" "f_ref_count f > 0"
    and bm: "bm_addr \<noteq> NULL" "unat bm_addr + 8 < 2 ^ 64"
    and a: "vfs_fdtable_alloc_fd bm_addr w fdtable file = Some (fd, w1)" and nf: "fd \<noteq> - EMFILE"
  shows "0 \<le> fd \<and> fd < int NOFILE \<and>
    (\<exists>w2. vfs_fdtable_get_file w1 fdtable fd = Some (file, w2) \<and> fdts w2 = fdts w1 \<and>
      frefs w2 file = f_ref_count f + 2) \<and>
    (\<exists>w3 t3. vfs_fdtable_dealloc_fd w1 fdtable fd = Some (file, w3) \<and> fdts w3 = (fdts w)(fdtable \<mapsto> t3) \<and>
      fdt_ok t3 \<and> files t3 = files t \<and> frefs w3 file = f_ref_count f + 1)"
proof -
  obtain r where r: "first_set (\<lambda>j. nat 0 \<le> j \<and> \<not> IS_FD (files t ! j)) NOFILE r"
    "if r < 0 then vfs_fdtable_alloc_fd_from bm_addr w fdtable file 0 = Some (- EMFILE, w)
     else \<exists>t'. vfs_fdtable_alloc_fd_from bm_addr w fdtable file 0 =
         Some (r, w\<lparr>fdts := (fdts w)(fdtable \<mapsto> t'),
           vfiles := (vfiles w)(file \<mapsto> f\<lparr>f_ref_count := f_ref_count f + 1, f_fd := r\<rparr>)\<rparr>) \<and>
       fdt_ok t' \<and> files t' = (files t)[nat r := file] \<and> ref_count t' = ref_count t"
    using alloc_fd_from_ok [OF t f _ _ bm, of 0] by (auto simp: NOFILE_def)
  have "\<not> r < 0" using r(2) a nf by (auto simp: vfs_fdtable_alloc_fd_def)
  then obtain t' where w1: "fd = r" "fdts w1 = (fdts w)(fdtable \<mapsto> t')"
    "vfiles w1 = (vfiles w)(file \<mapsto> f\<lparr>f_ref_count := f_ref_count f + 1, f_fd := r\<rparr>)"
    and t': "fdt_ok t'" "files t' = (files t)[nat r := file]"
    using r(2) a by (auto simp: vfs_fdtable_alloc_fd_def)
  have rr: "0 \<le> r" "nat r < NOFILE" "\<not> IS_FD (files t ! nat r)"
    using r(1) \<open>\<not> r < 0\<close> by (auto simp: first_set_def split: if_splits)
  have l: "length (files t) = NOFILE" "files t ! nat r = NULL" using t(3) rr by (auto simp: fdt_ok_def)
  have at: "files t' ! nat r = file" "(files t')[nat r := NULL] = files t"
    using t'(2) rr(2) l list_update_id [of "files t" "nat r"] by simp_all
  have fr: "frefs w1 file = f_ref_count f + 1" by (simp add: frefs_def w1(3))
  have "fdts w1 fdtable = Some t'" by (simp add: w1(2))
  note g = get_file_ok [OF t(1) this rr(2), unfolded at(1), OF f(1)]
    and d = dealloc_fd_ok [OF t(1) this t'(1) rr(2), unfolded at(1), OF f(1)]
  obtain w2 where w2: "vfs_fdtable_get_file w1 fdtable (int (nat r)) = Some (file, w2)" "fdts w2 = fdts w1"
    "frefs w2 = (frefs w1)(file := frefs w1 file + 1)" using g fr f(3) by auto
  obtain t3 where t3: "vfs_fdtable_dealloc_fd w1 fdtable (int (nat r)) =
      Some (file, w1\<lparr>fdts := (fdts w1)(fdtable \<mapsto> t3)\<rparr>)" "fdt_ok t3" "files t3 = files t"
    using d at(2) by auto
  have "frefs (w1\<lparr>fdts := (fdts w1)(fdtable \<mapsto> t3)\<rparr>) file = f_ref_count f + 1" using fr by (simp add: frefs_def)
  then show ?thesis using w1(1,2) w2 t3 fr rr(1,2) by auto
qed

theorem fd_alloc_get_dealloc_witness:
  "\<exists>fd w1 w3. vfs_fdtable_alloc_fd 16384 fd_demo 4096 8192 = Some (fd, w1) \<and>
     vfs_fdtable_dealloc_fd w1 4096 fd = Some (8192, w3) \<and> frefs w3 8192 = 2"
proof -
  have free: "\<not> IS_FD (files (fdtable_zero\<lparr>ref_count := 1\<rparr>) ! 0)" by (simp add: fdtable_zero_def NOFILE_def)
  obtain r where r: "first_set (\<lambda>j. nat 0 \<le> j \<and> \<not> IS_FD (files (fdtable_zero\<lparr>ref_count := 1\<rparr>) ! j)) NOFILE r"
    "r \<ge> 0 \<longrightarrow> (\<exists>w1. vfs_fdtable_alloc_fd_from 16384 fd_demo 4096 8192 0 = Some (r, w1))"
    using alloc_fd_from_ok [OF _ fd_demo_at(1) fdt_ok_zero fd_demo_at(3,2), of 0 16384] by (auto simp: NOFILE_def split: if_splits)
  have "r \<ge> 0" using r(1) free by (force simp: first_set_def NOFILE_def split: if_splits)
  then obtain w1 where w1: "vfs_fdtable_alloc_fd 16384 fd_demo 4096 8192 = Some (r, w1)"
    using r(2) by (auto simp: vfs_fdtable_alloc_fd_def)
  have "r \<noteq> - EMFILE" using \<open>r \<ge> 0\<close> by (simp add: EMFILE_def)
  then show ?thesis
    using fd_alloc_get_dealloc [OF _ fd_demo_at(1) fdt_ok_zero fd_demo_at(3,2) _ _ _ w1] w1 by fastforce
qed

text \<open>
  C11. Fork and exit: cloning a table without sharing gives a fresh well-formed table with the same
  slots and one more reference on a file per descriptor that names it; dropping that table frees it
  and returns every reference, so that all counts are as before and no file was closed.
\<close>

theorem fdtable_clone_put:
  assumes "src \<noteq> NULL" "fdts w src = Some t" "fdt_ok t" "new \<noteq> NULL" "fdts w new = None"
    and "refs_pos w" "\<And>f. f \<in> set (files t) \<Longrightarrow> IS_FD f \<Longrightarrow> vfiles w f \<noteq> None"
  shows "\<exists>d w1 w2. vfs_fdtable_clone w src False new = Some (Inr new, w1) \<and>
    fdts w1 = (fdts w)(new \<mapsto> d) \<and> fdt_ok d \<and> files d = files t \<and> ref_count d = 1 \<and>
    (\<forall>f. frefs w1 f = frefs w f + int (count_list (filter IS_FD (files t)) f)) \<and>
    vfs_fdtable_put w1 new = Some w2 \<and> fdts w2 = fdts w \<and> frefs w2 = frefs w"
proof -
  have "frefs w f > 0" if "f \<in> set (files t)" "IS_FD f" for f
    by (rule refs_posD [OF assms(6) assms(7) [OF that]])
  from clone_ok [OF assms(1-5) this] obtain d w1 where
    c: "vfs_fdtable_clone w src False new = Some (Inr new, w1)" "fdts w1 = (fdts w)(new \<mapsto> d)"
      "fdt_ok d" "files d = files t" "ref_count d = 1" "dom (vfiles w1) = dom (vfiles w)"
      "\<forall>f. frefs w1 f = frefs w f + int (count_list (filter IS_FD (files t)) f)" by blast
  have nn: "frefs w f \<ge> 0" for f
    using refs_posD [OF assms(6), of f] by (cases "vfiles w f") (simp_all add: frefs_def)
  have rp: "refs_pos w1" by (rule refs_pos_mono [OF assms(6) c(6)]) (simp add: c(7))
  have "int (count_list (files d) f) \<le> frefs w1 f" if "IS_FD f" for f
    using c(4,7) nn [of f] count_filter_eq [of IS_FD f "files t"] that by simp
  from put_last_ok [OF assms(4) _ c(3,5) rp this] c(2) obtain w2 where
    p: "vfs_fdtable_put w1 new = Some w2" "fdts w2 = (fdts w1)(new := None)"
      "\<forall>f. frefs w2 f = frefs w1 f - int (count_list (filter IS_FD (files d)) f)" by auto
  have "fdts w2 = fdts w" using p(2) c(2) assms(5) by auto
  moreover have "frefs w2 = frefs w" using p(3) c(4,7) by (simp add: fun_eq_iff)
  ultimately show ?thesis using c p(1) by blast
qed

theorem fdtable_clone_put_witness:
  "\<exists>w1 w2. vfs_fdtable_clone fd_demo 4096 False 12288 = Some (Inr 12288, w1) \<and>
     vfs_fdtable_put w1 12288 = Some w2 \<and> fdts w2 = fdts fd_demo"
proof -
  have "vfiles fd_demo f \<noteq> None" if "f \<in> set (files (fdtable_zero\<lparr>ref_count := 1\<rparr>))" "IS_FD f" for f
    using that by (auto simp: fdtable_zero_def)
  from fdtable_clone_put [OF _ fd_demo_at(1) fdt_ok_zero _ fd_demo_at(5) fd_demo_at(4) this]
  show ?thesis by auto
qed

end
