(* ===== verification/Hash_List.thy ===== *)
theory Hash_List
  imports Linked_List Bits
begin

text \<open>
  The intrusive hash list of \<open>kernel/hlist.c\<close> and \<open>kernel/inc/hlist.h\<close>: an array of buckets,
  each the head of a ring of \<open>Linked_List\<close>, with the callbacks (hash, comparison and the
  conversions between an entry and its node) stored in the list. The world holds the ring
  heap, the \<open>bucket\<close> field of every entry, the \<open>hlist_t\<close> headers and the memory the callbacks
  read, whose type is a parameter. \<open>hl_ok\<close> is the structural invariant with the contents of the
  buckets; the locale \<open>hlist_keys\<close> is the contract of the callbacks documented in
  \<open>hlist_type.h\<close>, under which the operations implement a finite map from keys to nodes.
\<close>

subsection \<open>Hash functions\<close>

definition GOLDEN_RATIO_PRIME_64 :: u64 where "GOLDEN_RATIO_PRIME_64 = 0x9e37fffffffc0001"

definition GOLDEN_RATIO_PRIME :: u64 where "GOLDEN_RATIO_PRIME = GOLDEN_RATIO_PRIME_64"

definition hlist_hash_int :: "int \<Rightarrow> u64" where
  "hlist_hash_int key =
     (let ret = word_of_int key * (0x100000001 - GOLDEN_RATIO_PRIME)
      in if ret = 0 then GOLDEN_RATIO_PRIME else ret)"

definition hlist_hash_uint64 :: "u64 \<Rightarrow> u64" where
  "hlist_hash_uint64 key =
     (let ret = key * GOLDEN_RATIO_PRIME in if ret = 0 then GOLDEN_RATIO_PRIME else ret)"

text \<open>The two loops of \<open>hlist_hash_str\<close>: whole words, then the bytes of the tail.\<close>

fun hash_str_words :: "mem \<Rightarrow> addr \<Rightarrow> nat \<Rightarrow> u64 \<Rightarrow> u64 option" where
  "hash_str_words m p 0 ret = Some ret"
| "hash_str_words m p (Suc n) ret = do {
     v \<leftarrow> load64 m p;
     hash_str_words m (p + 8) n (ret XOR v * GOLDEN_RATIO_PRIME) }"

fun hash_str_tail :: "mem \<Rightarrow> addr \<Rightarrow> nat \<Rightarrow> u64 \<Rightarrow> u64 option" where
  "hash_str_tail m p 0 tail = Some tail"
| "hash_str_tail m p (Suc n) tail = do {
     c \<leftarrow> m p;
     hash_str_tail m (p + 1) n (push_bit 8 tail OR ucast c) }"

definition hlist_hash_str :: "mem \<Rightarrow> addr \<Rightarrow> nat \<Rightarrow> u64 option" where
  "hlist_hash_str m str len = do {
     let tail_size = len mod 8;
     ret \<leftarrow> hash_str_words m str (len div 8) (GOLDEN_RATIO_PRIME * of_nat len);
     ret1 \<leftarrow> (if tail_size > 0 then do {
         tail \<leftarrow> hash_str_tail m (str + of_nat (len - tail_size)) tail_size 0;
         Some (ret XOR tail * GOLDEN_RATIO_PRIME) }
       else Some ret);
     Some (if ret1 = 0 then GOLDEN_RATIO_PRIME else ret1) }"

subsection \<open>State\<close>

definition HLIST_BUCKET_CNT_MAX :: u64 where "HLIST_BUCKET_CNT_MAX = 0xffff"

record 'm hlist_func_t =
  hash_fn :: "('m \<Rightarrow> addr \<Rightarrow> u64) option"
  get_node_fn :: "('m \<Rightarrow> addr \<Rightarrow> addr) option"
  get_entry_fn :: "('m \<Rightarrow> addr \<Rightarrow> addr) option"
  cmp_node_fn :: "('m \<Rightarrow> addr \<Rightarrow> addr \<Rightarrow> addr \<Rightarrow> int) option"

record 'm hlist_t =
  bucket_cnt :: u64
  elem_cnt :: int
  func :: "'m hlist_func_t"

record 'm hlw =
  hw_list :: list_heap
  hw_bucket :: "addr \<rightharpoonup> addr"
  hw_hlists :: "addr \<rightharpoonup> 'm hlist_t"
  hw_mem :: 'm

text \<open>
  \<open>buckets\<close> follows the 48 bytes of the header; a bucket head has 16 bytes. The pointer
  difference \<open>bucket - hlist->buckets\<close> is truncated to \<open>int\<close>, as in the code.
\<close>

definition buckets :: "addr \<Rightarrow> nat \<Rightarrow> addr" where
  "buckets hlist i = hlist + 48 + 16 * of_nat i"

definition bucket_offset :: "addr \<Rightarrow> addr \<Rightarrow> int" where
  "bucket_offset hlist bucket = sint (word_of_int (sint (bucket - buckets hlist 0) div 16) :: 32 word)"

definition set_bucket :: "'m hlw \<Rightarrow> addr \<Rightarrow> addr \<Rightarrow> 'm hlw option" where
  "set_bucket w entry v = do {
     b \<leftarrow> modify (hw_bucket w) entry (\<lambda>_. v);
     Some (w\<lparr>hw_bucket := b\<rparr>) }"

definition add_elem_cnt :: "'m hlw \<Rightarrow> addr \<Rightarrow> int \<Rightarrow> 'm hlw option" where
  "add_elem_cnt w hlist d = do {
     hs \<leftarrow> modify (hw_hlists w) hlist (\<lambda>H. H\<lparr>elem_cnt := elem_cnt H + d\<rparr>);
     Some (w\<lparr>hw_hlists := hs\<rparr>) }"

subsection \<open>Callbacks and validation\<close>

definition i_hlist_hash :: "'m hlw \<Rightarrow> addr \<Rightarrow> addr \<Rightarrow> u64 option" where
  "i_hlist_hash w hlist node = do {
     H \<leftarrow> deref (hw_hlists w) hlist; f \<leftarrow> hash_fn (func H); Some (f (hw_mem w) node) }"

definition i_hlist_get_node :: "'m hlw \<Rightarrow> addr \<Rightarrow> addr \<Rightarrow> addr option" where
  "i_hlist_get_node w hlist entry = do {
     H \<leftarrow> deref (hw_hlists w) hlist; f \<leftarrow> get_node_fn (func H); Some (f (hw_mem w) entry) }"

definition i_hlist_get_entry :: "'m hlw \<Rightarrow> addr \<Rightarrow> addr \<Rightarrow> addr option" where
  "i_hlist_get_entry w hlist node = do {
     H \<leftarrow> deref (hw_hlists w) hlist; f \<leftarrow> get_entry_fn (func H); Some (f (hw_mem w) node) }"

definition i_hlist_cmp_node :: "'m hlw \<Rightarrow> addr \<Rightarrow> addr \<Rightarrow> addr \<Rightarrow> int option" where
  "i_hlist_cmp_node w hlist node1 node2 = do {
     H \<leftarrow> deref (hw_hlists w) hlist; f \<leftarrow> cmp_node_fn (func H); Some (f (hw_mem w) hlist node1 node2) }"

definition i_hlist_validate :: "'m hlw \<Rightarrow> addr \<Rightarrow> bool option" where
  "i_hlist_validate w hlist =
     (if hlist = NULL then Some False
      else do {
        H \<leftarrow> deref (hw_hlists w) hlist;
        Some (bucket_cnt H \<noteq> 0 \<and> cmp_node_fn (func H) \<noteq> None \<and> get_node_fn (func H) \<noteq> None \<and>
              hash_fn (func H) \<noteq> None \<and> get_entry_fn (func H) \<noteq> None) })"

text \<open>
  The comparison \<open>offset < hlist->bucket_cnt\<close> is between unsigned 64-bit values.
\<close>

definition i_hlist_is_bucket_of :: "'m hlw \<Rightarrow> addr \<Rightarrow> addr \<Rightarrow> bool option" where
  "i_hlist_is_bucket_of w hlist bucket = do {
     H \<leftarrow> deref (hw_hlists w) hlist;
     let offset = bucket_offset hlist bucket;
     Some (offset \<ge> 0 \<or> word_of_int offset < bucket_cnt H) }"

definition i_hlist_get_node_bucket :: "'m hlw \<Rightarrow> addr \<Rightarrow> addr \<Rightarrow> addr option" where
  "i_hlist_get_node_bucket w hlist node =
     (if hlist = NULL \<or> node = NULL then Some NULL
      else do {
        entry \<leftarrow> i_hlist_get_entry w hlist node;
        if entry = NULL then Some NULL else deref (hw_bucket w) entry })"

definition i_hlist_calc_hash_bucket :: "'m hlw \<Rightarrow> addr \<Rightarrow> u64 \<Rightarrow> addr option" where
  "i_hlist_calc_hash_bucket w hlist hash = do {
     H \<leftarrow> deref (hw_hlists w) hlist;
     Some (buckets hlist (unat (hash mod bucket_cnt H))) }"

definition i_hlist_calc_node_bucket :: "'m hlw \<Rightarrow> addr \<Rightarrow> addr \<Rightarrow> addr option" where
  "i_hlist_calc_node_bucket w hlist node = do {
     hash \<leftarrow> i_hlist_hash w hlist node;
     i_hlist_calc_hash_bucket w hlist hash }"

subsection \<open>Entries\<close>

definition HLIST_ENTRY_ATTACHED :: "'m hlw \<Rightarrow> addr \<Rightarrow> bool option" where
  "HLIST_ENTRY_ATTACHED w entry = do { b \<leftarrow> deref (hw_bucket w) entry; Some (b \<noteq> NULL) }"

definition HLIST_EMPTY :: "'m hlw \<Rightarrow> addr \<Rightarrow> bool option" where
  "HLIST_EMPTY w hlist =
     (if hlist = NULL then Some True
      else do { H \<leftarrow> deref (hw_hlists w) hlist; Some (elem_cnt H = 0) })"

definition hlist_entry_init :: "'m hlw \<Rightarrow> addr \<Rightarrow> 'm hlw option" where
  "hlist_entry_init w entry =
     (if entry \<noteq> NULL then do {
        w1 \<leftarrow> set_bucket w entry NULL;
        h \<leftarrow> list_entry_init (hw_list w1) entry;
        Some (w1\<lparr>hw_list := h\<rparr>) }
      else Some w)"

definition hlist_entry_init_rcu :: "'m hlw \<Rightarrow> addr \<Rightarrow> 'm hlw option" where
  "hlist_entry_init_rcu w entry =
     (if entry \<noteq> NULL then do {
        w1 \<leftarrow> set_bucket w entry NULL;
        h \<leftarrow> list_entry_init_rcu (hw_list w1) entry;
        Some (w1\<lparr>hw_list := h\<rparr>) }
      else Some w)"

definition i_hlist_hash_bucket_init :: "'m hlw \<Rightarrow> addr \<Rightarrow> addr \<Rightarrow> 'm hlw option" where
  "i_hlist_hash_bucket_init w hlist bucket = do {
     h \<leftarrow> list_entry_init (hw_list w) bucket;
     Some (w\<lparr>hw_list := h\<rparr>) }"

definition i_hlist_replace_node_entry :: "'m hlw \<Rightarrow> addr \<Rightarrow> addr \<Rightarrow> 'm hlw option" where
  "i_hlist_replace_node_entry w old new = do {
     h \<leftarrow> list_entry_replace (hw_list w) old new;
     let w1 = w\<lparr>hw_list := h\<rparr>;
     b \<leftarrow> deref (hw_bucket w1) old;
     w2 \<leftarrow> set_bucket w1 new b;
     set_bucket w2 old NULL }"

definition i_hlist_insert_node_entry :: "'m hlw \<Rightarrow> addr \<Rightarrow> addr \<Rightarrow> addr \<Rightarrow> 'm hlw option" where
  "i_hlist_insert_node_entry w hlist bucket entry = do {
     h \<leftarrow> list_entry_push_back (hw_list w) bucket entry;
     w1 \<leftarrow> set_bucket (w\<lparr>hw_list := h\<rparr>) entry bucket;
     add_elem_cnt w1 hlist 1 }"

definition i_hlist_remove_node_entry :: "'m hlw \<Rightarrow> addr \<Rightarrow> addr \<Rightarrow> 'm hlw option" where
  "i_hlist_remove_node_entry w hlist entry = do {
     h \<leftarrow> list_entry_detach (hw_list w) entry;
     w1 \<leftarrow> set_bucket (w\<lparr>hw_list := h\<rparr>) entry NULL;
     add_elem_cnt w1 hlist (- 1) }"

definition hlist_entry_add_rcu :: "'m hlw \<Rightarrow> addr \<Rightarrow> addr \<Rightarrow> addr \<Rightarrow> 'm hlw option" where
  "hlist_entry_add_rcu w hlist bucket entry = do {
     h \<leftarrow> list_entry_add_rcu (hw_list w) bucket entry;
     w1 \<leftarrow> set_bucket (w\<lparr>hw_list := h\<rparr>) entry bucket;
     add_elem_cnt w1 hlist 1 }"

definition hlist_entry_del_rcu :: "'m hlw \<Rightarrow> addr \<Rightarrow> addr \<Rightarrow> 'm hlw option" where
  "hlist_entry_del_rcu w hlist entry = do {
     h \<leftarrow> list_entry_del_rcu (hw_list w) entry;
     add_elem_cnt (w\<lparr>hw_list := h\<rparr>) hlist (- 1) }"

definition hlist_entry_del_init_rcu :: "'m hlw \<Rightarrow> addr \<Rightarrow> addr \<Rightarrow> 'm hlw option" where
  "hlist_entry_del_init_rcu w hlist entry = do {
     h \<leftarrow> list_entry_del_rcu (hw_list w) entry;
     w1 \<leftarrow> hlist_entry_init_rcu (w\<lparr>hw_list := h\<rparr>) entry;
     add_elem_cnt w1 hlist (- 1) }"

definition hlist_entry_replace_rcu :: "'m hlw \<Rightarrow> addr \<Rightarrow> addr \<Rightarrow> addr \<Rightarrow> 'm hlw option" where
  "hlist_entry_replace_rcu w hlist old new = do {
     h \<leftarrow> list_entry_replace_rcu (hw_list w) old new;
     b \<leftarrow> deref (hw_bucket w) old;
     set_bucket (w\<lparr>hw_list := h\<rparr>) new b }"

subsection \<open>Search\<close>

text \<open>
  The match condition of the search calls two callbacks; both are present in a validated list,
  and \<open>cmp_is_zero\<close> is their composition.
\<close>

definition cmp_is_zero :: "'m hlw \<Rightarrow> addr \<Rightarrow> addr \<Rightarrow> addr \<Rightarrow> bool option" where
  "cmp_is_zero w hlist node pos = do {
     node1 \<leftarrow> i_hlist_get_node w hlist pos;
     c \<leftarrow> i_hlist_cmp_node w hlist node1 node;
     Some (c = 0) }"

partial_function (option) find_entry_from :: "'m hlw \<Rightarrow> addr \<Rightarrow> addr \<Rightarrow> addr \<Rightarrow> addr \<Rightarrow> addr option" where
  "find_entry_from w hlist bucket node pos =
     (if pos = NULL then Some NULL
      else do {
        tmp \<leftarrow> LIST_NEXT_NODE (hw_list w) bucket pos;
        z \<leftarrow> cmp_is_zero w hlist node pos;
        if z then Some pos else find_entry_from w hlist bucket node tmp })"

definition i_hlist_find_entry_in_bucket :: "'m hlw \<Rightarrow> addr \<Rightarrow> addr \<Rightarrow> addr \<Rightarrow> addr option" where
  "i_hlist_find_entry_in_bucket w hlist bucket node = do {
     pos \<leftarrow> LIST_FIRST_NODE (hw_list w) bucket;
     find_entry_from w hlist bucket node pos }"

definition LIST_FIRST_NODE_RCU :: "list_heap \<Rightarrow> addr \<Rightarrow> addr option" where
  "LIST_FIRST_NODE_RCU h head = do {
     first_entry \<leftarrow> get_next h head;
     Some (if head \<noteq> first_entry then first_entry else NULL) }"

definition LIST_NEXT_NODE_RCU :: "list_heap \<Rightarrow> addr \<Rightarrow> addr \<Rightarrow> addr option" where
  "LIST_NEXT_NODE_RCU h head node =
     (if node \<noteq> NULL then do {
        next_entry \<leftarrow> get_next h node;
        Some (if head \<noteq> next_entry then next_entry else NULL) }
      else Some NULL)"

definition hlist_bucket_first_entry_rcu :: "'m hlw \<Rightarrow> addr \<Rightarrow> addr option" where
  "hlist_bucket_first_entry_rcu w bucket =
     (if bucket = NULL then Some NULL else LIST_FIRST_NODE_RCU (hw_list w) bucket)"

partial_function (option) find_entry_from_rcu :: "'m hlw \<Rightarrow> addr \<Rightarrow> addr \<Rightarrow> addr \<Rightarrow> addr \<Rightarrow> addr option" where
  "find_entry_from_rcu w hlist bucket node pos =
     (if pos = NULL then Some NULL
      else do {
        z \<leftarrow> cmp_is_zero w hlist node pos;
        if z then Some pos
        else do {
          nxt \<leftarrow> LIST_NEXT_NODE_RCU (hw_list w) bucket pos;
          find_entry_from_rcu w hlist bucket node nxt } })"

definition i_hlist_find_entry_in_bucket_rcu :: "'m hlw \<Rightarrow> addr \<Rightarrow> addr \<Rightarrow> addr \<Rightarrow> addr option" where
  "i_hlist_find_entry_in_bucket_rcu w hlist bucket node = do {
     pos \<leftarrow> hlist_bucket_first_entry_rcu w bucket;
     find_entry_from_rcu w hlist bucket node pos }"

text \<open>The two results of \<open>__hlist_get\<close> are the bucket and the entry.\<close>

definition i_hlist_get :: "'m hlw \<Rightarrow> addr \<Rightarrow> addr \<Rightarrow> (addr \<times> addr) option" where
  "i_hlist_get w hlist node = do {
     hash_val \<leftarrow> i_hlist_hash w hlist node;
     if hash_val = 0 then Some (NULL, NULL)
     else do {
       bucket \<leftarrow> i_hlist_calc_hash_bucket w hlist hash_val;
       if bucket = NULL then Some (NULL, NULL)
       else do {
         entry \<leftarrow> i_hlist_find_entry_in_bucket w hlist bucket node;
         Some (bucket, entry) } } }"

definition i_hlist_get_rcu :: "'m hlw \<Rightarrow> addr \<Rightarrow> addr \<Rightarrow> (addr \<times> addr) option" where
  "i_hlist_get_rcu w hlist node = do {
     hash_val \<leftarrow> i_hlist_hash w hlist node;
     if hash_val = 0 then Some (NULL, NULL)
     else do {
       bucket \<leftarrow> i_hlist_calc_hash_bucket w hlist hash_val;
       if bucket = NULL then Some (NULL, NULL)
       else do {
         entry \<leftarrow> i_hlist_find_entry_in_bucket_rcu w hlist bucket node;
         Some (bucket, entry) } } }"

subsection \<open>The hash list operations\<close>

definition hlist_node_in_list :: "'m hlw \<Rightarrow> addr \<Rightarrow> addr \<Rightarrow> bool option" where
  "hlist_node_in_list w hlist node = do {
     bucket \<leftarrow> i_hlist_get_node_bucket w hlist node;
     if bucket = NULL \<or> hlist = NULL then Some False else i_hlist_is_bucket_of w hlist bucket }"

fun init_buckets :: "'m hlw \<Rightarrow> addr \<Rightarrow> nat \<Rightarrow> nat \<Rightarrow> 'm hlw option" where
  "init_buckets w hlist i 0 = Some w"
| "init_buckets w hlist i (Suc k) = do {
     w1 \<leftarrow> i_hlist_hash_bucket_init w hlist (buckets hlist i);
     init_buckets w1 hlist (i + 1) k }"

text \<open>A null \<open>func\<close> argument is \<open>None\<close>.\<close>

definition hlist_init :: "'m hlw \<Rightarrow> addr \<Rightarrow> u64 \<Rightarrow> 'm hlist_func_t option \<Rightarrow> (int \<times> 'm hlw) option" where
  "hlist_init w hlist cnt fn =
     (case fn of
        None \<Rightarrow> Some (- 1, w)
      | Some fs \<Rightarrow>
          if hlist = NULL then Some (- 1, w)
          else if get_entry_fn fs = None \<or> get_node_fn fs = None \<or> hash_fn fs = None \<or> cmp_node_fn fs = None
          then Some (- 1, w)
          else if cnt = 0 \<or> cnt > HLIST_BUCKET_CNT_MAX then Some (- 1, w)
          else do {
            w1 \<leftarrow> init_buckets w hlist 0 (unat cnt);
            hs \<leftarrow> modify (hw_hlists w1) hlist (\<lambda>H. H\<lparr>bucket_cnt := cnt, func := fs, elem_cnt := 0\<rparr>);
            Some (0, w1\<lparr>hw_hlists := hs\<rparr>) })"

definition hlist_get_node_hash :: "'m hlw \<Rightarrow> addr \<Rightarrow> addr \<Rightarrow> u64 option" where
  "hlist_get_node_hash w hlist node =
     (if hlist = NULL \<or> node = NULL then Some 0
      else do {
        H \<leftarrow> deref (hw_hlists w) hlist;
        if hash_fn (func H) = None then Some 0 else i_hlist_hash w hlist node })"

definition hlist_get :: "'m hlw \<Rightarrow> addr \<Rightarrow> addr \<Rightarrow> addr option" where
  "hlist_get w hlist node =
     (if node = NULL then Some NULL
      else do {
        v \<leftarrow> i_hlist_validate w hlist;
        if \<not> v then Some NULL
        else do {
          (bucket, entry) \<leftarrow> i_hlist_get w hlist node;
          if entry = NULL then Some NULL else i_hlist_get_node w hlist entry } })"

definition hlist_get_rcu :: "'m hlw \<Rightarrow> addr \<Rightarrow> addr \<Rightarrow> addr option" where
  "hlist_get_rcu w hlist node =
     (if node = NULL then Some NULL
      else do {
        v \<leftarrow> i_hlist_validate w hlist;
        if \<not> v then Some NULL
        else do {
          (bucket, entry) \<leftarrow> i_hlist_get_rcu w hlist node;
          if entry = NULL then Some NULL else i_hlist_get_node w hlist entry } })"

definition hlist_put :: "'m hlw \<Rightarrow> addr \<Rightarrow> addr \<Rightarrow> bool \<Rightarrow> (addr \<times> 'm hlw) option" where
  "hlist_put w hlist node replace = do {
     v \<leftarrow> i_hlist_validate w hlist;
     if \<not> v then Some (node, w)
     else do {
       new_entry \<leftarrow> i_hlist_get_entry w hlist node;
       if new_entry = NULL then Some (node, w)
       else do {
         att \<leftarrow> HLIST_ENTRY_ATTACHED w new_entry;
         if att then Some (node, w)
         else do {
           (bucket, entry) \<leftarrow> i_hlist_get w hlist node;
           if bucket = NULL then Some (node, w)
           else if entry = NULL then do {
             w1 \<leftarrow> i_hlist_insert_node_entry w hlist bucket new_entry;
             Some (NULL, w1) }
           else do {
             old_node \<leftarrow> i_hlist_get_node w hlist entry;
             if old_node = NULL then Some (node, w)
             else if node = old_node then Some (node, w)
             else if replace then do {
               w1 \<leftarrow> i_hlist_replace_node_entry w entry new_entry;
               Some (old_node, w1) }
             else Some (old_node, w) } } } } }"

definition hlist_put_rcu :: "'m hlw \<Rightarrow> addr \<Rightarrow> addr \<Rightarrow> bool \<Rightarrow> (addr \<times> 'm hlw) option" where
  "hlist_put_rcu w hlist node replace = do {
     v \<leftarrow> i_hlist_validate w hlist;
     if \<not> v then Some (node, w)
     else do {
       new_entry \<leftarrow> i_hlist_get_entry w hlist node;
       if new_entry = NULL then Some (node, w)
       else do {
         att \<leftarrow> HLIST_ENTRY_ATTACHED w new_entry;
         if att then Some (node, w)
         else do {
           (bucket, entry) \<leftarrow> i_hlist_get w hlist node;
           if bucket = NULL then Some (node, w)
           else if entry = NULL then do {
             w1 \<leftarrow> hlist_entry_add_rcu w hlist bucket new_entry;
             Some (NULL, w1) }
           else do {
             old_node \<leftarrow> i_hlist_get_node w hlist entry;
             if old_node = NULL then Some (node, w)
             else if node = old_node then Some (node, w)
             else if replace then do {
               w1 \<leftarrow> hlist_entry_replace_rcu w hlist entry new_entry;
               Some (old_node, w1) }
             else Some (old_node, w) } } } } }"

text \<open>
  \<open>first_nonempty\<close> is the \<open>hlist_foreach_bucket\<close> loop of the two pop operations: the first
  entry of the first bucket that is not empty.
\<close>

fun first_nonempty :: "'m hlw \<Rightarrow> addr \<Rightarrow> nat \<Rightarrow> nat \<Rightarrow> addr option" where
  "first_nonempty w hlist idx 0 = Some NULL"
| "first_nonempty w hlist idx (Suc k) = do {
     e \<leftarrow> LIST_IS_EMPTY (hw_list w) (buckets hlist idx);
     if \<not> e then get_next (hw_list w) (buckets hlist idx)
     else first_nonempty w hlist (idx + 1) k }"

definition hlist_pop :: "'m hlw \<Rightarrow> addr \<Rightarrow> addr \<Rightarrow> (addr \<times> 'm hlw) option" where
  "hlist_pop w hlist node = do {
     v \<leftarrow> i_hlist_validate w hlist;
     if \<not> v then Some (NULL, w)
     else do {
       H \<leftarrow> deref (hw_hlists w) hlist;
       if elem_cnt H = 0 then Some (NULL, w)
       else if node = NULL then do {
         entry \<leftarrow> first_nonempty w hlist 0 (unat (bucket_cnt H));
         if entry = NULL then Some (NULL, w)
         else do {
           ret_node \<leftarrow> i_hlist_get_node w hlist entry;
           w1 \<leftarrow> i_hlist_remove_node_entry w hlist entry;
           Some (ret_node, w1) } }
       else do {
         (bucket, entry) \<leftarrow> i_hlist_get w hlist node;
         if entry \<noteq> NULL then do {
           ret_node \<leftarrow> i_hlist_get_node w hlist entry;
           if ret_node \<noteq> NULL then do {
             w1 \<leftarrow> i_hlist_remove_node_entry w hlist entry;
             Some (ret_node, w1) }
           else Some (ret_node, w) }
         else Some (NULL, w) } } }"

definition hlist_pop_rcu :: "'m hlw \<Rightarrow> addr \<Rightarrow> addr \<Rightarrow> (addr \<times> 'm hlw) option" where
  "hlist_pop_rcu w hlist node = do {
     v \<leftarrow> i_hlist_validate w hlist;
     if \<not> v then Some (NULL, w)
     else do {
       H \<leftarrow> deref (hw_hlists w) hlist;
       if elem_cnt H = 0 then Some (NULL, w)
       else if node = NULL then do {
         entry \<leftarrow> first_nonempty w hlist 0 (unat (bucket_cnt H));
         if entry = NULL then Some (NULL, w)
         else do {
           ret_node \<leftarrow> i_hlist_get_node w hlist entry;
           w1 \<leftarrow> hlist_entry_del_rcu w hlist entry;
           Some (ret_node, w1) } }
       else do {
         (bucket, entry) \<leftarrow> i_hlist_get w hlist node;
         if entry \<noteq> NULL then do {
           ret_node \<leftarrow> i_hlist_get_node w hlist entry;
           if ret_node \<noteq> NULL then do {
             w1 \<leftarrow> hlist_entry_del_rcu w hlist entry;
             Some (ret_node, w1) }
           else Some (ret_node, w) }
         else Some (NULL, w) } } }"

definition hlist_len :: "'m hlw \<Rightarrow> addr \<Rightarrow> int option" where
  "hlist_len w hlist = do {
     v \<leftarrow> i_hlist_validate w hlist;
     if \<not> v then Some 0 else do { H \<leftarrow> deref (hw_hlists w) hlist; Some (elem_cnt H) } }"

subsection \<open>Iteration\<close>

definition hlist_next_bucket :: "'m hlw \<Rightarrow> addr \<Rightarrow> addr \<Rightarrow> addr option" where
  "hlist_next_bucket w hlist bucket =
     (if hlist = NULL \<or> bucket = NULL then Some NULL
      else do {
        H \<leftarrow> deref (hw_hlists w) hlist;
        let offset = bucket_offset hlist bucket;
        if offset < 0 \<or> word_of_int offset \<ge> bucket_cnt H then Some NULL
        else if word_of_int (offset + 1) < bucket_cnt H then Some (buckets hlist (nat (offset + 1)))
        else Some NULL })"

definition hlist_prev_bucket :: "'m hlw \<Rightarrow> addr \<Rightarrow> addr \<Rightarrow> addr option" where
  "hlist_prev_bucket w hlist bucket =
     (if hlist = NULL \<or> bucket = NULL then Some NULL
      else do {
        H \<leftarrow> deref (hw_hlists w) hlist;
        let offset = bucket_offset hlist bucket;
        if offset < 0 \<or> word_of_int offset \<ge> bucket_cnt H then Some NULL
        else if offset - 1 \<ge> 0 then Some (buckets hlist (nat (offset - 1)))
        else Some NULL })"

definition hlist_bucket_first_entry :: "'m hlw \<Rightarrow> addr \<Rightarrow> addr option" where
  "hlist_bucket_first_entry w bucket =
     (if bucket = NULL then Some NULL else LIST_FIRST_NODE (hw_list w) bucket)"

definition hlist_bucket_last_entry :: "'m hlw \<Rightarrow> addr \<Rightarrow> addr option" where
  "hlist_bucket_last_entry w bucket =
     (if bucket = NULL then Some NULL else LIST_LAST_NODE (hw_list w) bucket)"

text \<open>The \<open>while (next == NULL)\<close> loops that move on to the next or previous bucket.\<close>

partial_function (option) skip_empty :: "'m hlw \<Rightarrow> addr \<Rightarrow> addr \<Rightarrow> addr \<Rightarrow> addr option" where
  "skip_empty w hlist bucket nxt =
     (if nxt = NULL then do {
        b \<leftarrow> hlist_next_bucket w hlist bucket;
        if b = NULL then Some NULL
        else do { n \<leftarrow> LIST_FIRST_NODE (hw_list w) b; skip_empty w hlist b n } }
      else Some nxt)"

partial_function (option) skip_empty_inv :: "'m hlw \<Rightarrow> addr \<Rightarrow> addr \<Rightarrow> addr \<Rightarrow> addr option" where
  "skip_empty_inv w hlist bucket prv =
     (if prv = NULL then do {
        b \<leftarrow> hlist_prev_bucket w hlist bucket;
        if b = NULL then Some NULL
        else do { n \<leftarrow> LIST_LAST_NODE (hw_list w) b; skip_empty_inv w hlist b n } }
      else Some prv)"

definition hlist_next_entry :: "'m hlw \<Rightarrow> addr \<Rightarrow> addr \<Rightarrow> addr option" where
  "hlist_next_entry w hlist entry =
     (if hlist = NULL \<or> entry = NULL then Some NULL
      else do {
        bucket \<leftarrow> deref (hw_bucket w) entry;
        if bucket = NULL then Some NULL
        else do { n \<leftarrow> LIST_NEXT_NODE (hw_list w) bucket entry; skip_empty w hlist bucket n } })"

definition hlist_prev_entry :: "'m hlw \<Rightarrow> addr \<Rightarrow> addr \<Rightarrow> addr option" where
  "hlist_prev_entry w hlist entry =
     (if hlist = NULL \<or> entry = NULL then Some NULL
      else do {
        bucket \<leftarrow> deref (hw_bucket w) entry;
        if bucket = NULL then Some NULL
        else do { n \<leftarrow> LIST_PREV_NODE (hw_list w) bucket entry; skip_empty_inv w hlist bucket n } })"

fun first_entry_from :: "'m hlw \<Rightarrow> addr \<Rightarrow> nat \<Rightarrow> nat \<Rightarrow> addr option" where
  "first_entry_from w hlist i 0 = Some NULL"
| "first_entry_from w hlist i (Suc k) = do {
     entry \<leftarrow> LIST_FIRST_NODE (hw_list w) (buckets hlist i);
     if entry \<noteq> NULL then Some entry else first_entry_from w hlist (i + 1) k }"

fun last_entry_below :: "'m hlw \<Rightarrow> addr \<Rightarrow> nat \<Rightarrow> addr option" where
  "last_entry_below w hlist 0 = Some NULL"
| "last_entry_below w hlist (Suc i) = do {
     entry \<leftarrow> LIST_LAST_NODE (hw_list w) (buckets hlist i);
     if entry \<noteq> NULL then Some entry else last_entry_below w hlist i }"

definition hlist_first_entry :: "'m hlw \<Rightarrow> addr \<Rightarrow> addr option" where
  "hlist_first_entry w hlist =
     (if hlist = NULL then Some NULL
      else do { H \<leftarrow> deref (hw_hlists w) hlist; first_entry_from w hlist 0 (unat (bucket_cnt H)) })"

definition hlist_last_entry :: "'m hlw \<Rightarrow> addr \<Rightarrow> addr option" where
  "hlist_last_entry w hlist =
     (if hlist = NULL then Some NULL
      else do { H \<leftarrow> deref (hw_hlists w) hlist; last_entry_below w hlist (unat (bucket_cnt H)) })"

text \<open>
  The node iterators as the list of entries their body sees; a node is its entry minus the
  constant offset of the embedded \<open>hlist_entry_t\<close>.
\<close>

partial_function (option) hlist_walk :: "'m hlw \<Rightarrow> addr \<Rightarrow> addr \<Rightarrow> addr list option" where
  "hlist_walk w hlist entry =
     (if entry = NULL then Some []
      else do { n \<leftarrow> hlist_next_entry w hlist entry; r \<leftarrow> hlist_walk w hlist n; Some (entry # r) })"

partial_function (option) hlist_walk_inv :: "'m hlw \<Rightarrow> addr \<Rightarrow> addr \<Rightarrow> addr list option" where
  "hlist_walk_inv w hlist entry =
     (if entry = NULL then Some []
      else do { n \<leftarrow> hlist_prev_entry w hlist entry; r \<leftarrow> hlist_walk_inv w hlist n; Some (entry # r) })"

definition hlist_foreach_node :: "'m hlw \<Rightarrow> addr \<Rightarrow> addr list option" where
  "hlist_foreach_node w hlist = do { e \<leftarrow> hlist_first_entry w hlist; hlist_walk w hlist e }"

definition hlist_foreach_node_reverse :: "'m hlw \<Rightarrow> addr \<Rightarrow> addr list option" where
  "hlist_foreach_node_reverse w hlist = do { e \<leftarrow> hlist_last_entry w hlist; hlist_walk_inv w hlist e }"

subsection \<open>Buckets\<close>

lemma unat_16: "i \<le> 0xffff \<Longrightarrow> unat (16 * of_nat i :: u64) = 16 * i"
  by (simp add: unat_word_ariths unat_of_nat)

lemma buckets_inj: "i \<le> 0xffff \<Longrightarrow> j \<le> 0xffff \<Longrightarrow> buckets hlist i = buckets hlist j \<longleftrightarrow> i = j"
  using unat_16 [of i] unat_16 [of j] by (metis buckets_def add_left_cancel mult_cancel1 zero_neq_numeral)

lemma sint_of_nat_16: "i \<le> 0xffff \<Longrightarrow> sint (of_nat (16 * i) :: u64) = int (16 * i)"
proof -
  assume "i \<le> 0xffff"
  then have "signed_take_bit 63 (int (16 * i)) = int (16 * i)"
    by (intro signed_take_bit_int_eq_self) simp_all
  then show ?thesis unfolding signed_of_nat by simp
qed

lemma sint_of_nat_32: "i \<le> 0xffff \<Longrightarrow> sint (of_nat i :: 32 word) = int i"
proof -
  assume "i \<le> 0xffff"
  then have "signed_take_bit 31 (int i) = int i" by (intro signed_take_bit_int_eq_self) simp_all
  then show ?thesis unfolding signed_of_nat by simp
qed

lemma bucket_offset_buckets [simp]:
  assumes i: "i \<le> 0xffff"
  shows "bucket_offset hlist (buckets hlist i) = int i"
proof -
  have "buckets hlist i - buckets hlist 0 = of_nat (16 * i)" by (simp add: buckets_def)
  then have "bucket_offset hlist (buckets hlist i) = sint (word_of_int (int (16 * i) div 16) :: 32 word)"
    unfolding bucket_offset_def using sint_of_nat_16 [OF i] by simp
  also have "int (16 * i) div 16 = int i" by simp
  finally show ?thesis using sint_of_nat_32 [OF i] by simp
qed

definition hl_ok :: "'m hlw \<Rightarrow> addr \<Rightarrow> 'm hlist_t \<Rightarrow> addr list list \<Rightarrow> bool" where
  "hl_ok w hlist H bs \<longleftrightarrow>
     hlist \<noteq> NULL \<and> hw_hlists w hlist = Some H \<and> 0 < length bs \<and> length bs \<le> 0xffff \<and>
     bucket_cnt H = of_nat (length bs) \<and> elem_cnt H = int (sum_list (map length bs)) \<and>
     (\<forall>i<length bs. dlist (hw_list w) (buckets hlist i) (bs ! i)) \<and>
     (\<forall>i<length bs. \<forall>j<length bs. i \<noteq> j \<longrightarrow> set (bs ! i) \<inter> set (bs ! j) = {}) \<and>
     (\<forall>i<length bs. \<forall>j<length bs. buckets hlist i \<notin> set (bs ! j)) \<and>
     (\<forall>i<length bs. \<forall>e \<in> set (bs ! i). hw_bucket w e = Some (buckets hlist i))"

lemma hl_okD:
  assumes "hl_ok w hlist H bs"
  shows "deref (hw_hlists w) hlist = Some H" "hlist \<noteq> NULL" "hw_hlists w hlist = Some H"
    "bucket_cnt H = of_nat (length bs)" "unat (bucket_cnt H) = length bs" "bucket_cnt H \<noteq> 0"
    "elem_cnt H = int (sum_list (map length bs))"
    "i < length bs \<Longrightarrow> dlist (hw_list w) (buckets hlist i) (bs ! i)"
    "i < length bs \<Longrightarrow> e \<in> set (bs ! i) \<Longrightarrow> hw_bucket w e = Some (buckets hlist i)"
    "i < length bs \<Longrightarrow> j < length bs \<Longrightarrow> buckets hlist i \<notin> set (bs ! j)"
    "i < length bs \<Longrightarrow> j < length bs \<Longrightarrow> i \<noteq> j \<Longrightarrow> set (bs ! i) \<inter> set (bs ! j) = {}"
    "length bs \<le> 0xffff" "0 < length bs"
proof -
  show n: "unat (bucket_cnt H) = length bs" using assms by (simp add: hl_ok_def unat_of_nat)
  show "bucket_cnt H \<noteq> 0" using n assms by (auto simp: hl_ok_def)
qed (use assms in \<open>auto simp: hl_ok_def deref_def\<close>)

lemma hl_ok_entry:
  assumes "hl_ok w hlist H bs" "i < length bs" "e \<in> set (bs ! i)"
  shows "e \<noteq> NULL" "alloc (hw_list w) e" "alloc (hw_bucket w) e" "deref (hw_bucket w) e = Some (buckets hlist i)"
    "buckets hlist i \<noteq> NULL"
proof -
  show a: "alloc (hw_list w) e" using dlist_alloc [OF hl_okD(8) [OF assms(1,2)]] assms(3) by simp
  then show e: "e \<noteq> NULL" by (rule alloc_not_NULL)
  show "deref (hw_bucket w) e = Some (buckets hlist i)" using hl_okD(9) [OF assms] e by (simp add: deref_def)
  then show "alloc (hw_bucket w) e" by (rule deref_SomeD)
  show "buckets hlist i \<noteq> NULL" using dlist_alloc [OF hl_okD(8) [OF assms(1,2)]] by (auto dest: alloc_not_NULL)
qed

lemma bucket_not_NULL: "hl_ok w hlist H bs \<Longrightarrow> i < length bs \<Longrightarrow> buckets hlist i \<noteq> NULL"
  using dlist_alloc [OF hl_okD(8)] alloc_not_NULL by blast

lemma hl_ok_nonempty:
  assumes "hl_ok w hlist H bs" "i < length bs" "bs ! i \<noteq> []"
  shows "elem_cnt H \<noteq> 0"
proof -
  have "0 < length (bs ! i)" using assms(3) by simp
  moreover have "length (bs ! i) \<le> sum_list (map length bs)"
    using elem_le_sum_list [of i "map length bs"] assms(2) by simp
  ultimately have "0 < int (sum_list (map length bs))" by linarith
  then show ?thesis using hl_okD(7) [OF assms(1)] by linarith
qed

text \<open>An operation rewrites one bucket; the entry \<open>e\<close> is the one that enters or leaves it.\<close>

lemma hl_ok_update:
  assumes ok: "hl_ok w hlist H bs" and i: "i < length bs"
    and d: "dlist h' (buckets hlist i) xs'" "set xs' \<subseteq> insert e (set (bs ! i))"
      "same_off (insert e (insert (buckets hlist i) (set (bs ! i)))) (hw_list w) h'"
    and e: "\<And>j. j < length bs \<Longrightarrow> j \<noteq> i \<Longrightarrow> e \<notin> set (bs ! j)" "\<And>j. j < length bs \<Longrightarrow> e \<noteq> buckets hlist j"
    and b: "\<And>x. x \<in> set xs' \<Longrightarrow> b' x = Some (buckets hlist i)"
      "\<And>x j. j < length bs \<Longrightarrow> j \<noteq> i \<Longrightarrow> x \<in> set (bs ! j) \<Longrightarrow> b' x = hw_bucket w x"
    and H': "bucket_cnt H' = bucket_cnt H" "elem_cnt H' = elem_cnt H + int (length xs') - int (length (bs ! i))"
    and w': "hw_list w' = h'" "hw_bucket w' = b'" "hw_hlists w' = (hw_hlists w)(hlist \<mapsto> H')"
  shows "hl_ok w' hlist H' (bs[i := xs'])"
proof -
  note D = hl_okD [OF ok]
  have sum: "int (sum_list (map length (bs[i := xs']))) =
      int (sum_list (map length bs)) + int (length xs') - int (length (bs ! i))"
    using i elem_le_sum_list [of i "map length bs"] by (simp add: map_update sum_list_update of_nat_diff)
  have oth: "dlist h' (buckets hlist j) (bs ! j)" if j: "j < length bs" "j \<noteq> i" for j
  proof (rule same_off_dlist [OF d(3) _ D(8) [OF j(1)]])
    have "buckets hlist j \<noteq> buckets hlist i" using j i D(12) by (subst buckets_inj) auto
    moreover have "buckets hlist j \<noteq> e" "e \<notin> set (bs ! j)" using e j by auto
    moreover have "buckets hlist i \<notin> set (bs ! j)" "buckets hlist j \<notin> set (bs ! i)"
      using D(10) i j(1) by auto
    moreover have "set (bs ! j) \<inter> set (bs ! i) = {}" using D(11) [of j i] i j by auto
    ultimately show "insert (buckets hlist j) (set (bs ! j)) \<inter> insert e (insert (buckets hlist i) (set (bs ! i))) = {}"
      by blast
  qed
  have dis: "set xs' \<inter> set (bs ! j) = {}" if "j < length bs" "j \<noteq> i" for j
    using d(2) e(1) [OF that] D(11) [of i j] i that by blast
  have hd: "buckets hlist j \<notin> set xs'" if "j < length bs" for j
    using d(2) e(2) [OF that] D(10) [of j i] i that by blast
  show ?thesis
    unfolding hl_ok_def w' length_list_update
  proof (intro conjI allI impI ballI)
    fix j assume j: "j < length bs"
    show "dlist h' (buckets hlist j) (bs[i := xs'] ! j)" using j d(1) oth by (cases "j = i") auto
    fix k assume k: "k < length bs"
    show "buckets hlist j \<notin> set (bs[i := xs'] ! k)" using j k hd D(10) by (cases "k = i") auto
    assume "j \<noteq> k"
    then show "set (bs[i := xs'] ! j) \<inter> set (bs[i := xs'] ! k) = {}"
      using j k dis [of j] dis [of k] D(11) [of j k] by (cases "j = i"; cases "k = i") auto
  next
    fix j x assume j: "j < length bs" "x \<in> set (bs[i := xs'] ! j)"
    then show "b' x = Some (buckets hlist j)" using b D(9) [of j x] i by (cases "j = i") auto
  qed (use D H' sum in auto)
qed

subsection \<open>The entry operations refine list operations on one bucket\<close>

lemma set_bucket_ok:
  "alloc (hw_bucket w) e \<Longrightarrow> set_bucket w e v = Some (w\<lparr>hw_bucket := (hw_bucket w)(e \<mapsto> v)\<rparr>)"
  by (auto simp: set_bucket_def modify_def alloc_iff_deref)

lemma add_elem_cnt_ok:
  "deref (hw_hlists w) hl = Some H \<Longrightarrow>
   add_elem_cnt w hl d = Some (w\<lparr>hw_hlists := (hw_hlists w)(hl \<mapsto> H\<lparr>elem_cnt := elem_cnt H + d\<rparr>)\<rparr>)"
  by (simp add: add_elem_cnt_def modify_Some)

definition fresh_entry :: "'m hlw \<Rightarrow> addr \<Rightarrow> addr list list \<Rightarrow> addr \<Rightarrow> bool" where
  "fresh_entry w hlist bs e \<longleftrightarrow> alloc (hw_list w) e \<and> hw_bucket w e = Some NULL \<and>
     (\<forall>j<length bs. e \<notin> set (bs ! j) \<and> e \<noteq> buckets hlist j)"

text \<open>An operation touches only the rings and the entry it moves.\<close>

definition ring_nodes :: "addr \<Rightarrow> addr list list \<Rightarrow> addr set" where
  "ring_nodes hlist bs = {z. \<exists>i<length bs. z = buckets hlist i \<or> z \<in> set (bs ! i)}"

definition hl_frame :: "addr \<Rightarrow> addr list list \<Rightarrow> addr \<Rightarrow> 'm hlw \<Rightarrow> 'm hlw \<Rightarrow> bool" where
  "hl_frame hlist bs e w w' \<longleftrightarrow> same_off (insert e (ring_nodes hlist bs)) (hw_list w) (hw_list w') \<and>
     (\<forall>x. x \<noteq> e \<longrightarrow> hw_bucket w' x = hw_bucket w x) \<and> hw_mem w' = hw_mem w"

lemma ring_nodes_bucket:
  "i < length bs \<Longrightarrow> insert (buckets hlist i) (set (bs ! i)) \<subseteq> ring_nodes hlist bs"
  by (auto simp: ring_nodes_def)

lemma hl_frameI:
  assumes "i < length bs" "same_off S (hw_list w) (hw_list w')" "S \<subseteq> insert e (insert (buckets hlist i) (set (bs ! i)))"
    and "\<And>x. x \<noteq> e \<Longrightarrow> hw_bucket w' x = hw_bucket w x" "hw_mem w' = hw_mem w"
  shows "hl_frame hlist bs e w w'"
  using same_off_mono [OF assms(2), of "insert e (ring_nodes hlist bs)"] assms ring_nodes_bucket [OF assms(1), of hlist]
  by (auto simp: hl_frame_def)

lemma hl_frame_mem: "hl_frame hlist bs e w w' \<Longrightarrow> hw_mem w' = hw_mem w"
  by (simp add: hl_frame_def)

lemma insert_entry_ok:
  assumes ok: "hl_ok w hlist H bs" and i: "i < length bs" and e: "fresh_entry w hlist bs e"
    and ins: "\<exists>h'. ins (hw_list w) (buckets hlist i) e = Some h' \<and> dlist h' (buckets hlist i) (e # bs ! i) \<and>
      same_off (insert e (insert (buckets hlist i) (set (bs ! i)))) (hw_list w) h'"
  shows "\<exists>w' H'. (do { h \<leftarrow> ins (hw_list w) (buckets hlist i) e;
      w1 \<leftarrow> set_bucket (w\<lparr>hw_list := h\<rparr>) e (buckets hlist i); add_elem_cnt w1 hlist 1 }) = Some w' \<and>
    hl_ok w' hlist H' (bs[i := e # bs ! i]) \<and> func H' = func H \<and> hl_frame hlist bs e w w'"
proof -
  obtain h' where h': "ins (hw_list w) (buckets hlist i) e = Some h'" "dlist h' (buckets hlist i) (e # bs ! i)"
    "same_off (insert e (insert (buckets hlist i) (set (bs ! i)))) (hw_list w) h'" using ins by blast
  let ?H = "H\<lparr>elem_cnt := elem_cnt H + 1\<rparr>"
  let ?w = "w\<lparr>hw_list := h', hw_bucket := (hw_bucket w)(e \<mapsto> buckets hlist i), hw_hlists := (hw_hlists w)(hlist \<mapsto> ?H)\<rparr>"
  have en: "e \<noteq> NULL" using e by (auto simp: fresh_entry_def dest: alloc_not_NULL)
  have "alloc (hw_bucket w) e" using e en by (auto simp: fresh_entry_def alloc_def)
  moreover have "hl_ok ?w hlist ?H (bs[i := e # bs ! i])"
    by (rule hl_ok_update [OF ok i h'(2) _ h'(3)])
       (use e hl_okD(9) [OF ok] hl_okD(9) [OF ok i] in \<open>auto simp: fresh_entry_def\<close>)
  moreover have "hl_frame hlist bs e w ?w" by (rule hl_frameI [OF i _ subset_refl]) (use h'(3) in simp_all)
  ultimately show ?thesis using h'(1) hl_okD(1) [OF ok]
    by (intro exI [of _ ?w] exI [of _ ?H]) (simp add: set_bucket_ok add_elem_cnt_ok)
qed

lemma remove_entry_ok:
  assumes ok: "hl_ok w hlist H bs" and i: "i < length bs" "bs ! i = xs @ e # ys"
    and h': "dlist h' (buckets hlist i) (xs @ ys)"
      "same_off (insert (buckets hlist i) (set (bs ! i))) (hw_list w) h'"
    and w': "hw_list w' = h'" "hw_bucket w' = hw_bucket w \<or> hw_bucket w' = (hw_bucket w)(e \<mapsto> v)"
      "hw_hlists w' = (hw_hlists w)(hlist \<mapsto> H\<lparr>elem_cnt := elem_cnt H - 1\<rparr>)"
  shows "hl_ok w' hlist (H\<lparr>elem_cnt := elem_cnt H - 1\<rparr>) (bs[i := xs @ ys])"
proof (rule hl_ok_update [OF ok i(1) h'(1), where e = e])
  have e: "e \<in> set (bs ! i)" using i(2) by simp
  then show "same_off (insert e (insert (buckets hlist i) (set (bs ! i)))) (hw_list w) h'"
    using h'(2) by (simp add: insert_absorb insert_commute)
  show "e \<notin> set (bs ! j)" if "j < length bs" "j \<noteq> i" for j
    using hl_okD(11) [OF ok, of i j] i(1) that e by blast
  show "e \<noteq> buckets hlist j" if "j < length bs" for j using hl_okD(10) [OF ok that i(1)] e by auto
  have ne: "e \<notin> set (xs @ ys)" using hl_okD(8) [OF ok i(1)] i(2) by (auto simp: dlist_def)
  then show "hw_bucket w' x = Some (buckets hlist i)" if "x \<in> set (xs @ ys)" for x
    using hl_okD(9) [OF ok i(1), of x] i(2) w'(2) that by (cases "x = e") auto
  fix x j assume "j < length bs" "j \<noteq> i" "x \<in> set (bs ! j)"
  moreover from this have "x \<noteq> e" using hl_okD(11) [OF ok, of i j] i(1) e by blast
  ultimately show "hw_bucket w' x = hw_bucket w x" using w'(2) by auto
qed (use i w' in auto)

lemma replace_entry_ok:
  assumes ok: "hl_ok w hlist H bs" and i: "i < length bs" "bs ! i = xs @ old # ys"
    and e: "fresh_entry w hlist bs e"
    and h': "dlist h' (buckets hlist i) (xs @ e # ys)"
      "same_off (insert e (insert (buckets hlist i) (set (bs ! i)))) (hw_list w) h'"
    and w': "hw_list w' = h'" "hw_bucket w' = (hw_bucket w)(e \<mapsto> buckets hlist i) \<or>
        hw_bucket w' = (hw_bucket w)(e \<mapsto> buckets hlist i, old \<mapsto> NULL)" "hw_hlists w' = hw_hlists w"
  shows "hl_ok w' hlist H (bs[i := xs @ e # ys])"
proof (rule hl_ok_update [OF ok i(1) h'(1) _ h'(2)])
  have ne: "old \<notin> set (xs @ ys)" "old \<noteq> e" using hl_okD(8) [OF ok i(1)] i e by (auto simp: dlist_def fresh_entry_def)
  then show "hw_bucket w' x = Some (buckets hlist i)" if "x \<in> set (xs @ e # ys)" for x
    using hl_okD(9) [OF ok i(1), of x] i(2) w'(2) that by (cases "x = e"; cases "x = old") auto
  fix x j assume j: "j < length bs" "j \<noteq> i" "x \<in> set (bs ! j)"
  moreover have "old \<in> set (bs ! i)" using i(2) by simp
  ultimately have "x \<noteq> e" "x \<noteq> old" using hl_okD(11) [OF ok, of i j] i(1) e by (auto simp: fresh_entry_def)
  then show "hw_bucket w' x = hw_bucket w x" using w'(2) by auto
qed (use i w' e hl_okD(3) [OF ok] in \<open>auto simp: fresh_entry_def\<close>)

subsection \<open>Search\<close>

lemma find_entry_ok:
  assumes "dlist (hw_list w) bucket (xs @ ys)"
    and "\<And>e. e \<in> set ys \<Longrightarrow> cmp_is_zero w hlist node e = Some (P e)"
  shows "find_entry_from w hlist bucket node (if ys = [] then NULL else hd ys) =
    Some (case filter P ys of [] \<Rightarrow> NULL | y # _ \<Rightarrow> y)"
  using assms
proof (induction ys arbitrary: xs)
  case (Cons y ys)
  have "y \<noteq> NULL" using dlist_alloc [OF Cons.prems(1), of y] by (auto dest: alloc_not_NULL)
  moreover have "find_entry_from w hlist bucket node (if ys = [] then NULL else hd ys) =
      Some (case filter P ys of [] \<Rightarrow> NULL | y # _ \<Rightarrow> y)"
    by (rule Cons.IH [of "xs @ [y]"]) (use Cons.prems in auto)
  ultimately show ?case
    using Cons.prems(2) [of y] LIST_NEXT_NODE_ok [OF Cons.prems(1)]
    by (subst find_entry_from.simps) auto
qed (simp add: find_entry_from.simps)

lemma LIST_NODE_RCU_eq [simp]:
  "LIST_FIRST_NODE_RCU = LIST_FIRST_NODE" "LIST_NEXT_NODE_RCU = LIST_NEXT_NODE"
  by (auto simp: fun_eq_iff LIST_FIRST_NODE_RCU_def LIST_FIRST_NODE_def LIST_NEXT_NODE_RCU_def LIST_NEXT_NODE_def)

lemma find_entry_rcu_ok:
  assumes "dlist (hw_list w) bucket (xs @ ys)"
    and "\<And>e. e \<in> set ys \<Longrightarrow> cmp_is_zero w hlist node e = Some (P e)"
  shows "find_entry_from_rcu w hlist bucket node (if ys = [] then NULL else hd ys) =
    Some (case filter P ys of [] \<Rightarrow> NULL | y # _ \<Rightarrow> y)"
  using assms
proof (induction ys arbitrary: xs)
  case (Cons y ys)
  have "y \<noteq> NULL" using dlist_alloc [OF Cons.prems(1), of y] by (auto dest: alloc_not_NULL)
  moreover have "find_entry_from_rcu w hlist bucket node (if ys = [] then NULL else hd ys) =
      Some (case filter P ys of [] \<Rightarrow> NULL | y # _ \<Rightarrow> y)"
    by (rule Cons.IH [of "xs @ [y]"]) (use Cons.prems in auto)
  ultimately show ?case
    using Cons.prems(2) [of y] LIST_NEXT_NODE_ok [OF Cons.prems(1)]
    by (subst find_entry_from_rcu.simps) auto
qed (simp add: find_entry_from_rcu.simps)

subsection \<open>Keys\<close>

text \<open>
  \<open>hl_keyed\<close>: every entry sits in the bucket of its hash, its node is not null, and no two entries
  have the same key. \<open>hl_map\<close> is the finite map a hash list stands for.
\<close>

definition hl_keyed :: "(addr \<Rightarrow> u64) \<Rightarrow> (addr \<Rightarrow> addr) \<Rightarrow> (addr \<Rightarrow> 'k) \<Rightarrow> addr list list \<Rightarrow> bool" where
  "hl_keyed hash nd key bs \<longleftrightarrow>
     (\<forall>i<length bs. \<forall>e \<in> set (bs ! i). unat (hash (nd e) mod of_nat (length bs)) = i \<and> nd e \<noteq> NULL) \<and>
     (\<forall>i<length bs. \<forall>j<length bs. \<forall>e \<in> set (bs ! i). \<forall>f \<in> set (bs ! j). key (nd e) = key (nd f) \<longrightarrow> e = f)"

definition hl_map :: "(addr \<Rightarrow> addr) \<Rightarrow> (addr \<Rightarrow> 'k) \<Rightarrow> addr list list \<Rightarrow> 'k \<rightharpoonup> addr" where
  "hl_map nd key bs = map_of (map (\<lambda>e. (key (nd e), nd e)) (concat bs))"

lemma map_of_inj:
  assumes "\<And>e f. e \<in> set xs \<Longrightarrow> f \<in> set xs \<Longrightarrow> k e = k f \<Longrightarrow> e = f"
  shows "map_of (map (\<lambda>e. (k e, v e)) xs) x = Some n \<longleftrightarrow> (\<exists>e \<in> set xs. k e = x \<and> v e = n)"
  using assms
proof (induction xs)
  case (Cons a xs)
  have "map_of (map (\<lambda>e. (k e, v e)) xs) x = Some n \<longleftrightarrow> (\<exists>e \<in> set xs. k e = x \<and> v e = n)"
    by (rule Cons.IH) (use Cons.prems in auto)
  moreover have "e = a" if "e \<in> set xs" "k e = k a" for e using Cons.prems [of e a] that by auto
  ultimately show ?case by auto
qed simp

definition entries :: "addr list list \<Rightarrow> addr set" where
  "entries bs = {e. \<exists>i<length bs. e \<in> set (bs ! i)}"

lemma set_concat_entries: "set (concat bs) = entries bs"
  by (auto simp: entries_def) (metis in_set_conv_nth, metis nth_mem)

lemma hl_map_Some:
  assumes "hl_keyed hash nd key bs"
  shows "hl_map nd key bs k = Some n \<longleftrightarrow> (\<exists>e \<in> entries bs. key (nd e) = k \<and> nd e = n)"
  unfolding hl_map_def set_concat_entries [symmetric]
  by (rule map_of_inj) (use assms in \<open>unfold set_concat_entries entries_def hl_keyed_def, blast\<close>)

lemma hl_map_None:
  assumes "hl_keyed hash nd key bs"
  shows "hl_map nd key bs k = None \<longleftrightarrow> (\<forall>e \<in> entries bs. key (nd e) \<noteq> k)"
  using hl_map_Some [OF assms, of k] by (metis not_None_eq)

lemma hl_keyed_update:
  assumes k: "hl_keyed hash nd key bs" and i: "i < length bs" and xs: "set xs' \<subseteq> insert e (set (bs ! i))"
    and e: "e \<in> set xs' \<Longrightarrow> nd e \<noteq> NULL \<and> unat (hash (nd e) mod of_nat (length bs)) = i"
      "\<And>j f. e \<in> set xs' \<Longrightarrow> j < length bs \<Longrightarrow> f \<in> set (bs ! j) \<Longrightarrow> j = i \<longrightarrow> f \<in> set xs' \<Longrightarrow>
        key (nd f) = key (nd e) \<Longrightarrow> f = e"
  shows "hl_keyed hash nd key (bs[i := xs'])"
proof -
  have old: "x \<in> set (bs ! j) \<or> j = i \<and> x = e \<and> e \<in> set xs'"
    if "j < length bs" "x \<in> set (bs[i := xs'] ! j)" for j x
    using that xs by (cases "j = i") auto
  have sub: "j = i \<longrightarrow> x \<in> set xs'" if "x \<in> set (bs[i := xs'] ! j)" for j x
    using that i by auto
  show ?thesis
    unfolding hl_keyed_def length_list_update
  proof (intro conjI allI ballI impI)
    fix j x assume jx: "j < length bs" "x \<in> set (bs[i := xs'] ! j)"
    show "unat (hash (nd x) mod of_nat (length bs)) = j" "nd x \<noteq> NULL"
      using old [OF jx] k e(1) jx(1) by (auto simp: hl_keyed_def)
    fix j' y assume jy: "j' < length bs" "y \<in> set (bs[i := xs'] ! j')" "key (nd x) = key (nd y)"
    show "x = y"
      using old [OF jx] old [OF jy(1,2)] sub [OF jx(2)] sub [OF jy(2)] jx(1) jy(1,3) k e(2)
      unfolding hl_keyed_def by metis
  qed
qed

text \<open>The three updates of the map.\<close>

lemma map_ext_Some: "(\<And>x v. f x = Some v \<longleftrightarrow> g x = Some v) \<Longrightarrow> f = g"
  by (metis (full_types) not_None_eq ext)

lemma entries_at: "j < length bs \<Longrightarrow> e \<in> set (bs ! j) \<Longrightarrow> e \<in> entries bs"
  by (auto simp: entries_def)

lemma entries_insert: "i < length bs \<Longrightarrow> entries (bs[i := e # bs ! i]) = insert e (entries bs)"
  by (auto simp: entries_def nth_list_update split: if_splits)

lemma entries_remove:
  assumes "hl_ok w hlist H bs" "i < length bs" "bs ! i = xs @ e # ys"
  shows "entries (bs[i := xs @ ys]) = entries bs - {e}"
proof -
  have "e \<notin> set (bs ! j)" if "j < length bs" "j \<noteq> i" for j
    using hl_okD(11) [OF assms(1), of i j] assms(2,3) that by auto
  moreover have "e \<notin> set (xs @ ys)" using hl_okD(8) [OF assms(1,2)] assms(3) by (auto simp: dlist_def)
  ultimately show ?thesis using assms(2,3) by (fastforce simp: entries_def nth_list_update split: if_splits)
qed

lemma entries_replace:
  assumes "hl_ok w hlist H bs" "i < length bs" "bs ! i = xs @ old # ys"
  shows "entries (bs[i := xs @ e # ys]) = insert e (entries bs - {old})"
proof -
  have "entries (bs[i := xs @ e # ys]) = insert e (entries (bs[i := xs @ ys]))"
    using assms(2) by (auto simp: entries_def nth_list_update split: if_splits)
  then show ?thesis using entries_remove [OF assms] by simp
qed

lemma hl_map_insert:
  assumes k: "hl_keyed hash nd key bs" and i: "i < length bs" "nd e \<noteq> NULL"
    and h: "unat (hash (nd e) mod of_nat (length bs)) = i" and n: "hl_map nd key bs (key (nd e)) = None"
  shows "hl_keyed hash nd key (bs[i := e # bs ! i])"
    "hl_map nd key (bs[i := e # bs ! i]) = (hl_map nd key bs)(key (nd e) \<mapsto> nd e)"
proof -
  have no: "key (nd f) \<noteq> key (nd e)" if "f \<in> entries bs" for f
    using n that unfolding hl_map_None [OF k] by blast
  show k': "hl_keyed hash nd key (bs[i := e # bs ! i])"
  proof (rule hl_keyed_update [OF k i(1), where e = e])
    fix j f assume "j < length bs" "f \<in> set (bs ! j)" "key (nd f) = key (nd e)"
    then show "f = e" using no [OF entries_at] by blast
  qed (use i h in auto)
  show "hl_map nd key (bs[i := e # bs ! i]) = (hl_map nd key bs)(key (nd e) \<mapsto> nd e)"
    by (rule map_ext_Some)
       (use no in \<open>auto simp: hl_map_Some [OF k'] entries_insert [OF i(1)] hl_map_Some [OF k]\<close>)
qed

lemma hl_map_remove:
  assumes k: "hl_keyed hash nd key bs" and ok: "hl_ok w hlist H bs" and i: "i < length bs" "bs ! i = xs @ e # ys"
  shows "hl_keyed hash nd key (bs[i := xs @ ys])"
    "hl_map nd key (bs[i := xs @ ys]) = (hl_map nd key bs)(key (nd e) := None)"
    "hl_map nd key bs (key (nd e)) = Some (nd e)"
proof -
  have e: "e \<in> entries bs" using entries_at [OF i(1)] i(2) by simp
  then show "hl_map nd key bs (key (nd e)) = Some (nd e)" by (auto simp: hl_map_Some [OF k])
  have eq: "f = e" if "f \<in> entries bs" "key (nd f) = key (nd e)" for f
    using k e that unfolding hl_keyed_def entries_def by blast
  have ne: "e \<notin> set (xs @ ys)" using hl_okD(8) [OF ok i(1)] i(2) by (auto simp: dlist_def)
  show k': "hl_keyed hash nd key (bs[i := xs @ ys])"
    by (rule hl_keyed_update [OF k i(1), where e = e]) (use i ne in auto)
  show "hl_map nd key (bs[i := xs @ ys]) = (hl_map nd key bs)(key (nd e) := None)"
    by (rule map_ext_Some)
       (use eq in \<open>auto simp: hl_map_Some [OF k'] entries_remove [OF ok i] hl_map_Some [OF k]\<close>)
qed

lemma hl_map_replace:
  assumes k: "hl_keyed hash nd key bs" and ok: "hl_ok w hlist H bs" and i: "i < length bs" "bs ! i = xs @ old # ys"
    and e: "nd e \<noteq> NULL" "key (nd e) = key (nd old)" "hash (nd e) = hash (nd old)"
  shows "hl_keyed hash nd key (bs[i := xs @ e # ys])"
    "hl_map nd key (bs[i := xs @ e # ys]) = (hl_map nd key bs)(key (nd e) \<mapsto> nd e)"
proof -
  have o: "old \<in> entries bs" "old \<in> set (bs ! i)" using entries_at [OF i(1)] i(2) by simp_all
  have eq: "f = old" if "f \<in> entries bs" "key (nd f) = key (nd old)" for f
    using k o that unfolding hl_keyed_def entries_def by blast
  have ne: "old \<notin> set (xs @ ys)" using hl_okD(8) [OF ok i(1)] i(2) by (auto simp: dlist_def)
  have dis: "old \<notin> set (bs ! j)" if "j < length bs" "j \<noteq> i" for j
    using hl_okD(11) [OF ok, of i j] i(1) o(2) that by auto
  show k': "hl_keyed hash nd key (bs[i := xs @ e # ys])"
  proof (rule hl_keyed_update [OF k i(1), where e = e])
    show "nd e \<noteq> NULL \<and> unat (hash (nd e) mod of_nat (length bs)) = i"
      using k i(1) o(2) e unfolding hl_keyed_def by auto
    fix j f assume f: "j < length bs" "f \<in> set (bs ! j)" "j = i \<longrightarrow> f \<in> set (xs @ e # ys)" "key (nd f) = key (nd e)"
    then have "f = old" using eq [OF entries_at] e(2) by simp
    then show "f = e" using f ne dis by (cases "j = i") auto
  qed (use i in auto)
  show "hl_map nd key (bs[i := xs @ e # ys]) = (hl_map nd key bs)(key (nd e) \<mapsto> nd e)"
    by (rule map_ext_Some)
       (use eq e(2) in \<open>auto simp: hl_map_Some [OF k'] entries_replace [OF ok i] hl_map_Some [OF k]\<close>)
qed

subsection \<open>The contract of the callbacks\<close>

definition hl_funcs ::
    "('m \<Rightarrow> addr \<Rightarrow> u64) \<Rightarrow> ('m \<Rightarrow> addr \<Rightarrow> addr) \<Rightarrow> ('m \<Rightarrow> addr \<Rightarrow> addr) \<Rightarrow>
     ('m \<Rightarrow> addr \<Rightarrow> addr \<Rightarrow> addr \<Rightarrow> int) \<Rightarrow> 'm hlist_func_t" where
  "hl_funcs hash get_node get_entry cmp =
     \<lparr>hash_fn = Some hash, get_node_fn = Some get_node, get_entry_fn = Some get_entry, cmp_node_fn = Some cmp\<rparr>"

locale hlist_keys =
  fixes hash :: "'m \<Rightarrow> addr \<Rightarrow> u64" and get_node :: "'m \<Rightarrow> addr \<Rightarrow> addr"
    and get_entry :: "'m \<Rightarrow> addr \<Rightarrow> addr" and cmp :: "'m \<Rightarrow> addr \<Rightarrow> addr \<Rightarrow> addr \<Rightarrow> int"
    and key :: "'m \<Rightarrow> addr \<Rightarrow> 'k"
  assumes cmp_key: "cmp m hl a b = 0 \<longleftrightarrow> key m a = key m b"
    and hash_key: "key m a = key m b \<Longrightarrow> hash m a = hash m b"
    and hash_valid: "hash m a \<noteq> 0"
    and node_of_entry: "get_node m (get_entry m a) = a"
    and entry_of_node: "get_entry m (get_node m e) = e"
begin

abbreviation keyed :: "'m hlw \<Rightarrow> addr list list \<Rightarrow> bool" where
  "keyed w bs \<equiv> hl_keyed (hash (hw_mem w)) (get_node (hw_mem w)) (key (hw_mem w)) bs"

abbreviation contents :: "'m hlw \<Rightarrow> addr list list \<Rightarrow> 'k \<rightharpoonup> addr" where
  "contents w bs \<equiv> hl_map (get_node (hw_mem w)) (key (hw_mem w)) bs"

abbreviation funcs :: "'m hlist_func_t" where
  "funcs \<equiv> hl_funcs hash get_node get_entry cmp"

lemma callbacks:
  assumes "hl_ok w hl H bs" "func H = funcs"
  shows "i_hlist_validate w hl = Some True" "i_hlist_hash w hl n = Some (hash (hw_mem w) n)"
    "i_hlist_get_node w hl e = Some (get_node (hw_mem w) e)" "i_hlist_get_entry w hl n = Some (get_entry (hw_mem w) n)"
    "cmp_is_zero w hl n e = Some (key (hw_mem w) (get_node (hw_mem w) e) = key (hw_mem w) n)"
  using hl_okD [OF assms(1)] assms(2)
  by (simp_all add: i_hlist_validate_def i_hlist_hash_def i_hlist_get_node_def i_hlist_get_entry_def
      cmp_is_zero_def i_hlist_cmp_node_def hl_funcs_def cmp_key)

lemma bucket_of:
  assumes "hl_ok w hl H bs" and i_def: "i = unat (hash (hw_mem w) n mod of_nat (length bs))"
  shows "i < length bs" "i_hlist_calc_hash_bucket w hl (hash (hw_mem w) n) = Some (buckets hl i)" "buckets hl i \<noteq> NULL"
proof -
  have "unat (of_nat (length bs) :: u64) = length bs" using hl_okD(4,5) [OF assms(1)] by simp
  then show i: "i < length bs" using hl_okD(13) [OF assms(1)] by (simp add: i_def unat_mod)
  show "i_hlist_calc_hash_bucket w hl (hash (hw_mem w) n) = Some (buckets hl i)"
    using hl_okD(1,4) [OF assms(1)] by (simp add: i_hlist_calc_hash_bucket_def i_def)
  show "buckets hl i \<noteq> NULL" by (rule bucket_not_NULL [OF assms(1) i])
qed

text \<open>The lookup of a key: absent, or an entry at a place of its bucket.\<close>

lemma lookup_cases:
  assumes ok: "hl_ok w hl H bs" "func H = funcs" "keyed w bs"
  obtains (absent) i where "i = unat (hash (hw_mem w) n mod of_nat (length bs))" "i < length bs"
      "i_hlist_get w hl n = Some (buckets hl i, NULL)" "i_hlist_get_rcu w hl n = Some (buckets hl i, NULL)"
      "buckets hl i \<noteq> NULL" "contents w bs (key (hw_mem w) n) = None"
  | (present) i xs e ys where "i < length bs" "bs ! i = xs @ e # ys"
      "i_hlist_get w hl n = Some (buckets hl i, e)" "i_hlist_get_rcu w hl n = Some (buckets hl i, e)"
      "buckets hl i \<noteq> NULL" "e \<noteq> NULL" "get_node (hw_mem w) e \<noteq> NULL"
      "key (hw_mem w) (get_node (hw_mem w) e) = key (hw_mem w) n"
      "contents w bs (key (hw_mem w) n) = Some (get_node (hw_mem w) e)"
proof -
  let ?m = "hw_mem w"
  define i where "i = unat (hash ?m n mod of_nat (length bs))"
  let ?P = "\<lambda>e. key ?m (get_node ?m e) = key ?m n"
  note b = bucket_of [OF ok(1) i_def] and cb = callbacks [OF ok(1,2)]
  have d: "dlist (hw_list w) (buckets hl i) ([] @ bs ! i)" using hl_okD(8) [OF ok(1) b(1)] by simp
  have f: "i_hlist_find_entry_in_bucket w hl (buckets hl i) n = Some (case filter ?P (bs ! i) of [] \<Rightarrow> NULL | y # _ \<Rightarrow> y)"
    "i_hlist_find_entry_in_bucket_rcu w hl (buckets hl i) n = Some (case filter ?P (bs ! i) of [] \<Rightarrow> NULL | y # _ \<Rightarrow> y)"
    using find_entry_ok [OF d cb(5) [of n]] find_entry_rcu_ok [OF d cb(5) [of n]] LIST_FIRST_NODE_ok [OF d] b(3)
    by (auto simp: i_hlist_find_entry_in_bucket_def i_hlist_find_entry_in_bucket_rcu_def
        hlist_bucket_first_entry_rcu_def)
  show thesis
  proof (cases "filter ?P (bs ! i)")
    case Nil
    have "key ?m (get_node ?m e) \<noteq> key ?m n" if e: "j < length bs" "e \<in> set (bs ! j)" for j e
    proof
      assume eq: "key ?m (get_node ?m e) = key ?m n"
      then have "j = i" using ok(3) e hash_key [OF eq] unfolding hl_keyed_def i_def by metis
      then show False using Nil e(2) eq by (auto simp: filter_empty_conv)
    qed
    then have "contents w bs (key ?m n) = None" by (auto simp: hl_map_None [OF ok(3)] entries_def)
    then show thesis using absent [of i] b f Nil cb(2) by (simp add: i_hlist_get_def i_hlist_get_rcu_def hash_valid i_def)
  next
    case (Cons e es)
    then obtain xs ys where s: "bs ! i = xs @ e # ys" "?P e" using Cons_eq_filterD [of e es ?P "bs ! i"] by auto
    have e: "e \<in> set (bs ! i)" using s(1) by simp
    have "get_node ?m e \<noteq> NULL" using ok(3) b(1) e by (auto simp: hl_keyed_def)
    moreover have "contents w bs (key ?m n) = Some (get_node ?m e)"
      unfolding hl_map_Some [OF ok(3)] using entries_at [OF b(1) e] s(2) by blast
    ultimately show thesis using present [of i xs e ys] b f Cons cb(2) s hl_ok_entry(1) [OF ok(1) b(1) e]
      by (simp add: i_hlist_get_def i_hlist_get_rcu_def hash_valid)
  qed
qed

lemma hlist_get_ok:
  assumes "hl_ok w hl H bs" "func H = funcs" "keyed w bs" "n \<noteq> NULL"
  shows "hlist_get w hl n = Some (case contents w bs (key (hw_mem w) n) of None \<Rightarrow> NULL | Some x \<Rightarrow> x)"
    "hlist_get_rcu w hl n = Some (case contents w bs (key (hw_mem w) n) of None \<Rightarrow> NULL | Some x \<Rightarrow> x)"
  using assms(4) callbacks [OF assms(1,2)]
  by (cases rule: lookup_cases [OF assms(1-3), of n]; simp add: hlist_get_def hlist_get_rcu_def)+

text \<open>An unattached node can be inserted; a detached entry is one that \<open>hlist_entry_init\<close> left.\<close>

lemma put_prefix:
  assumes ok: "hl_ok w hl H bs" "func H = funcs" and f: "fresh_entry w hl bs (get_entry (hw_mem w) n)"
  shows "HLIST_ENTRY_ATTACHED w (get_entry (hw_mem w) n) = Some False" "get_entry (hw_mem w) n \<noteq> NULL"
proof -
  show e: "get_entry (hw_mem w) n \<noteq> NULL" using f by (auto simp: fresh_entry_def dest: alloc_not_NULL)
  then show "HLIST_ENTRY_ATTACHED w (get_entry (hw_mem w) n) = Some False"
    using f by (simp add: HLIST_ENTRY_ATTACHED_def deref_def fresh_entry_def)
qed

lemma hlist_put_new:
  assumes ok: "hl_ok w hl H bs" "func H = funcs" "keyed w bs" and n: "n \<noteq> NULL"
    and f: "fresh_entry w hl bs (get_entry (hw_mem w) n)" and a: "contents w bs (key (hw_mem w) n) = None"
    and put: "put = hlist_put \<or> put = hlist_put_rcu"
  shows "\<exists>w' H' bs'. put w hl n r = Some (NULL, w') \<and> hl_ok w' hl H' bs' \<and> func H' = funcs \<and>
    hl_frame hl bs (get_entry (hw_mem w) n) w w' \<and> entries bs' = insert (get_entry (hw_mem w) n) (entries bs) \<and>
    length bs' = length bs \<and> keyed w' bs' \<and> contents w' bs' = (contents w bs)(key (hw_mem w) n \<mapsto> n)"
proof (cases rule: lookup_cases [OF ok, of n, case_names absent present])
  case (absent i)
  let ?m = "hw_mem w" let ?e = "get_entry ?m n"
  have d: "dlist (hw_list w) (buckets hl i) (bs ! i)" by (rule hl_okD(8) [OF ok(1) absent(2)])
  have e: "alloc (hw_list w) ?e" "?e \<notin> insert (buckets hl i) (set (bs ! i))"
    using f absent(2) by (auto simp: fresh_entry_def)
  have "\<exists>h'. ins (hw_list w) (buckets hl i) ?e = Some h' \<and> dlist h' (buckets hl i) (?e # bs ! i) \<and>
      same_off (insert ?e (insert (buckets hl i) (set (bs ! i)))) (hw_list w) h'"
    if "ins = list_entry_push_back \<or> ins = list_entry_add_rcu" for ins
    using that list_entry_push_back_ok [OF d e] list_entry_add_rcu_ok [OF d e] by auto
  then have I: "\<exists>w' H'. i_hlist_insert_node_entry w hl (buckets hl i) ?e = Some w' \<and>
      hl_ok w' hl H' (bs[i := ?e # bs ! i]) \<and> func H' = func H \<and> hl_frame hl bs ?e w w'"
    "\<exists>w' H'. hlist_entry_add_rcu w hl (buckets hl i) ?e = Some w' \<and>
      hl_ok w' hl H' (bs[i := ?e # bs ! i]) \<and> func H' = func H \<and> hl_frame hl bs ?e w w'"
    unfolding i_hlist_insert_node_entry_def hlist_entry_add_rcu_def
    using insert_entry_ok [OF ok(1) absent(2) f] by blast+
  have "\<exists>w' H'. put w hl n r = Some (NULL, w') \<and> hl_ok w' hl H' (bs[i := ?e # bs ! i]) \<and>
      func H' = func H \<and> hl_frame hl bs ?e w w'"
    using put I absent(3,5) callbacks [OF ok(1,2)] put_prefix [OF ok(1,2) f]
    by (auto simp: hlist_put_def hlist_put_rcu_def)
  then obtain w' H' where w': "put w hl n r = Some (NULL, w')" "hl_ok w' hl H' (bs[i := ?e # bs ! i])"
      "func H' = func H" "hl_frame hl bs ?e w w'" by blast
  moreover have "hl_keyed (hash ?m) (get_node ?m) (key ?m) (bs[i := ?e # bs ! i])"
    "hl_map (get_node ?m) (key ?m) (bs[i := ?e # bs ! i]) = (contents w bs)(key ?m n \<mapsto> n)"
    using hl_map_insert [OF ok(3) absent(2), of ?e] n a absent(1) by (simp_all add: node_of_entry)
  ultimately show ?thesis using ok(2) hl_frame_mem [OF w'(4)] entries_insert [OF absent(2)]
    by (intro exI [of _ w'] exI [of _ H'] exI [of _ "bs[i := ?e # bs ! i]"]) simp
qed (use a in simp)

lemma hlist_put_existing:
  assumes ok: "hl_ok w hl H bs" "func H = funcs" "keyed w bs" and n: "n \<noteq> NULL"
    and f: "fresh_entry w hl bs (get_entry (hw_mem w) n)" and a: "contents w bs (key (hw_mem w) n) = Some old"
    and put: "put = hlist_put \<or> put = hlist_put_rcu"
  shows "put w hl n False = Some (old, w)"
    "\<exists>w' bs'. put w hl n True = Some (old, w') \<and> hl_ok w' hl H bs' \<and>
    hw_mem w' = hw_mem w \<and> keyed w' bs' \<and> contents w' bs' = (contents w bs)(key (hw_mem w) n \<mapsto> n)"
proof -
  let ?m = "hw_mem w" let ?e = "get_entry ?m n"
  obtain i xs e ys where p: "i < length bs" "bs ! i = xs @ e # ys" "i_hlist_get w hl n = Some (buckets hl i, e)"
    "buckets hl i \<noteq> NULL" "e \<noteq> NULL" "get_node ?m e \<noteq> NULL" "key ?m (get_node ?m e) = key ?m n" "old = get_node ?m e"
    by (cases rule: lookup_cases [OF ok, of n]) (use a in auto)
  have ne: "n \<noteq> old"
  proof
    assume "n = old"
    then have "?e = e" using p(8) by (simp add: entry_of_node)
    then show False using f p(1,2) by (auto simp: fresh_entry_def)
  qed
  note pre = callbacks [OF ok(1,2)] put_prefix [OF ok(1,2) f]
  show "put w hl n False = Some (old, w)"
    using put pre p ne by (auto simp: hlist_put_def hlist_put_rcu_def)
  have d: "dlist (hw_list w) (buckets hl i) (xs @ e # ys)" using hl_okD(8) [OF ok(1) p(1)] p(2) by simp
  have f': "alloc (hw_list w) ?e" "?e \<notin> insert (buckets hl i) (set (xs @ e # ys))" "alloc (hw_bucket w) ?e"
    using f p(1) p(2) [symmetric] pre(7) by (auto simp: fresh_entry_def alloc_def)
  have be: "deref (hw_bucket w) e = Some (buckets hl i)" "alloc (hw_bucket w) e"
    using hl_ok_entry [OF ok(1) p(1), of e] p(2) by auto
  have "\<exists>w'. put w hl n True = Some (old, w') \<and> hl_ok w' hl H (bs[i := xs @ ?e # ys]) \<and> hw_mem w' = ?m"
    using put
  proof
    assume "put = hlist_put"
    obtain h' where h': "list_entry_replace (hw_list w) e ?e = Some h'" "dlist h' (buckets hl i) (xs @ ?e # ys)"
      "same_off (insert ?e (insert (buckets hl i) (set (xs @ e # ys)))) (hw_list w) h'"
      using list_entry_replace_ok [OF d f'(1,2)] by blast
    let ?w = "w\<lparr>hw_list := h', hw_bucket := (hw_bucket w)(?e \<mapsto> buckets hl i, e \<mapsto> NULL)\<rparr>"
    have "hl_ok ?w hl H (bs[i := xs @ ?e # ys])"
      by (rule replace_entry_ok [OF ok(1) p(1,2) f h'(2)]) (use h'(3) p(2) in auto)
    moreover have "i_hlist_replace_node_entry w e ?e = Some ?w"
      using h'(1) be f'(3) pre(7) p(5) by (simp add: i_hlist_replace_node_entry_def set_bucket_ok)
    ultimately show ?thesis using \<open>put = hlist_put\<close> pre p ne by (auto simp: hlist_put_def)
  next
    assume "put = hlist_put_rcu"
    obtain h' where h': "list_entry_replace_rcu (hw_list w) e ?e = Some h'" "dlist h' (buckets hl i) (xs @ ?e # ys)"
      "same_off (insert ?e (insert (buckets hl i) (set (xs @ ys)))) (hw_list w) h'"
      using list_entry_replace_rcu_ok [OF d f'(1,2)] by blast
    let ?w = "w\<lparr>hw_list := h', hw_bucket := (hw_bucket w)(?e \<mapsto> buckets hl i)\<rparr>"
    have "same_off (insert ?e (insert (buckets hl i) (set (bs ! i)))) (hw_list w) h'"
      by (rule same_off_mono [OF h'(3)]) (use p(2) in auto)
    then have "hl_ok ?w hl H (bs[i := xs @ ?e # ys])"
      by (intro replace_entry_ok [OF ok(1) p(1,2) f h'(2)]) auto
    moreover have "hlist_entry_replace_rcu w hl e ?e = Some ?w"
      using h'(1) be f'(3) by (simp add: hlist_entry_replace_rcu_def set_bucket_ok)
    ultimately show ?thesis using \<open>put = hlist_put_rcu\<close> pre p ne by (auto simp: hlist_put_rcu_def)
  qed
  moreover have "hl_keyed (hash ?m) (get_node ?m) (key ?m) (bs[i := xs @ ?e # ys])"
    "hl_map (get_node ?m) (key ?m) (bs[i := xs @ ?e # ys]) = (contents w bs)(key ?m n \<mapsto> n)"
    using hl_map_replace [OF ok(3,1) p(1,2), of ?e] n p(7) hash_key [OF p(7)] by (simp_all add: node_of_entry)
  ultimately show "\<exists>w' bs'. put w hl n True = Some (old, w') \<and> hl_ok w' hl H bs' \<and>
    hw_mem w' = hw_mem w \<and> keyed w' bs' \<and> contents w' bs' = (contents w bs)(key (hw_mem w) n \<mapsto> n)"
    by (metis (no_types, lifting))
qed

end

context hlist_keys
begin

lemma hlist_pop_at:
  assumes ok: "hl_ok w hl H bs" "func H = funcs" "keyed w bs" and i: "i < length bs" "bs ! i = xs @ e # ys"
    and rm: "rm = i_hlist_remove_node_entry \<or> rm = hlist_entry_del_rcu"
  shows "\<exists>w' H' bs'. rm w hl e = Some w' \<and> hl_ok w' hl H' bs' \<and> func H' = funcs \<and> hl_frame hl bs e w w' \<and>
    entries bs' = entries bs - {e} \<and> length bs' = length bs \<and>
    keyed w' bs' \<and> contents w' bs' = (contents w bs)(key (hw_mem w) (get_node (hw_mem w) e) := None)"
proof -
  let ?H = "H\<lparr>elem_cnt := elem_cnt H - 1\<rparr>"
  have d: "dlist (hw_list w) (buckets hl i) (xs @ e # ys)" using hl_okD(8) [OF ok(1) i(1)] i(2) by simp
  have be: "alloc (hw_bucket w) e" using hl_ok_entry [OF ok(1) i(1), of e] i(2) by auto
  note D = hl_okD(1) [OF ok(1)] and m = hl_map_remove [OF ok(3,1) i]
  have "\<exists>w'. rm w hl e = Some w' \<and> hl_ok w' hl ?H (bs[i := xs @ ys]) \<and> hl_frame hl bs e w w'"
    using rm
  proof
    assume rm: "rm = i_hlist_remove_node_entry"
    obtain h' where h': "list_entry_detach (hw_list w) e = Some h'" "dlist h' (buckets hl i) (xs @ ys)"
      "same_off (insert (buckets hl i) (set (xs @ e # ys))) (hw_list w) h'"
      using list_entry_detach_ok [OF d] by blast
    let ?w = "w\<lparr>hw_list := h', hw_bucket := (hw_bucket w)(e \<mapsto> NULL), hw_hlists := (hw_hlists w)(hl \<mapsto> ?H)\<rparr>"
    have "hl_ok ?w hl ?H (bs[i := xs @ ys])"
      by (rule remove_entry_ok [OF ok(1) i h'(2)]) (use h'(3) i(2) in auto)
    moreover have "hl_frame hl bs e w ?w" by (rule hl_frameI [OF i(1), of _ w]) (use h'(3) i(2) in auto)
    ultimately show ?thesis using rm h'(1) be D
      by (auto simp: i_hlist_remove_node_entry_def set_bucket_ok add_elem_cnt_ok)
  next
    assume rm: "rm = hlist_entry_del_rcu"
    obtain h' where h': "list_entry_del_rcu (hw_list w) e = Some h'" "dlist h' (buckets hl i) (xs @ ys)"
      "same_off (insert (buckets hl i) (set (xs @ ys))) (hw_list w) h'"
      using list_entry_del_rcu_ok [OF d] by blast
    let ?w = "w\<lparr>hw_list := h', hw_hlists := (hw_hlists w)(hl \<mapsto> ?H)\<rparr>"
    have "same_off (insert (buckets hl i) (set (bs ! i))) (hw_list w) h'"
      by (rule same_off_mono [OF h'(3)]) (use i(2) in auto)
    then have "hl_ok ?w hl ?H (bs[i := xs @ ys])"
      by (intro remove_entry_ok [OF ok(1) i h'(2)]) auto
    moreover have "hl_frame hl bs e w ?w" by (rule hl_frameI [OF i(1), of _ w]) (use h'(3) i(2) in auto)
    ultimately show ?thesis using rm h'(1) D by (auto simp: hlist_entry_del_rcu_def add_elem_cnt_ok)
  qed
  then obtain w' where "rm w hl e = Some w'" "hl_ok w' hl ?H (bs[i := xs @ ys])" "hl_frame hl bs e w w'" by blast
  then show ?thesis using m(1,2) ok(2) hl_frame_mem [of hl bs e w w'] entries_remove [OF ok(1) i]
    by (intro exI [of _ w'] exI [of _ ?H] exI [of _ "bs[i := xs @ ys]"]) simp
qed

lemma hlist_pop_key:
  assumes ok: "hl_ok w hl H bs" "func H = funcs" "keyed w bs" and n: "n \<noteq> NULL"
    and pop: "pop = hlist_pop \<or> pop = hlist_pop_rcu"
  shows "case contents w bs (key (hw_mem w) n) of
      None \<Rightarrow> pop w hl n = Some (NULL, w)
    | Some x \<Rightarrow> \<exists>w' H' bs'. pop w hl n = Some (x, w') \<and> hl_ok w' hl H' bs' \<and> func H' = funcs \<and>
        hl_frame hl bs (get_entry (hw_mem w) x) w w' \<and> entries bs' = entries bs - {get_entry (hw_mem w) x} \<and>
        length bs' = length bs \<and> keyed w' bs' \<and> contents w' bs' = (contents w bs)(key (hw_mem w) n := None)"
proof (cases rule: lookup_cases [OF ok, of n, case_names absent present])
  case (absent i)
  then show ?thesis using n pop callbacks [OF ok(1,2)] hl_okD(1) [OF ok(1)]
    by (auto simp: hlist_pop_def hlist_pop_rcu_def)
next
  case (present i xs e ys)
  have "elem_cnt H \<noteq> 0" using hl_ok_nonempty [OF ok(1) present(1)] present(2) by simp
  then have "hlist_pop w hl n = do { w1 \<leftarrow> i_hlist_remove_node_entry w hl e; Some (get_node (hw_mem w) e, w1) }"
    "hlist_pop_rcu w hl n = do { w1 \<leftarrow> hlist_entry_del_rcu w hl e; Some (get_node (hw_mem w) e, w1) }"
    using n present callbacks [OF ok(1,2)] hl_okD(1) [OF ok(1)] by (simp_all add: hlist_pop_def hlist_pop_rcu_def)
  then obtain rm where rm: "rm = i_hlist_remove_node_entry \<or> rm = hlist_entry_del_rcu"
    "pop w hl n = do { w1 \<leftarrow> rm w hl e; Some (get_node (hw_mem w) e, w1) }" using pop by blast
  obtain w' H' bs' where "rm w hl e = Some w'" "hl_ok w' hl H' bs'" "func H' = funcs" "hl_frame hl bs e w w'"
    "entries bs' = entries bs - {e}" "length bs' = length bs"
    "keyed w' bs'" "contents w' bs' = (contents w bs)(key (hw_mem w) n := None)"
    using hlist_pop_at [OF ok present(1,2) rm(1)] present(8) by auto
  then show ?thesis unfolding present(9) option.case using rm(2)
    by (intro exI [of _ w'] exI [of _ H'] exI [of _ bs']) (simp add: entry_of_node)
qed

lemma hlist_pop_any:
  assumes ok: "hl_ok w hl H bs" "func H = funcs" "keyed w bs" and pop: "pop = hlist_pop \<or> pop = hlist_pop_rcu"
  shows "if contents w bs = Map.empty then pop w hl NULL = Some (NULL, w)
    else \<exists>k x w' H' bs'. contents w bs k = Some x \<and> pop w hl NULL = Some (x, w') \<and> hl_ok w' hl H' bs' \<and>
      func H' = funcs \<and> hw_mem w' = hw_mem w \<and> keyed w' bs' \<and> contents w' bs' = (contents w bs)(k := None)"
proof (cases "entries bs = {}")
  case True
  then have "sum_list (map length bs) = 0" using set_concat_entries [of bs] by (auto simp: length_concat [symmetric])
  then have "elem_cnt H = 0" using hl_okD(7) [OF ok(1)] by simp
  moreover have "contents w bs = Map.empty" using True by (intro map_ext_Some) (simp add: hl_map_Some [OF ok(3)])
  ultimately show ?thesis using pop callbacks [OF ok(1,2)] hl_okD(1) [OF ok(1)]
    by (auto simp: hlist_pop_def hlist_pop_rcu_def)
next
  case False
  have "i \<le> length bs \<Longrightarrow> \<forall>j<i. bs ! j = [] \<Longrightarrow>
    \<exists>j. j < length bs \<and> bs ! j \<noteq> [] \<and> first_nonempty w hl i (length bs - i) = Some (hd (bs ! j))" for i
  proof (induction "length bs - i" arbitrary: i)
    case 0
    then show ?case using False by (auto simp: entries_def)
  next
    case (Suc k)
    then have i: "i < length bs" "length bs - i = Suc k" "k = length bs - (i + 1)" by auto
    show ?case
    proof (cases "bs ! i")
      case Nil
      have "\<exists>j. j < length bs \<and> bs ! j \<noteq> [] \<and> first_nonempty w hl (i + 1) (length bs - (i + 1)) = Some (hd (bs ! j))"
        by (rule Suc.hyps(1)) (use i Nil Suc.prems in \<open>auto simp: less_Suc_eq\<close>)
      then show ?thesis using LIST_IS_EMPTY_ok [OF hl_okD(8) [OF ok(1) i(1)]] Nil i by simp
    next
      case (Cons e es)
      then show ?thesis using LIST_IS_EMPTY_ok [OF hl_okD(8) [OF ok(1) i(1)]] i(1,2)
          dlist_ends(1) [OF hl_okD(8) [OF ok(1) i(1)]] by (auto intro!: exI [of _ i])
    qed
  qed
  from this [of 0] obtain j where j: "j < length bs" "bs ! j \<noteq> []"
    "first_nonempty w hl 0 (unat (bucket_cnt H)) = Some (hd (bs ! j))" using hl_okD(5) [OF ok(1)] by auto
  let ?e = "hd (bs ! j)"
  have s: "bs ! j = [] @ ?e # tl (bs ! j)" and e: "?e \<in> set (bs ! j)" using j(2) by auto
  have "elem_cnt H \<noteq> 0" by (rule hl_ok_nonempty [OF ok(1) j(1,2)])
  then have "hlist_pop w hl NULL = do { w1 \<leftarrow> i_hlist_remove_node_entry w hl ?e; Some (get_node (hw_mem w) ?e, w1) }"
    "hlist_pop_rcu w hl NULL = do { w1 \<leftarrow> hlist_entry_del_rcu w hl ?e; Some (get_node (hw_mem w) ?e, w1) }"
    using j(3) callbacks [OF ok(1,2)] hl_okD(1) [OF ok(1)] hl_ok_entry(1) [OF ok(1) j(1) e]
    by (simp_all add: hlist_pop_def hlist_pop_rcu_def)
  then obtain rm where rm: "rm = i_hlist_remove_node_entry \<or> rm = hlist_entry_del_rcu"
    "pop w hl NULL = do { w1 \<leftarrow> rm w hl ?e; Some (get_node (hw_mem w) ?e, w1) }" using pop by blast
  have c: "contents w bs (key (hw_mem w) (get_node (hw_mem w) ?e)) = Some (get_node (hw_mem w) ?e)"
    by (rule hl_map_remove(3) [OF ok(3,1) j(1) s])
  then have "contents w bs \<noteq> Map.empty" by auto
  moreover obtain w' H' bs' where "rm w hl ?e = Some w'" "hl_ok w' hl H' bs'" "func H' = funcs" "hl_frame hl bs ?e w w'"
    "keyed w' bs'" "contents w' bs' = (contents w bs)(key (hw_mem w) (get_node (hw_mem w) ?e) := None)"
    using hlist_pop_at [OF ok j(1) s rm(1)] by blast
  moreover from this(4) have "hw_mem w' = hw_mem w" by (rule hl_frame_mem)
  ultimately show ?thesis using c rm(2) by (subst if_not_P) (blast, auto)
qed

end

subsection \<open>Iteration\<close>

definition hd0 :: "addr list \<Rightarrow> addr" where
  "hd0 xs = (case xs of [] \<Rightarrow> NULL | x # _ \<Rightarrow> x)"

lemma hd0_simps [simp]: "hd0 [] = NULL" "hd0 (x # xs) = x"
  by (simp_all add: hd0_def)

lemma hd0_if: "(if xs = [] then NULL else hd xs) = hd0 xs" "(if xs = [] then NULL else last xs) = hd0 (rev xs)"
  by (cases xs; simp) (cases xs rule: rev_cases; simp)

lemma hd0_append: "hd0 (xs @ ys) = (if xs = [] then hd0 ys else hd0 xs)"
  by (cases xs) auto

lemma hd0_not_NULL: "NULL \<notin> set xs \<Longrightarrow> hd0 xs = NULL \<longleftrightarrow> xs = []"
  by (cases xs) auto

lemma entries_not_NULL: "hl_ok w hl H bs \<Longrightarrow> i < length bs \<Longrightarrow> NULL \<notin> set (bs ! i)"
  using hl_ok_entry(1) by blast

lemma next_prev_bucket:
  assumes ok: "hl_ok w hl H bs" and i: "i < length bs"
  shows "hlist_next_bucket w hl (buckets hl i) = Some (if i + 1 < length bs then buckets hl (i + 1) else NULL)"
    "hlist_prev_bucket w hl (buckets hl i) = Some (if i > 0 then buckets hl (i - 1) else NULL)"
proof -
  note D = hl_okD [OF ok]
  have o: "bucket_offset hl (buckets hl i) = int i" using i D(12) by simp
  have c: "(of_nat k :: u64) < bucket_cnt H \<longleftrightarrow> k < length bs" if "k \<le> length bs" for k
    using that D(4,12) by (simp add: word_less_nat_alt unat_of_nat)
  have "word_of_int (int i + 1) = (of_nat (i + 1) :: u64)" by simp
  then show "hlist_next_bucket w hl (buckets hl i) = Some (if i + 1 < length bs then buckets hl (i + 1) else NULL)"
    using o D(1,2) bucket_not_NULL [OF ok i] c [of i] c [of "i + 1"] i
    by (auto simp: hlist_next_bucket_def Let_def not_less not_le nat_add_distrib leD simp del: of_int_add of_nat_Suc)
  show "hlist_prev_bucket w hl (buckets hl i) = Some (if i > 0 then buckets hl (i - 1) else NULL)"
    using o D(1,2) bucket_not_NULL [OF ok i] c [of i] i
    by (auto simp: hlist_prev_bucket_def Let_def not_less not_le nat_diff_distrib leD)
qed

lemma skip_empty_ok:
  assumes ok: "hl_ok w hl H bs" and i: "i < length bs" and n: "NULL \<notin> set xs"
  shows "skip_empty w hl (buckets hl i) (hd0 xs) = Some (hd0 (xs @ concat (drop (i + 1) bs)))"
  using i n
proof (induction "length bs - i" arbitrary: i xs)
  case (Suc k)
  show ?case
  proof (cases "xs = []")
    case True
    show ?thesis
    proof (cases "i + 1 < length bs")
      case less: True
      have IH: "skip_empty w hl (buckets hl (i + 1)) (hd0 (bs ! (i + 1))) =
          Some (hd0 (bs ! (i + 1) @ concat (drop (i + 1 + 1) bs)))"
        by (rule Suc.hyps(1)) (use Suc.hyps(2) less entries_not_NULL [OF ok less] in auto)
      have "LIST_FIRST_NODE (hw_list w) (buckets hl (i + 1)) = Some (hd0 (bs ! (i + 1)))"
        using LIST_FIRST_NODE_ok [OF hl_okD(8) [OF ok less]] unfolding hd0_if .
      moreover have "drop (i + 1) bs = bs ! (i + 1) # drop (i + 1 + 1) bs" using less by (simp add: Cons_nth_drop_Suc)
      ultimately show ?thesis
        using True IH next_prev_bucket(1) [OF ok Suc.prems(1)] less bucket_not_NULL [OF ok less]
        by (subst skip_empty.simps) simp
    next
      case False
      then show ?thesis using True next_prev_bucket(1) [OF ok Suc.prems(1)] by (subst skip_empty.simps) simp
    qed
  next
    case False
    then show ?thesis using Suc.prems(2) by (subst skip_empty.simps) (auto simp: hd0_append hd0_not_NULL)
  qed
qed simp

lemma skip_empty_inv_ok:
  assumes ok: "hl_ok w hl H bs" and i: "i < length bs" and n: "NULL \<notin> set xs"
  shows "skip_empty_inv w hl (buckets hl i) (hd0 xs) = Some (hd0 (xs @ rev (concat (take i bs))))"
  using i n
proof (induction i arbitrary: xs)
  case 0
  then show ?case using next_prev_bucket(2) [OF ok 0(1)] hd0_not_NULL [OF 0(2)] by (subst skip_empty_inv.simps) auto
next
  case (Suc i)
  show ?case
  proof (cases "xs = []")
    case True
    have i: "i < length bs" using Suc.prems by simp
    have "skip_empty_inv w hl (buckets hl i) (hd0 (rev (bs ! i))) = Some (hd0 (rev (bs ! i) @ rev (concat (take i bs))))"
      by (rule Suc.IH) (use i entries_not_NULL [OF ok i] in auto)
    moreover have "LIST_LAST_NODE (hw_list w) (buckets hl i) = Some (hd0 (rev (bs ! i)))"
      using LIST_LAST_NODE_ok [OF hl_okD(8) [OF ok i]] by (simp add: hd0_if)
    moreover have "take (Suc i) bs = take i bs @ [bs ! i]" using i by (simp add: take_Suc_conv_app_nth)
    ultimately show ?thesis using True next_prev_bucket(2) [OF ok Suc.prems(1)] bucket_not_NULL [OF ok i]
      by (subst skip_empty_inv.simps) simp
  next
    case False
    then show ?thesis using Suc.prems(2) by (subst skip_empty_inv.simps) (auto simp: hd0_append hd0_not_NULL)
  qed
qed

lemma next_entry_ok:
  assumes ok: "hl_ok w hl H bs" and i: "i < length bs" "bs ! i = xs @ e # ys"
  shows "hlist_next_entry w hl e = Some (hd0 (ys @ concat (drop (i + 1) bs)))"
    "hlist_prev_entry w hl e = Some (hd0 (rev (concat (take i bs) @ xs)))"
proof -
  have d: "dlist (hw_list w) (buckets hl i) (xs @ e # ys)" using hl_okD(8) [OF ok i(1)] i(2) by simp
  note E = hl_ok_entry [OF ok i(1), of e] and n = entries_not_NULL [OF ok i(1)]
  show "hlist_next_entry w hl e = Some (hd0 (ys @ concat (drop (i + 1) bs)))"
    using E skip_empty_ok [OF ok i(1), of ys] n LIST_NEXT_NODE_ok [OF d] hl_okD(2) [OF ok] i(2)
    by (simp add: hlist_next_entry_def hd0_if)
  show "hlist_prev_entry w hl e = Some (hd0 (rev (concat (take i bs) @ xs)))"
    using E skip_empty_inv_ok [OF ok i(1), of "rev xs"] n LIST_PREV_NODE_ok [OF d] hl_okD(2) [OF ok] i(2)
    by (simp add: hlist_prev_entry_def hd0_if)
qed

lemma concat_position:
  assumes "concat bs = ps @ e # qs"
  shows "\<exists>i xs ys. i < length bs \<and> bs ! i = xs @ e # ys \<and> ps = concat (take i bs) @ xs \<and>
    qs = ys @ concat (drop (i + 1) bs)"
  using assms
proof (induction bs arbitrary: ps)
  case (Cons b bs)
  have "b @ concat bs = ps @ e # qs" using Cons.prems by simp
  then obtain vs where vs: "b = ps @ vs \<and> vs @ concat bs = e # qs \<or> ps = b @ vs \<and> concat bs = vs @ e # qs"
    by (auto simp: append_eq_append_conv2)
  consider us where "b = ps @ us" "us @ concat bs = e # qs" "us \<noteq> []" | us where "ps = b @ us" "concat bs = us @ e # qs"
    using vs that(2) [of "[]"] by (cases "vs = []") auto
  then show ?case
  proof cases
    case 1
    then obtain ys where "us = e # ys" "qs = ys @ concat bs" by (cases us) auto
    then show ?thesis using 1 by (intro exI [of _ 0] exI [of _ ps] exI [of _ ys]) simp
  next
    case 2
    from Cons.IH [OF 2(2)] obtain i xs ys where "i < length bs" "bs ! i = xs @ e # ys"
      "us = concat (take i bs) @ xs" "qs = ys @ concat (drop (i + 1) bs)" by blast
    then show ?thesis using 2 by (intro exI [of _ "Suc i"] exI [of _ xs] exI [of _ ys]) simp
  qed
qed simp

lemma hlist_walk_ok:
  assumes ok: "hl_ok w hl H bs" and "concat bs = ps @ qs"
  shows "hlist_walk w hl (hd0 qs) = Some qs"
  using assms(2)
proof (induction qs arbitrary: ps)
  case (Cons e qs)
  obtain i xs ys where p: "i < length bs" "bs ! i = xs @ e # ys" "qs = ys @ concat (drop (i + 1) bs)"
    using concat_position [OF Cons.prems] by blast
  have "hlist_walk w hl (hd0 qs) = Some qs" by (rule Cons.IH [of "ps @ [e]"]) (simp add: Cons.prems)
  then show ?case using next_entry_ok(1) [OF ok p(1,2)] p(3) hl_ok_entry(1) [OF ok p(1), of e] p(2)
    by (subst hlist_walk.simps) simp
qed (simp add: hlist_walk.simps)

lemma hlist_walk_inv_ok:
  assumes ok: "hl_ok w hl H bs" and "concat bs = ps @ qs"
  shows "hlist_walk_inv w hl (hd0 (rev ps)) = Some (rev ps)"
  using assms(2)
proof (induction ps arbitrary: qs rule: rev_induct)
  case (snoc e ps)
  have "concat bs = ps @ e # qs" using snoc.prems by simp
  from concat_position [OF this] obtain i xs ys where
    p: "i < length bs" "bs ! i = xs @ e # ys" "ps = concat (take i bs) @ xs" by blast
  have "hlist_walk_inv w hl (hd0 (rev ps)) = Some (rev ps)" by (rule snoc.IH [of "e # qs"]) (simp add: snoc.prems)
  then show ?case using next_entry_ok(2) [OF ok p(1,2)] p(3) hl_ok_entry(1) [OF ok p(1), of e] p(2)
    by (subst hlist_walk_inv.simps) simp
qed (simp add: hlist_walk_inv.simps)

lemma first_entry_from_ok:
  assumes ok: "hl_ok w hl H bs" and "i \<le> length bs"
  shows "first_entry_from w hl i (length bs - i) = Some (hd0 (concat (drop i bs)))"
  using assms(2)
proof (induction "length bs - i" arbitrary: i)
  case (Suc k)
  then have i: "i < length bs" "length bs - i = Suc k" "k = length bs - (i + 1)" by auto
  have "first_entry_from w hl (i + 1) (length bs - (i + 1)) = Some (hd0 (concat (drop (i + 1) bs)))"
    by (rule Suc.hyps(1)) (use i in auto)
  moreover have "drop i bs = bs ! i # drop (i + 1) bs" using i(1) by (simp add: Cons_nth_drop_Suc)
  ultimately show ?case
    using LIST_FIRST_NODE_ok [OF hl_okD(8) [OF ok i(1)]] i(2,3) hd0_not_NULL [OF entries_not_NULL [OF ok i(1)]]
    by (simp add: hd0_if hd0_append)
qed simp

lemma last_entry_below_ok:
  assumes ok: "hl_ok w hl H bs" and "i \<le> length bs"
  shows "last_entry_below w hl i = Some (hd0 (rev (concat (take i bs))))"
  using assms(2)
proof (induction i)
  case (Suc i)
  then have i: "i < length bs" by simp
  have "hd0 (rev (bs ! i)) = NULL \<longleftrightarrow> rev (bs ! i) = []" using hd0_not_NULL entries_not_NULL [OF ok i] by simp
  moreover have "take (Suc i) bs = take i bs @ [bs ! i]" using i by (simp add: take_Suc_conv_app_nth)
  ultimately show ?case using LIST_LAST_NODE_ok [OF hl_okD(8) [OF ok i]] Suc
    by (simp add: hd0_if hd0_append)
qed simp

lemma hlist_foreach_ok:
  assumes "hl_ok w hl H bs"
  shows "hlist_foreach_node w hl = Some (concat bs)" "hlist_foreach_node_reverse w hl = Some (rev (concat bs))"
  using hl_okD [OF assms] first_entry_from_ok [OF assms, of 0] hlist_walk_ok [OF assms, of "[]"]
    last_entry_below_ok [OF assms, of "length bs"] hlist_walk_inv_ok [OF assms, of "concat bs" "[]"]
  by (simp_all add: hlist_foreach_node_def hlist_foreach_node_reverse_def hlist_first_entry_def hlist_last_entry_def)

subsection \<open>Initialisation\<close>

lemma init_buckets_ok:
  assumes "\<forall>j. i \<le> j \<and> j < i + k \<longrightarrow> alloc (hw_list w) (buckets hl j)" "i + k \<le> 0xffff"
  shows "\<exists>h'. init_buckets w hl i k = Some (w\<lparr>hw_list := h'\<rparr>) \<and>
    (\<forall>j. i \<le> j \<and> j < i + k \<longrightarrow> dlist h' (buckets hl j) []) \<and> same_off {buckets hl j | j. i \<le> j \<and> j < i + k} (hw_list w) h'"
  using assms
proof (induction k arbitrary: w i)
  case 0
  show ?case by (intro exI [of _ "hw_list w"]) auto
next
  case (Suc k)
  obtain h1 where h1: "list_entry_init (hw_list w) (buckets hl i) = Some h1" "dlist h1 (buckets hl i) []"
    "same_off {buckets hl i} (hw_list w) h1" using list_entry_init_ok [of "hw_list w" "buckets hl i"] Suc.prems(1) by auto
  let ?w = "w\<lparr>hw_list := h1\<rparr>"
  have "\<exists>h'. init_buckets ?w hl (i + 1) k = Some (?w\<lparr>hw_list := h'\<rparr>) \<and>
      (\<forall>j. i + 1 \<le> j \<and> j < i + 1 + k \<longrightarrow> dlist h' (buckets hl j) []) \<and>
      same_off {buckets hl j | j. i + 1 \<le> j \<and> j < i + 1 + k} (hw_list ?w) h'"
    by (rule Suc.IH) (use Suc.prems h1(3) in \<open>auto simp: same_off_def\<close>)
  then obtain h' where h': "init_buckets ?w hl (i + 1) k = Some (?w\<lparr>hw_list := h'\<rparr>)"
    "\<forall>j. i + 1 \<le> j \<and> j < i + 1 + k \<longrightarrow> dlist h' (buckets hl j) []"
    "same_off {buckets hl j | j. i + 1 \<le> j \<and> j < i + 1 + k} h1 h'" by auto
  have "buckets hl i \<noteq> buckets hl j" if "i + 1 \<le> j" "j < i + 1 + k" for j
    using buckets_inj [of i j hl] that Suc.prems(2) by auto
  then have "dlist h' (buckets hl i) []" by (intro same_off_dlist [OF h'(3) _ h1(2)]) auto
  then have "\<forall>j. i \<le> j \<and> j < i + Suc k \<longrightarrow> dlist h' (buckets hl j) []"
    using h'(2) by (metis Suc_eq_plus1 add_Suc_right add_Suc_shift le_neq_implies_less not_less_eq_eq not_less)
  moreover have "same_off {buckets hl j | j. i \<le> j \<and> j < i + Suc k} (hw_list w) h'"
    by (rule same_off_trans [OF same_off_mono [OF h1(3)] same_off_mono [OF h'(3)]]) auto
  ultimately show ?case using h1(1) h'(1) by (auto simp: i_hlist_hash_bucket_init_def)
qed

context hlist_keys
begin

lemma hlist_init_ok:
  assumes "hl \<noteq> NULL" "hw_hlists w hl = Some H0" "0 < n" "n \<le> 0xffff"
    and "\<forall>j<n. alloc (hw_list w) (buckets hl j)"
  shows "\<exists>w' H. hlist_init w hl (of_nat n) (Some funcs) = Some (0, w') \<and> hl_ok w' hl H (replicate n []) \<and>
    func H = funcs \<and> keyed w' (replicate n []) \<and> contents w' (replicate n []) = Map.empty \<and>
    hw_bucket w' = hw_bucket w \<and> hw_mem w' = hw_mem w \<and>
    same_off (ring_nodes hl (replicate n [])) (hw_list w) (hw_list w')"
proof -
  have u: "unat (of_nat n :: u64) = n" using assms(4) by (simp add: unat_of_nat)
  then have c: "(of_nat n :: u64) \<noteq> 0" "\<not> HLIST_BUCKET_CNT_MAX < of_nat n"
    using assms(3,4) by (auto simp: HLIST_BUCKET_CNT_MAX_def word_less_nat_alt unat_eq_0 [symmetric] simp del: unat_eq_0)
  obtain h' where h': "init_buckets w hl 0 n = Some (w\<lparr>hw_list := h'\<rparr>)" "\<forall>j<n. dlist h' (buckets hl j) []"
    "same_off {buckets hl j | j. j < n} (hw_list w) h'" using init_buckets_ok [of 0 n w hl] assms(4,5) by auto
  let ?H = "H0\<lparr>bucket_cnt := of_nat n, func := funcs, elem_cnt := 0\<rparr>"
  let ?w = "w\<lparr>hw_list := h', hw_hlists := (hw_hlists w)(hl \<mapsto> ?H)\<rparr>"
  have "hlist_init w hl (of_nat n) (Some funcs) = Some (0, ?w)"
    using assms(1,2) c h'(1) u by (simp add: hlist_init_def hl_funcs_def modify_def deref_def)
  moreover have "hl_ok ?w hl ?H (replicate n [])" using assms h'(2) by (simp add: hl_ok_def sum_list_replicate)
  moreover have "ring_nodes hl (replicate n []) = {buckets hl j | j. j < n}" by (auto simp: ring_nodes_def)
  moreover have "concat (replicate n ([] :: addr list)) = []" by simp
  ultimately show ?thesis using h'(3) by (intro exI [of _ ?w] exI [of _ ?H]) (simp add: hl_keyed_def hl_map_def)
qed

end


subsection \<open>Properties\<close>


lemma distinct_concat_nth:
  assumes "\<And>i. i < length bs \<Longrightarrow> distinct (bs ! i)"
    and "\<And>i j. i < length bs \<Longrightarrow> j < length bs \<Longrightarrow> i \<noteq> j \<Longrightarrow> set (bs ! i) \<inter> set (bs ! j) = {}"
  shows "distinct (concat bs)"
  using assms
proof (induction bs)
  case (Cons b bs)
  have "distinct (concat bs)"
    by (rule Cons.IH) (use Cons.prems(1) [of "Suc i" for i] Cons.prems(2) [of "Suc i" "Suc j" for i j] in auto)
  moreover have "set b \<inter> set (bs ! j) = {}" if "j < length bs" for j
    using Cons.prems(2) [of 0 "Suc j"] that by simp
  then have "set b \<inter> set (concat bs) = {}" by (fastforce simp: in_set_conv_nth [of _ bs])
  ultimately show ?case using Cons.prems(1) [of 0] by simp
qed simp

text \<open>
  C24. The node iterators terminate and visit every entry exactly once, bucket by bucket, and the
  reverse iterator visits them in the opposite order.
\<close>

theorem hlist_foreach_visits_all:
  assumes "hl_ok w hl H bs"
  shows "hlist_foreach_node w hl = Some (concat bs) \<and> hlist_foreach_node_reverse w hl = Some (rev (concat bs)) \<and>
    distinct (concat bs) \<and> elem_cnt H = int (length (concat bs))"
proof -
  have "distinct (bs ! i)" if "i < length bs" for i using hl_okD(8) [OF assms that] by (simp add: dlist_def)
  then have "distinct (concat bs)" using hl_okD(11) [OF assms] by (intro distinct_concat_nth)
  then show ?thesis using hlist_foreach_ok [OF assms] hl_okD(7) [OF assms] by (simp add: length_concat)
qed

text \<open>
  C38. \<open>hlist_node_in_list\<close> only rejects buckets that lie before the bucket array: a node that is
  attached to a bucket at or behind the end of the array, hence of another hash list, is reported
  as a member.
\<close>

theorem hlist_node_in_list_foreign:
  assumes "hw_hlists w hl = Some H" "get_entry_fn (func H) = Some ge" "hl \<noteq> NULL" "n \<noteq> NULL"
    and "ge (hw_mem w) n \<noteq> NULL" "hw_bucket w (ge (hw_mem w) n) = Some (buckets hl i)" "buckets hl i \<noteq> NULL"
    and "unat (bucket_cnt H) \<le> i" "i \<le> 0xffff"
  shows "hlist_node_in_list w hl n = Some True"
  using assms
  by (simp add: hlist_node_in_list_def i_hlist_get_node_bucket_def i_hlist_get_entry_def i_hlist_is_bucket_of_def deref_def)

theorem hlist_node_in_list_foreign_witness:
  "hlist_node_in_list \<lparr>hw_list = Map.empty, hw_bucket = [64 \<mapsto> buckets 4096 2],
     hw_hlists = [4096 \<mapsto> \<lparr>bucket_cnt = 2, elem_cnt = 0, func = hl_funcs (\<lambda>_ _. 1) (\<lambda>_ e. e) (\<lambda>_ n. n) (\<lambda>_ _ a b. 0)\<rparr>],
     hw_mem = ()\<rparr> 4096 64 = Some True"
  by (rule hlist_node_in_list_foreign [where i = 2 and ge = "\<lambda>_ n. n" and
       H = "\<lparr>bucket_cnt = 2, elem_cnt = 0, func = hl_funcs (\<lambda>_ _. 1) (\<lambda>_ e. e) (\<lambda>_ n. n) (\<lambda>_ _ a b. 0)\<rparr>"])
     (simp_all add: hl_funcs_def buckets_def)

end
