(* ===== verification/Proc_Table.thy ===== *)
theory Proc_Table
  imports Hash_List
begin

text \<open>
  The process table of \<open>kernel/proc/pid.c\<close>: the hash list of threads by pid, the list used for
  dumps, pid allocation and the slot counters. The callbacks stored in the hash list are the four
  functions of the file; they interpret the contract \<open>hlist_keys\<close> with the pid as key, so that the
  table inherits the map behaviour of \<open>Hash_List\<close>. Operations that assert the write lock fail
  when it is not held. A thread is named by its address, its pid by the memory of the callbacks;
  the dummy thread a lookup puts on its stack is an address of its own.
\<close>

subsection \<open>Callbacks\<close>

definition NR_THREAD_HASH_BUCKETS :: nat where "NR_THREAD_HASH_BUCKETS = 31"

definition MAXPID :: int where "MAXPID = 0x7FFFFFF0"

definition NR_THREAD :: int where "NR_THREAD = 10000"

text \<open>Offsets of \<open>proctab_entry\<close> and \<open>dmp_list_entry\<close> in \<open>struct thread\<close> with 64-byte cache lines.\<close>

definition proctab_entry :: "addr \<Rightarrow> addr" where "proctab_entry p = p + 448"

definition dmp_list_entry :: "addr \<Rightarrow> addr" where "dmp_list_entry p = p + 472"

type_synonym pid_mem = "addr \<Rightarrow> 32 word"

definition i_proctab_hash :: "pid_mem \<Rightarrow> addr \<Rightarrow> u64" where
  "i_proctab_hash pids p = hlist_hash_int (sint (pids p))"

definition i_proctab_hash_cmp :: "pid_mem \<Rightarrow> addr \<Rightarrow> addr \<Rightarrow> addr \<Rightarrow> int" where
  "i_proctab_hash_cmp pids ht p1 p2 = sint (pids p1 - pids p2)"

definition i_proctab_hash_get_entry :: "pid_mem \<Rightarrow> addr \<Rightarrow> addr" where
  "i_proctab_hash_get_entry pids p = proctab_entry p"

definition i_proctab_hash_get_node :: "pid_mem \<Rightarrow> addr \<Rightarrow> addr" where
  "i_proctab_hash_get_node pids entry = entry - 448"

definition proctab_funcs :: "pid_mem hlist_func_t" where
  "proctab_funcs = hl_funcs i_proctab_hash i_proctab_hash_get_node i_proctab_hash_get_entry i_proctab_hash_cmp"

subsection \<open>State and operations\<close>

text \<open>\<open>procs\<close> and \<open>procs_list\<close> are the addresses of the two members of the static \<open>proc_table\<close>.\<close>

record proc_table =
  pt_w :: "pid_mem hlw"
  procs :: addr
  procs_list :: addr
  registered_cnt :: int
  allocated_cnt :: int
  initproc :: addr
  nextpid :: int
  pid_wheld :: bool

definition i_proctab_init :: "proc_table \<Rightarrow> proc_table option" where
  "i_proctab_init t = do {
     (ret, w) \<leftarrow> hlist_init (pt_w t) (procs t) (of_nat NR_THREAD_HASH_BUCKETS) (Some proctab_funcs);
     h \<leftarrow> list_entry_init (hw_list w) (procs_list t);
     Some (t\<lparr>pt_w := w\<lparr>hw_list := h\<rparr>, pid_wheld := False, initproc := NULL, nextpid := 1\<rparr>) }"

definition i_proctab_set_initproc :: "proc_table \<Rightarrow> addr \<Rightarrow> proc_table option" where
  "i_proctab_set_initproc t p =
     (if p = NULL \<or> initproc t \<noteq> NULL then None else Some (t\<lparr>initproc := p\<rparr>))"

definition i_proctab_get_initproc :: "proc_table \<Rightarrow> addr option" where
  "i_proctab_get_initproc t = (if initproc t = NULL then None else Some (initproc t))"

text \<open>\<open>with_dummy\<close>: the stack slot \<open>dummy\<close> holds a thread with the given pid.\<close>

definition with_dummy :: "pid_mem hlw \<Rightarrow> addr \<Rightarrow> int \<Rightarrow> pid_mem hlw" where
  "with_dummy w dummy pid = w\<lparr>hw_mem := (hw_mem w)(dummy := word_of_int pid)\<rparr>"

definition i_proctab_get_pid_tcb_locked :: "proc_table \<Rightarrow> addr \<Rightarrow> int \<Rightarrow> addr option" where
  "i_proctab_get_pid_tcb_locked t dummy pid = hlist_get (with_dummy (pt_w t) dummy pid) (procs t) dummy"

definition i_nextpid_inc :: "proc_table \<Rightarrow> int \<Rightarrow> proc_table" where
  "i_nextpid_inc t pid = (if pid + 1 \<ge> MAXPID then t\<lparr>nextpid := 2\<rparr> else t\<lparr>nextpid := pid + 1\<rparr>)"

definition i_alloc_pid :: "proc_table \<Rightarrow> int \<times> proc_table" where
  "i_alloc_pid t =
     (if allocated_cnt t = NR_THREAD then (- EAGAIN, t)
      else (0, t\<lparr>allocated_cnt := allocated_cnt t + 1\<rparr>))"

definition i_free_pid :: "proc_table \<Rightarrow> proc_table option" where
  "i_free_pid t =
     (if allocated_cnt t > 0 then Some (t\<lparr>allocated_cnt := allocated_cnt t - 1\<rparr>) else None)"

text \<open>The search loop of \<open>proctab_proc_add\<close>.\<close>

partial_function (option) find_unused_pid :: "proc_table \<Rightarrow> addr \<Rightarrow> int \<Rightarrow> proc_table option" where
  "find_unused_pid t dummy start = do {
     p \<leftarrow> i_proctab_get_pid_tcb_locked t dummy (nextpid t);
     if p \<noteq> NULL then
       let t1 = i_nextpid_inc t (nextpid t) in
       if nextpid t1 \<noteq> start then find_unused_pid t1 dummy start else None
     else Some t }"

definition proctab_proc_add :: "proc_table \<Rightarrow> addr \<Rightarrow> addr \<Rightarrow> proc_table option" where
  "proctab_proc_add t dummy p =
     (if \<not> pid_wheld t \<or> p = NULL then None
      else do {
        detached \<leftarrow> LIST_ENTRY_IS_DETACHED (hw_list (pt_w t)) (dmp_list_entry p);
        if \<not> detached then None
        else do {
          t1 \<leftarrow> find_unused_pid t dummy (nextpid t);
          let pid = nextpid t1;
          let w1 = (pt_w t1)\<lparr>hw_mem := (hw_mem (pt_w t1))(p := word_of_int pid)\<rparr>;
          let t2 = i_nextpid_inc (t1\<lparr>pt_w := w1\<rparr>) pid;
          (existing, w2) \<leftarrow> hlist_put_rcu (pt_w t2) (procs t2) p False;
          if existing = p \<or> existing \<noteq> NULL then None
          else do {
            h \<leftarrow> list_entry_add_tail_rcu (hw_list w2) (procs_list t2) (dmp_list_entry p);
            Some (t2\<lparr>pt_w := w2\<lparr>hw_list := h\<rparr>, registered_cnt := registered_cnt t2 + 1\<rparr>) } } })"

text \<open>The out-parameter \<open>pp\<close> is the second result; \<open>pp = NULL\<close> is \<open>False\<close> in \<open>pp_given\<close>.\<close>

definition get_pid_thread :: "proc_table \<Rightarrow> addr \<Rightarrow> int \<Rightarrow> bool \<Rightarrow> (int \<times> addr) option" where
  "get_pid_thread t dummy pid pp_given =
     (if \<not> pp_given then Some (- EINVAL, NULL)
      else do {
        p \<leftarrow> hlist_get_rcu (with_dummy (pt_w t) dummy pid) (procs t) dummy;
        Some (0, p) })"

definition proctab_proc_remove :: "proc_table \<Rightarrow> addr \<Rightarrow> proc_table option" where
  "proctab_proc_remove t p =
     (if \<not> pid_wheld t then None
      else do {
        (existing, w1) \<leftarrow> hlist_pop_rcu (pt_w t) (procs t) p;
        h \<leftarrow> list_entry_del_init_rcu (hw_list w1) (dmp_list_entry p);
        let t1 = t\<lparr>pt_w := w1\<lparr>hw_list := h\<rparr>, registered_cnt := registered_cnt t - 1\<rparr>;
        if existing = NULL \<or> existing = p then Some t1 else None })"

subsection \<open>The callbacks keep the contract\<close>

lemma hlist_hash_int_not_0: "hlist_hash_int k \<noteq> 0"
  by (simp add: hlist_hash_int_def Let_def GOLDEN_RATIO_PRIME_def GOLDEN_RATIO_PRIME_64_def)

interpretation pt: hlist_keys i_proctab_hash i_proctab_hash_get_node i_proctab_hash_get_entry i_proctab_hash_cmp
    "\<lambda>pids p. pids p"
proof
  show "i_proctab_hash_cmp m hl a b = 0 \<longleftrightarrow> m a = m b" for m hl a b
    by (simp add: i_proctab_hash_cmp_def signed_eq_0_iff)
qed (simp_all add: i_proctab_hash_def hlist_hash_int_not_0 i_proctab_hash_get_node_def
      i_proctab_hash_get_entry_def proctab_entry_def)

subsection \<open>Framing the hash list\<close>

lemma hl_keyed_cong:
  "(\<And>e. e \<in> entries bs \<Longrightarrow> hash (nd e) = hash' (nd e)) \<Longrightarrow> (\<And>e. e \<in> entries bs \<Longrightarrow> key (nd e) = key' (nd e)) \<Longrightarrow>
   hl_keyed hash nd key bs = hl_keyed hash' nd key' bs"
  by (simp add: hl_keyed_def entries_def) (intro conj_cong all_cong ball_cong imp_cong refl; metis)

lemma hl_map_cong:
  "(\<And>e. e \<in> entries bs \<Longrightarrow> key (nd e) = key' (nd e)) \<Longrightarrow> hl_map nd key bs = hl_map nd key' bs"
  unfolding hl_map_def by (rule arg_cong [of _ _ map_of]) (simp add: set_concat_entries del: set_concat)

lemma hl_keyed_inj:
  "hl_keyed hash nd key bs \<Longrightarrow> e \<in> entries bs \<Longrightarrow> f \<in> entries bs \<Longrightarrow> key (nd e) = key (nd f) \<Longrightarrow> e = f"
  unfolding hl_keyed_def entries_def by blast

lemma hl_ok_mem: "hl_ok (w\<lparr>hw_mem := m\<rparr>) hl H bs = hl_ok w hl H bs"
  by (simp add: hl_ok_def)

lemma hl_ok_off:
  assumes "hl_ok w hl H bs" "same_off S (hw_list w) h'" "S \<inter> ring_nodes hl bs = {}"
  shows "hl_ok (w\<lparr>hw_list := h'\<rparr>) hl H bs"
proof -
  have "dlist h' (buckets hl i) (bs ! i)" if "i < length bs" for i
    by (rule same_off_dlist [OF assms(2) _ hl_okD(8) [OF assms(1) that]])
       (use assms(3) ring_nodes_bucket [OF that, of hl] in blast)
  then show ?thesis using assms(1) by (simp add: hl_ok_def)
qed

lemma ring_nodes_eq: "ring_nodes hl bs = {buckets hl j | j. j < length bs} \<union> entries bs"
  by (auto simp: ring_nodes_def entries_def)

subsection \<open>The invariant\<close>

definition pt_heads :: "proc_table \<Rightarrow> addr set" where
  "pt_heads t = {buckets (procs t) j | j. j < NR_THREAD_HASH_BUCKETS}"

abbreviation pids :: "proc_table \<Rightarrow> pid_mem" where
  "pids t \<equiv> hw_mem (pt_w t)"

abbreviation pid_keyed :: "pid_mem \<Rightarrow> addr list list \<Rightarrow> bool" where
  "pid_keyed m bs \<equiv> hl_keyed (i_proctab_hash m) (i_proctab_hash_get_node m) m bs"

definition pt_ok :: "proc_table \<Rightarrow> addr list \<Rightarrow> bool" where
  "pt_ok t ts \<longleftrightarrow>
     (\<exists>H bs. hl_ok (pt_w t) (procs t) H bs \<and> func H = proctab_funcs \<and> pid_keyed (pids t) bs \<and>
        length bs = NR_THREAD_HASH_BUCKETS \<and> entries bs = proctab_entry ` set ts) \<and>
     dlist (hw_list (pt_w t)) (procs_list t) (map dmp_list_entry ts) \<and>
     insert (procs_list t) (dmp_list_entry ` set ts) \<inter> (pt_heads t \<union> proctab_entry ` set ts) = {} \<and>
     registered_cnt t = int (length ts) \<and> 1 \<le> nextpid t \<and> nextpid t < MAXPID"

lemma entry_inj [simp]: "proctab_entry p = proctab_entry q \<longleftrightarrow> p = q" "dmp_list_entry p = dmp_list_entry q \<longleftrightarrow> p = q"
  "i_proctab_hash_get_node m (proctab_entry p) = p" "proctab_entry (i_proctab_hash_get_node m e) = e"
  by (simp_all add: proctab_entry_def dmp_list_entry_def i_proctab_hash_get_node_def)

lemma pt_okE:
  assumes "pt_ok t ts"
  obtains H bs where "hl_ok (pt_w t) (procs t) H bs" "func H = proctab_funcs" "pid_keyed (pids t) bs"
    "length bs = NR_THREAD_HASH_BUCKETS" "entries bs = proctab_entry ` set ts"
    "ring_nodes (procs t) bs = pt_heads t \<union> proctab_entry ` set ts"
  using assms unfolding pt_ok_def by (auto simp: ring_nodes_eq pt_heads_def)

lemma pt_okD:
  assumes "pt_ok t ts"
  shows "dlist (hw_list (pt_w t)) (procs_list t) (map dmp_list_entry ts)"
    "insert (procs_list t) (dmp_list_entry ` set ts) \<inter> (pt_heads t \<union> proctab_entry ` set ts) = {}"
    "registered_cnt t = int (length ts)" "1 \<le> nextpid t" "nextpid t < MAXPID" "distinct ts"
proof -
  show d: "dlist (hw_list (pt_w t)) (procs_list t) (map dmp_list_entry ts)" using assms by (simp add: pt_ok_def)
  then show "distinct ts" by (auto simp: dlist_def distinct_map)
qed (use assms in \<open>auto simp: pt_ok_def\<close>)

definition pid_map :: "proc_table \<Rightarrow> addr list \<Rightarrow> 32 word \<rightharpoonup> addr" where
  "pid_map t ts = map_of (map (\<lambda>p. (pids t p, p)) ts)"

lemma pids_distinct:
  assumes "pt_ok t ts" "p \<in> set ts" "q \<in> set ts" "pids t p = pids t q"
  shows "p = q"
proof -
  obtain H bs where b: "pid_keyed (pids t) bs" "entries bs = proctab_entry ` set ts"
    using pt_okE [OF assms(1)] by metis
  then have "proctab_entry p \<in> entries bs" "proctab_entry q \<in> entries bs" using assms by auto
  then have "proctab_entry p = proctab_entry q"
    by (rule hl_keyed_inj [OF b(1)]) (simp add: assms(4))
  then show ?thesis by simp
qed

lemma pid_map_Some: "pt_ok t ts \<Longrightarrow> pid_map t ts x = Some p \<longleftrightarrow> p \<in> set ts \<and> pids t p = x"
  unfolding pid_map_def by (subst map_of_inj) (auto dest: pids_distinct)

lemma pid_map_contents:
  assumes "pt_ok t ts" "entries bs = proctab_entry ` set ts" "pid_keyed (pids t) bs"
    and "\<And>p. p \<in> set ts \<Longrightarrow> m p = pids t p"
  shows "hl_map (i_proctab_hash_get_node m) m bs = pid_map t ts" "pid_keyed m bs"
proof -
  have e: "m (i_proctab_hash_get_node m' e) = pids t (i_proctab_hash_get_node m' e)" if "e \<in> entries bs" for e m'
    using that assms(2,4) by auto
  have nd: "i_proctab_hash_get_node m = i_proctab_hash_get_node (pids t)"
    by (simp add: fun_eq_iff i_proctab_hash_get_node_def)
  show "pid_keyed m bs"
    using assms(3) unfolding nd by (subst hl_keyed_cong [of _ _ _ "i_proctab_hash (pids t)" _ "pids t"])
      (simp_all add: e i_proctab_hash_def)
  have "hl_map (i_proctab_hash_get_node m) m bs = hl_map (i_proctab_hash_get_node (pids t)) (pids t) bs"
    unfolding nd by (rule hl_map_cong) (simp add: e)
  also have "\<dots> = pid_map t ts"
    by (rule map_ext_Some) (auto simp: hl_map_Some [OF assms(3)] pid_map_Some [OF assms(1)] assms(2))
  finally show "hl_map (i_proctab_hash_get_node m) m bs = pid_map t ts" .
qed

lemma pid_lookup:
  assumes ok: "pt_ok t ts" and d: "dummy \<notin> set ts" "dummy \<noteq> NULL"
  shows "i_proctab_get_pid_tcb_locked t dummy pid =
      Some (case pid_map t ts (word_of_int pid) of None \<Rightarrow> NULL | Some p \<Rightarrow> p)"
    "get_pid_thread t dummy pid True = Some (0, case pid_map t ts (word_of_int pid) of None \<Rightarrow> NULL | Some p \<Rightarrow> p)"
proof -
  obtain H bs where b: "hl_ok (pt_w t) (procs t) H bs" "func H = proctab_funcs" "pid_keyed (pids t) bs"
    "entries bs = proctab_entry ` set ts" using pt_okE [OF ok] by metis
  let ?w = "with_dummy (pt_w t) dummy pid"
  have m: "hw_mem ?w p = pids t p" if "p \<in> set ts" for p using that d(1) by (auto simp: with_dummy_def)
  note c = pid_map_contents [OF ok b(4,3) m]
  have h: "hl_ok ?w (procs t) H bs" using b(1) by (simp add: with_dummy_def hl_ok_mem)
  have "hw_mem ?w dummy = word_of_int pid" by (simp add: with_dummy_def)
  then show "i_proctab_get_pid_tcb_locked t dummy pid =
      Some (case pid_map t ts (word_of_int pid) of None \<Rightarrow> NULL | Some p \<Rightarrow> p)"
    "get_pid_thread t dummy pid True = Some (0, case pid_map t ts (word_of_int pid) of None \<Rightarrow> NULL | Some p \<Rightarrow> p)"
    using pt.hlist_get_ok [OF h b(2) [unfolded proctab_funcs_def] c(2) d(2)] c(1)
    by (simp_all add: i_proctab_get_pid_tcb_locked_def get_pid_thread_def)
qed

subsection \<open>Pid allocation\<close>

definition pidseq :: "int \<Rightarrow> nat \<Rightarrow> int" where
  "pidseq s k = (if s + int k < MAXPID then s + int k else s + int k - (MAXPID - 2))"

lemma pidseq_0: "s < MAXPID \<Longrightarrow> pidseq s 0 = s"
  by (simp add: pidseq_def)

lemma pidseq_bounds: "1 \<le> s \<Longrightarrow> s < MAXPID \<Longrightarrow> int k < MAXPID - 2 \<Longrightarrow> 1 \<le> pidseq s k \<and> pidseq s k < MAXPID"
  by (auto simp: pidseq_def MAXPID_def)

lemma pidseq_inj:
  "1 \<le> s \<Longrightarrow> s < MAXPID \<Longrightarrow> int j < MAXPID - 2 \<Longrightarrow> int k < MAXPID - 2 \<Longrightarrow> pidseq s j = pidseq s k \<longleftrightarrow> j = k"
  by (auto simp: pidseq_def MAXPID_def split: if_splits)

lemma nextpid_pidseq:
  "1 \<le> s \<Longrightarrow> s < MAXPID \<Longrightarrow> int k < MAXPID - 2 \<Longrightarrow> i_nextpid_inc t (pidseq s k) = t\<lparr>nextpid := pidseq s (Suc k)\<rparr>"
  by (auto simp: pidseq_def i_nextpid_inc_def MAXPID_def)

lemma pt_ok_nextpid: "pt_ok t ts \<Longrightarrow> 1 \<le> n \<Longrightarrow> n < MAXPID \<Longrightarrow> pt_ok (t\<lparr>nextpid := n\<rparr>) ts"
  by (simp add: pt_ok_def pt_heads_def)

lemma pid_word_inj: "0 \<le> x \<Longrightarrow> x < MAXPID \<Longrightarrow> 0 \<le> y \<Longrightarrow> y < MAXPID \<Longrightarrow> (word_of_int x :: 32 word) = word_of_int y \<Longrightarrow> x = y"
  by (auto simp: word_of_int_eq_iff MAXPID_def take_bit_int_eq_self)

lemma find_unused_from:
  assumes ok: "pt_ok t ts" and d: "dummy \<notin> set ts" "dummy \<noteq> NULL" and nn: "NULL \<notin> set ts"
    and s: "1 \<le> s" "s < MAXPID" "int k < MAXPID - 2"
    and f: "pid_map t ts (word_of_int (pidseq s k)) = None" "\<And>j. j < k \<Longrightarrow> pid_map t ts (word_of_int (pidseq s j)) \<noteq> None"
    and "j \<le> k"
  shows "find_unused_pid (t\<lparr>nextpid := pidseq s j\<rparr>) dummy s = Some (t\<lparr>nextpid := pidseq s k\<rparr>)"
  using \<open>j \<le> k\<close>
proof (induction "k - j" arbitrary: j)
  case 0
  let ?t = "t\<lparr>nextpid := pidseq s k\<rparr>"
  have "pt_ok ?t ts" using pidseq_bounds [OF s] by (intro pt_ok_nextpid [OF ok]) auto
  moreover have "pid_map ?t ts = pid_map t ts" by (simp add: pid_map_def)
  ultimately show ?case using pid_lookup(1) [of ?t ts dummy] d f(1) 0 by (subst find_unused_pid.simps) simp
next
  case (Suc n)
  let ?t = "t\<lparr>nextpid := pidseq s j\<rparr>"
  have j: "j < k" "int j < MAXPID - 2" using Suc.hyps(2) s(3) by auto
  have ok': "pt_ok ?t ts" using pidseq_bounds [OF s(1,2) j(2)] by (intro pt_ok_nextpid [OF ok]) auto
  obtain p where p: "pid_map t ts (word_of_int (pidseq s j)) = Some p" using f(2) [OF j(1)] by blast
  then have "p \<noteq> NULL" using nn pid_map_Some [OF ok] by auto
  moreover have "pid_map ?t ts = pid_map t ts" by (simp add: pid_map_def)
  moreover have "pidseq s (Suc j) \<noteq> s"
    using pidseq_inj [OF s(1,2), of "Suc j" 0] j(1) s pidseq_0 [of s] by auto
  moreover have "find_unused_pid (t\<lparr>nextpid := pidseq s (Suc j)\<rparr>) dummy s = Some (t\<lparr>nextpid := pidseq s k\<rparr>)"
    by (rule Suc.hyps(1)) (use Suc.hyps(2) j in auto)
  ultimately show ?case
    using pid_lookup(1) [OF ok' d, of "pidseq s j"] p nextpid_pidseq [OF s(1,2) j(2), of ?t]
    by (subst find_unused_pid.simps) simp
qed

lemma free_pid_exists:
  assumes ok: "pt_ok t ts" and s: "1 \<le> s" "s < MAXPID" and n: "int (length ts) < NR_THREAD"
  shows "\<exists>k \<le> length ts. pid_map t ts (word_of_int (pidseq s k)) = None"
proof (rule ccontr)
  assume "\<not> ?thesis"
  then have t: "\<exists>p \<in> set ts. pids t p = word_of_int (pidseq s k)" if "k \<le> length ts" for k
    using that pid_map_Some [OF ok] by (metis not_None_eq)
  let ?f = "\<lambda>k. word_of_int (pidseq s k) :: 32 word"
  have b: "int k < MAXPID - 2" if "k \<le> length ts" for k using that n by (simp add: NR_THREAD_def MAXPID_def)
  have "inj_on ?f {..length ts}"
  proof (rule inj_onI)
    fix j k assume jk: "j \<in> {..length ts}" "k \<in> {..length ts}" "?f j = ?f k"
    have "pidseq s j = pidseq s k"
      by (rule pid_word_inj [OF _ _ _ _ jk(3)])
         (use pidseq_bounds [OF s b, of j] pidseq_bounds [OF s b, of k] jk(1,2) in auto)
    then show "j = k" using pidseq_inj [OF s b b, of j k] jk(1,2) by simp
  qed
  moreover have "?f ` {..length ts} \<subseteq> pids t ` set ts" using t by (force simp: image_iff)
  ultimately have "card {..length ts} \<le> card (pids t ` set ts)"
    by (metis card_image card_mono finite_imageI List.finite_set)
  also have "\<dots> \<le> length ts" using card_image_le [OF List.finite_set] card_length le_trans by blast
  finally show False by simp
qed

lemma find_unused_pid_ok:
  assumes ok: "pt_ok t ts" and d: "dummy \<notin> set ts" "dummy \<noteq> NULL" and nn: "NULL \<notin> set ts"
    and n: "int (length ts) < NR_THREAD"
  shows "\<exists>pid. find_unused_pid t dummy (nextpid t) = Some (t\<lparr>nextpid := pid\<rparr>) \<and> 1 \<le> pid \<and> pid < MAXPID \<and>
    pid_map t ts (word_of_int pid) = None"
proof -
  let ?s = "nextpid t" let ?P = "\<lambda>k. pid_map t ts (word_of_int (pidseq ?s k)) = None"
  note s = pt_okD(4,5) [OF ok]
  obtain k0 where k0: "k0 \<le> length ts" "?P k0" using free_pid_exists [OF ok s n] by blast
  define k where "k = (LEAST k. ?P k)"
  have k: "?P k" "k \<le> k0" "\<And>j. j < k \<Longrightarrow> \<not> ?P j"
    unfolding k_def using LeastI [of ?P, OF k0(2)] Least_le [of ?P, OF k0(2)] not_less_Least by blast+
  have kb: "int k < MAXPID - 2" using k(2) k0(1) n by (simp add: NR_THREAD_def MAXPID_def)
  have "find_unused_pid (t\<lparr>nextpid := pidseq ?s 0\<rparr>) dummy ?s = Some (t\<lparr>nextpid := pidseq ?s k\<rparr>)"
    by (rule find_unused_from [OF ok d nn s kb k(1)]) (use k(3) in auto)
  then show ?thesis using pidseq_0 [OF s(2)] pidseq_bounds [OF s kb] k(1) by (intro exI [of _ "pidseq ?s k"]) simp
qed

subsection \<open>Registering and removing a thread\<close>

lemma list_entry_init_rcu_eq: "list_entry_init_rcu h e = list_entry_init h e"
  by (cases "set_next h e e"; cases "set_prev (the (set_next h e e)) e e")
     (simp_all add: list_entry_init_rcu_def list_entry_init_def)

lemma list_entry_del_init_rcu_ok:
  assumes d: "dlist h head (xs @ e # ys)"
  shows "\<exists>h'. list_entry_del_init_rcu h e = Some h' \<and> dlist h' head (xs @ ys) \<and> dlist h' e [] \<and>
    same_off (insert head (set (xs @ e # ys))) h h'"
proof -
  obtain h1 where h1: "list_entry_del_rcu h e = Some h1" "dlist h1 head (xs @ ys)"
    "same_off (insert head (set (xs @ ys))) h h1" using list_entry_del_rcu_ok [OF d] by blast
  have e: "e \<notin> insert head (set (xs @ ys))" using d by (auto simp: dlist_def)
  have "alloc h1 e" using dlist_alloc [OF d, of e] h1(3) by (simp add: same_off_def)
  then obtain h2 where h2: "list_entry_init h1 e = Some h2" "dlist h2 e []" "same_off {e} h1 h2"
    using list_entry_init_ok by blast
  have "dlist h2 head (xs @ ys)" by (rule same_off_dlist [OF h2(3) _ h1(2)]) (use e in auto)
  moreover have "same_off (insert head (set (xs @ e # ys))) h h2"
    by (rule same_off_trans [OF same_off_mono [OF h1(3)] same_off_mono [OF h2(3)]]) auto
  ultimately show ?thesis using h1(1) h2 by (simp add: list_entry_del_init_rcu_def list_entry_init_rcu_eq)
qed

text \<open>A thread that can be registered: initialised entries in memory of its own.\<close>

definition thread_fresh :: "proc_table \<Rightarrow> addr list \<Rightarrow> addr \<Rightarrow> bool" where
  "thread_fresh t ts p \<longleftrightarrow> p \<noteq> NULL \<and> p \<notin> set ts \<and>
     alloc (hw_list (pt_w t)) (proctab_entry p) \<and> hw_bucket (pt_w t) (proctab_entry p) = Some NULL \<and>
     get_next (hw_list (pt_w t)) (dmp_list_entry p) = Some (dmp_list_entry p) \<and>
     {proctab_entry p, dmp_list_entry p} \<inter> insert (procs_list t) (pt_heads t) = {} \<and>
     dmp_list_entry p \<notin> proctab_entry ` set ts \<and> proctab_entry p \<notin> dmp_list_entry ` set ts"

lemma proctab_add_ok:
  assumes ok: "pt_ok t ts" and l: "pid_wheld t" and d: "dummy \<notin> set ts" "dummy \<noteq> NULL" and nn: "NULL \<notin> set ts"
    and n: "int (length ts) < NR_THREAD" and f: "thread_fresh t ts p"
  shows "\<exists>pid t'. proctab_proc_add t dummy p = Some t' \<and> pt_ok t' (ts @ [p]) \<and> 1 \<le> pid \<and> pid < MAXPID \<and>
    (\<forall>q \<in> set ts. pids t q \<noteq> word_of_int pid) \<and> pids t' = (pids t)(p := word_of_int pid)"
proof -
  obtain H bs where b: "hl_ok (pt_w t) (procs t) H bs" "func H = proctab_funcs" "pid_keyed (pids t) bs"
    "length bs = NR_THREAD_HASH_BUCKETS" "entries bs = proctab_entry ` set ts"
    "ring_nodes (procs t) bs = pt_heads t \<union> proctab_entry ` set ts" by (rule pt_okE [OF ok])
  note D = pt_okD [OF ok]
  obtain pid where pid: "find_unused_pid t dummy (nextpid t) = Some (t\<lparr>nextpid := pid\<rparr>)" "1 \<le> pid" "pid < MAXPID"
    "pid_map t ts (word_of_int pid) = None" using find_unused_pid_ok [OF ok d nn n] by blast
  define m where "m = (pids t)(p := word_of_int pid)"
  define w1 where "w1 = (pt_w t)\<lparr>hw_mem := m\<rparr>"
  obtain nx where nx: "1 \<le> nx" "nx < MAXPID" "i_nextpid_inc (t\<lparr>nextpid := pid, pt_w := w1\<rparr>) pid = t\<lparr>pt_w := w1, nextpid := nx\<rparr>"
  proof (cases "pid + 1 \<ge> MAXPID")
    case True
    then show thesis using that [of 2] by (simp add: i_nextpid_inc_def MAXPID_def)
  next
    case False
    then show thesis using that [of "pid + 1"] pid(2) by (simp add: i_nextpid_inc_def)
  qed
  have m: "m q = pids t q" if "q \<in> set ts" for q using that f by (auto simp: m_def thread_fresh_def)
  note c = pid_map_contents [OF ok b(5,3) m]
  have w1: "hw_mem w1 = m" "m p = word_of_int pid" "hw_list w1 = hw_list (pt_w t)" "hw_bucket w1 = hw_bucket (pt_w t)"
    by (simp_all add: w1_def m_def)
  have h1: "hl_ok w1 (procs t) H bs" using b(1) by (simp add: w1_def hl_ok_mem)
  let ?e = "proctab_entry p"
  have e: "?e \<notin> ring_nodes (procs t) bs" "?e \<notin> insert (procs_list t) (dmp_list_entry ` set ts)"
    using f b(6) by (auto simp: thread_fresh_def)
  have fe: "fresh_entry w1 (procs t) bs (i_proctab_hash_get_entry (hw_mem w1) p)"
    using f e(1) by (auto simp: fresh_entry_def thread_fresh_def w1 i_proctab_hash_get_entry_def ring_nodes_def)
  obtain w2 H' bs' where w2: "hlist_put_rcu w1 (procs t) p False = Some (NULL, w2)" "hl_ok w2 (procs t) H' bs'"
    "func H' = proctab_funcs" "hl_frame (procs t) bs ?e w1 w2" "entries bs' = insert ?e (entries bs)"
    "length bs' = length bs" "pid_keyed m bs'"
    using pt.hlist_put_new [OF h1 b(2) [unfolded proctab_funcs_def] _ _ fe, of hlist_put_rcu False] c f pid(4) hl_frame_mem [of _ _ _ w1]
    by (auto simp: w1 thread_fresh_def proctab_funcs_def i_proctab_hash_get_entry_def)
  have so: "same_off (insert ?e (ring_nodes (procs t) bs)) (hw_list (pt_w t)) (hw_list w2)"
    using w2(4) by (simp add: hl_frame_def w1)
  have d2: "dlist (hw_list w2) (procs_list t) (map dmp_list_entry ts)"
    by (rule same_off_dlist [OF so _ D(1)]) (use e(2) D(2) b(6) in auto)
  let ?d = "dmp_list_entry p"
  have dd: "alloc (hw_list (pt_w t)) ?d" "?d \<notin> insert (procs_list t) (set (map dmp_list_entry ts))"
    "?d \<notin> ring_nodes (procs t) bs" "?d \<noteq> ?e"
    using f get_alloc(1) [of "hw_list (pt_w t)" ?d] b(6)
    by (auto simp: thread_fresh_def) (simp_all add: proctab_entry_def dmp_list_entry_def)
  have "alloc (hw_list w2) ?d" using dd(1) so by (simp add: same_off_def)
  then obtain h3 where h3: "list_entry_add_tail_rcu (hw_list w2) (procs_list t) ?d = Some h3"
    "dlist h3 (procs_list t) (map dmp_list_entry ts @ [?d])"
    "same_off (insert ?d (insert (procs_list t) (set (map dmp_list_entry ts)))) (hw_list w2) h3"
    using list_entry_add_tail_rcu_ok [OF d2 _ dd(2)] by blast
  let ?t = "t\<lparr>nextpid := nx, pt_w := w2\<lparr>hw_list := h3\<rparr>, registered_cnt := registered_cnt t + 1\<rparr>"
  have r2: "ring_nodes (procs t) bs' = insert ?e (ring_nodes (procs t) bs)" using w2(5,6) by (simp add: ring_nodes_eq)
  have "hl_ok (w2\<lparr>hw_list := h3\<rparr>) (procs t) H' bs'"
    by (rule hl_ok_off [OF w2(2) h3(3)]) (use r2 b(6) e dd D(2) in auto)
  moreover have mem: "hw_mem w2 = m" using hl_frame_mem [OF w2(4)] by (simp add: w1)
  ultimately have "pt_ok ?t (ts @ [p])"
    unfolding pt_ok_def using w2(3,5,6,7) b(4-6) h3(2) nx D(2,3) e dd
    by (auto simp: pt_heads_def intro!: exI [of _ H'] exI [of _ bs'])
  moreover have "proctab_proc_add t dummy p = Some ?t"
    using l f pid(1) w2(1) h3(1) nx(3) by (simp add: proctab_proc_add_def thread_fresh_def LIST_ENTRY_IS_DETACHED_def w1_def m_def)
  moreover have "\<forall>q \<in> set ts. pids t q \<noteq> word_of_int pid"
    using pid(4) pid_map_Some [OF ok] by (metis option.distinct(1))
  ultimately show ?thesis using pid(2,3) mem
    by (intro exI [of _ pid] exI [of _ ?t]) (simp add: m_def)
qed

lemma proctab_remove_ok:
  assumes ok: "pt_ok t (xs @ p # ys)" and l: "pid_wheld t" "p \<noteq> NULL"
  shows "\<exists>t'. proctab_proc_remove t p = Some t' \<and> pt_ok t' (xs @ ys) \<and> pids t' = pids t"
proof -
  let ?ts = "xs @ p # ys" let ?e = "proctab_entry p" let ?d = "dmp_list_entry p"
  obtain H bs where b: "hl_ok (pt_w t) (procs t) H bs" "func H = proctab_funcs" "pid_keyed (pids t) bs"
    "length bs = NR_THREAD_HASH_BUCKETS" "entries bs = proctab_entry ` set ?ts"
    "ring_nodes (procs t) bs = pt_heads t \<union> proctab_entry ` set ?ts" by (rule pt_okE [OF ok])
  note D = pt_okD [OF ok] and c = pid_map_contents(1) [OF ok b(5,3) refl]
  have "pid_map t ?ts (pids t p) = Some p" by (simp add: pid_map_Some [OF ok])
  then obtain w1 H' bs' where w1: "hlist_pop_rcu (pt_w t) (procs t) p = Some (p, w1)" "hl_ok w1 (procs t) H' bs'"
    "func H' = proctab_funcs" "hl_frame (procs t) bs ?e (pt_w t) w1" "entries bs' = entries bs - {?e}"
    "length bs' = length bs" "hw_mem w1 = pids t" "pid_keyed (pids t) bs'"
    using pt.hlist_pop_key [OF b(1) b(2) [unfolded proctab_funcs_def] b(3) l(2), of hlist_pop_rcu] c
      hl_frame_mem [of _ _ _ "pt_w t"]
    by (auto simp: proctab_funcs_def i_proctab_hash_get_entry_def)
  have ent: "entries bs' = proctab_entry ` set (xs @ ys)" using w1(5) b(5) D(6) by auto
  have so: "same_off (ring_nodes (procs t) bs) (hw_list (pt_w t)) (hw_list w1)"
    using w1(4) b(6) by (auto simp: hl_frame_def insert_absorb)
  have d1: "dlist (hw_list w1) (procs_list t) (map dmp_list_entry xs @ ?d # map dmp_list_entry ys)"
    by (rule same_off_dlist [OF so]) (use D(1,2) b(6) in auto)
  obtain h2 where h2: "list_entry_del_init_rcu (hw_list w1) ?d = Some h2"
    "dlist h2 (procs_list t) (map dmp_list_entry xs @ map dmp_list_entry ys)"
    "same_off (insert (procs_list t) (set (map dmp_list_entry xs @ ?d # map dmp_list_entry ys))) (hw_list w1) h2"
    using list_entry_del_init_rcu_ok [OF d1] by blast
  let ?t = "t\<lparr>pt_w := w1\<lparr>hw_list := h2\<rparr>, registered_cnt := registered_cnt t - 1\<rparr>"
  have r2: "ring_nodes (procs t) bs' \<subseteq> ring_nodes (procs t) bs" using w1(5,6) by (auto simp: ring_nodes_eq)
  have "insert (procs_list t) (dmp_list_entry ` set ?ts) \<inter> ring_nodes (procs t) bs' = {}" using r2 b(6) D(2) by blast
  then have "hl_ok (w1\<lparr>hw_list := h2\<rparr>) (procs t) H' bs'"
    by (intro hl_ok_off [OF w1(2) h2(3)]) (simp add: image_Un)
  then have "pt_ok ?t (xs @ ys)"
    unfolding pt_ok_def using w1(3,6,7,8) ent b(4) h2(2) D(2-5)
    by (auto simp: pt_heads_def intro!: exI [of _ H'] exI [of _ bs'])
  moreover have "proctab_proc_remove t p = Some ?t" using l w1(1) h2(1) by (simp add: proctab_proc_remove_def)
  ultimately show ?thesis using w1(7) by auto
qed

lemma proctab_init_ok:
  assumes "procs t \<noteq> NULL" "hw_hlists (pt_w t) (procs t) = Some H0" "registered_cnt t = 0"
    and a: "\<forall>z \<in> insert (procs_list t) (pt_heads t). alloc (hw_list (pt_w t)) z" and d: "procs_list t \<notin> pt_heads t"
  shows "\<exists>t'. i_proctab_init t = Some t' \<and> pt_ok t' [] \<and> procs t' = procs t \<and> procs_list t' = procs_list t \<and>
    hw_bucket (pt_w t') = hw_bucket (pt_w t) \<and>
    same_off (insert (procs_list t) (pt_heads t)) (hw_list (pt_w t)) (hw_list (pt_w t'))"
proof -
  let ?n = NR_THREAD_HASH_BUCKETS
  have n: "0 < ?n" "?n \<le> 0xffff" by (simp_all add: NR_THREAD_HASH_BUCKETS_def)
  have al: "\<forall>j < ?n. alloc (hw_list (pt_w t)) (buckets (procs t) j)" using a by (auto simp: pt_heads_def)
  have hd: "ring_nodes (procs t) (replicate ?n []) = pt_heads t" by (auto simp: ring_nodes_def pt_heads_def)
  obtain w H where w: "hlist_init (pt_w t) (procs t) (of_nat ?n) (Some proctab_funcs) = Some (0, w)"
    "hl_ok w (procs t) H (replicate ?n [])" "func H = proctab_funcs"
    "hw_bucket w = hw_bucket (pt_w t)" "same_off (pt_heads t) (hw_list (pt_w t)) (hw_list w)"
    using pt.hlist_init_ok [OF assms(1,2) n al] unfolding hd proctab_funcs_def by blast
  have "alloc (hw_list w) (procs_list t)" using a w(5) by (simp add: same_off_def)
  then obtain h where h: "list_entry_init (hw_list w) (procs_list t) = Some h" "dlist h (procs_list t) []"
    "same_off {procs_list t} (hw_list w) h" using list_entry_init_ok by blast
  let ?t = "t\<lparr>pt_w := w\<lparr>hw_list := h\<rparr>, pid_wheld := False, initproc := NULL, nextpid := 1\<rparr>"
  have "hl_ok (w\<lparr>hw_list := h\<rparr>) (procs t) H (replicate ?n [])"
    by (rule hl_ok_off [OF w(2) h(3)]) (use d hd in auto)
  moreover have "entries (replicate ?n []) = {}" by (auto simp: entries_def)
  ultimately have "pt_ok ?t []" unfolding pt_ok_def using w(3) h(2) assms(3) d
    by (auto simp: MAXPID_def hl_keyed_def pt_heads_def intro!: exI [of _ H] exI [of _ "replicate ?n []"])
  moreover have "same_off (insert (procs_list t) (pt_heads t)) (hw_list (pt_w t)) h"
    by (rule same_off_trans [OF same_off_mono [OF w(5)] same_off_mono [OF h(3)]]) auto
  moreover have "i_proctab_init t = Some ?t" using w(1) h(1) by (simp add: i_proctab_init_def)
  ultimately show ?thesis using w(4) by (intro exI [of _ ?t]) simp
qed

subsection \<open>Properties\<close>

text \<open>For witnesses: a table in zeroed memory in which every list node is self-linked, after initialisation.\<close>

definition pt_demo0 :: proc_table where
  "pt_demo0 = \<lparr>pt_w = \<lparr>hw_list = (\<lambda>a. Some \<lparr>ln_prev = a, ln_next = a\<rparr>), hw_bucket = (\<lambda>_. Some NULL),
       hw_hlists = [4096 \<mapsto> \<lparr>bucket_cnt = 0, elem_cnt = 0, func = proctab_funcs\<rparr>], hw_mem = (\<lambda>_. 0)\<rparr>,
     procs = 4096, procs_list = 8192, registered_cnt = 0, allocated_cnt = 0, initproc = NULL, nextpid = 0, pid_wheld = False\<rparr>"

definition pt_demo :: proc_table where
  "pt_demo = (the (i_proctab_init pt_demo0))\<lparr>pid_wheld := True\<rparr>"

lemma pt_demo0_sel [simp]:
  "procs pt_demo0 = 4096" "procs_list pt_demo0 = 8192" "registered_cnt pt_demo0 = 0"
  "hw_bucket (pt_w pt_demo0) = (\<lambda>_. Some NULL)" "hw_list (pt_w pt_demo0) = (\<lambda>a. Some \<lparr>ln_prev = a, ln_next = a\<rparr>)"
  "hw_hlists (pt_w pt_demo0) 4096 = Some \<lparr>bucket_cnt = 0, elem_cnt = 0, func = proctab_funcs\<rparr>"
  by (simp_all add: pt_demo0_def)

lemma pt_heads_demo: "x \<in> pt_heads t \<Longrightarrow> procs t = 4096 \<Longrightarrow> unat x \<ge> 4096 \<and> unat x < 8192"
proof -
  assume "x \<in> pt_heads t" "procs t = 4096"
  then obtain j where j: "j < 31" "x = 4096 + 48 + 16 * of_nat j"
    by (auto simp: pt_heads_def buckets_def NR_THREAD_HASH_BUCKETS_def)
  then have "x = of_nat (4144 + 16 * j)" by simp
  then have "unat x = 4144 + 16 * j" using j(1) by (simp only: unat_of_nat) simp
  then show ?thesis using j(1) by simp
qed

lemma pt_demo_ok: "pt_ok pt_demo []" "thread_fresh pt_demo [] 65536" "pid_wheld pt_demo"
  and pt_demo_procs: "procs pt_demo = 4096"
proof -
  have nh: "x \<notin> pt_heads t" if "unat x \<ge> 8192" "procs t = 4096" for x t using pt_heads_demo [of x t] that by auto
  have a: "alloc (hw_list (pt_w pt_demo0)) x \<longleftrightarrow> x \<noteq> NULL" for x by (simp add: alloc_def)
  have "NULL \<notin> pt_heads pt_demo0" using pt_heads_demo [of NULL pt_demo0] by auto
  moreover have "procs_list pt_demo0 \<noteq> NULL" by simp
  ultimately have "\<forall>z \<in> insert (procs_list pt_demo0) (pt_heads pt_demo0). alloc (hw_list (pt_w pt_demo0)) z"
    unfolding a by auto
  moreover have "procs_list pt_demo0 \<notin> pt_heads pt_demo0" by (rule nh) simp_all
  ultimately obtain t' where t': "i_proctab_init pt_demo0 = Some t'" "pt_ok t' []" "procs t' = 4096" "procs_list t' = 8192"
    "hw_bucket (pt_w t') = (\<lambda>_. Some NULL)"
    "same_off (insert (procs_list pt_demo0) (pt_heads pt_demo0)) (hw_list (pt_w pt_demo0)) (hw_list (pt_w t'))"
    using proctab_init_ok [of pt_demo0] by auto
  have p: "pt_demo = t'\<lparr>pid_wheld := True\<rparr>" using t'(1) by (simp add: pt_demo_def)
  show "pt_ok pt_demo []" using t'(2) by (simp add: p pt_ok_def pt_heads_def)
  show "pid_wheld pt_demo" "procs pt_demo = 4096" using t'(3) by (simp_all add: p)
  have "hw_list (pt_w t') z = Some \<lparr>ln_prev = z, ln_next = z\<rparr>" if "unat z \<ge> 65536" for z
  proof -
    have "z \<notin> insert (procs_list pt_demo0) (pt_heads pt_demo0)"
      using nh [of z pt_demo0] that by auto
    then show ?thesis using t'(6) by (simp add: same_off_def)
  qed
  then show "thread_fresh pt_demo [] 65536"
    using nh [of "65536 + 448" pt_demo] nh [of "65536 + 472" pt_demo] t'(3-5)
    by (simp add: thread_fresh_def p proctab_entry_def dmp_list_entry_def alloc_def get_next_def deref_def domIff)
qed

text \<open>
  C8. Registering a thread always terminates with a pid that no registered thread has, in the
  range below \<open>MAXPID\<close>, provided fewer than \<open>NR_THREAD\<close> threads are registered; the search wraps
  around. Afterwards the thread is found under its pid, in the hash list and at the end of the
  dump list, every other pid finds what it found before, and the table is well formed.
\<close>

theorem proctab_add_unique_pid:
  assumes "pt_ok t ts" "pid_wheld t" "NULL \<notin> set ts" "int (length ts) < NR_THREAD" "thread_fresh t ts p"
    and d: "dummy \<notin> set (p # ts)" "dummy \<noteq> NULL"
  shows "\<exists>pid t'. proctab_proc_add t dummy p = Some t' \<and> pt_ok t' (ts @ [p]) \<and> 1 \<le> pid \<and> pid < MAXPID \<and>
    (\<forall>q \<in> set ts. pids t q \<noteq> word_of_int pid) \<and> get_pid_thread t' dummy pid True = Some (0, p) \<and>
    (\<forall>x. (word_of_int x :: 32 word) \<noteq> word_of_int pid \<longrightarrow>
      get_pid_thread t' dummy x True = get_pid_thread t dummy x True)"
proof -
  obtain pid t' where t': "proctab_proc_add t dummy p = Some t'" "pt_ok t' (ts @ [p])" "1 \<le> pid" "pid < MAXPID"
    "\<forall>q \<in> set ts. pids t q \<noteq> word_of_int pid" "pids t' = (pids t)(p := word_of_int pid)"
    using proctab_add_ok [OF assms(1,2) _ d(2) assms(3-5)] d(1) by auto
  have pn: "p \<notin> set ts" using assms(5) by (simp add: thread_fresh_def)
  have "pid_map t' (ts @ [p]) = (pid_map t ts)(word_of_int pid \<mapsto> p)"
    by (rule map_ext_Some)
       (use t'(5,6) pn in \<open>auto simp: pid_map_Some [OF t'(2)] pid_map_Some [OF assms(1)]\<close>)
  then have "get_pid_thread t' dummy pid True = Some (0, p)"
    "(word_of_int x :: 32 word) \<noteq> word_of_int pid \<Longrightarrow> get_pid_thread t' dummy x True = get_pid_thread t dummy x True" for x
    using pid_lookup(2) [OF t'(2), of dummy] pid_lookup(2) [OF assms(1), of dummy] d by simp_all
  then show ?thesis using t' by blast
qed

theorem proctab_add_unique_pid_witness:
  "\<exists>pid t'. proctab_proc_add pt_demo 4 65536 = Some t' \<and> pt_ok t' [65536] \<and> get_pid_thread t' 4 pid True = Some (0, 65536)"
  using proctab_add_unique_pid [OF pt_demo_ok(1,3) _ _ pt_demo_ok(2), of 4] by (auto simp: NR_THREAD_def)

text \<open>
  C23. Removing a registered thread makes its pid unknown and free, leaves every other lookup and the
  order of the dump list unchanged, and keeps the table well formed.
\<close>

theorem proctab_remove_lookup:
  assumes "pt_ok t (xs @ p # ys)" "pid_wheld t" "p \<noteq> NULL" and d: "dummy \<notin> set (xs @ p # ys)" "dummy \<noteq> NULL"
  shows "\<exists>t'. proctab_proc_remove t p = Some t' \<and> pt_ok t' (xs @ ys) \<and>
    (\<forall>x. get_pid_thread t' dummy x True =
      (if word_of_int x = pids t p then Some (0, NULL) else get_pid_thread t dummy x True))"
proof -
  obtain t' where t': "proctab_proc_remove t p = Some t'" "pt_ok t' (xs @ ys)" "pids t' = pids t"
    using proctab_remove_ok [OF assms(1-3)] by blast
  have pn: "p \<notin> set (xs @ ys)" using pt_okD(6) [OF assms(1)] by auto
  have un: "q = p" if "q \<in> set (xs @ ys)" "pids t q = pids t p" for q
    using pids_distinct [OF assms(1), of q p] that by auto
  have "pid_map t' (xs @ ys) = (pid_map t (xs @ p # ys))(pids t p := None)"
    by (rule map_ext_Some)
       (use t'(3) pn un in \<open>auto simp: pid_map_Some [OF t'(2)] pid_map_Some [OF assms(1)]\<close>)
  then show ?thesis using t' pid_lookup(2) [OF t'(2), of dummy] pid_lookup(2) [OF assms(1), of dummy] d by simp
qed

theorem proctab_remove_lookup_witness:
  "\<exists>t t' pid. proctab_proc_add pt_demo 4 65536 = Some t \<and> proctab_proc_remove (t\<lparr>pid_wheld := True\<rparr>) 65536 = Some t' \<and>
     get_pid_thread t' 4 pid True = Some (0, NULL)"
proof -
  obtain t where t: "proctab_proc_add pt_demo 4 65536 = Some t" "pt_ok t ([] @ 65536 # [])"
    using proctab_add_ok [OF pt_demo_ok(1,3) _ _ _ _ pt_demo_ok(2), of 4] by (auto simp: NR_THREAD_def)
  have "pt_ok (t\<lparr>pid_wheld := True\<rparr>) ([] @ 65536 # [])" using t(2) by (simp add: pt_ok_def pt_heads_def)
  from proctab_remove_lookup [OF this, of 4] obtain t' where
    "proctab_proc_remove (t\<lparr>pid_wheld := True\<rparr>) 65536 = Some t'"
    "\<forall>x. get_pid_thread t' 4 x True = (if word_of_int x = pids t 65536 then Some (0, NULL)
       else get_pid_thread (t\<lparr>pid_wheld := True\<rparr>) 4 x True)" by auto
  then show ?thesis using t(1) by (metis word_of_int_uint)
qed


theorem hlist_foreach_visits_all_witness:
  "\<exists>xs. hlist_foreach_node (pt_w pt_demo) 4096 = Some xs \<and> hlist_foreach_node_reverse (pt_w pt_demo) 4096 = Some (rev xs)"
  using pt_okE [OF pt_demo_ok(1)] hlist_foreach_visits_all [of "pt_w pt_demo" 4096] unfolding pt_demo_procs by metis

end
