(* ===== verification/Thread_Queue.thy ===== *)
theory Thread_Queue
  imports Linked_List
begin

text \<open>
  The list-based thread queues of \<open>kernel/proc/thread_queue.c\<close> on which every sleeping lock is
  built. The world holds the ring heap, the wait nodes, the queues and, in order, the threads that
  were handed to \<open>scheduler_wakeup\<close>. An \<open>ERR_PTR\<close> result is the left summand. A failed assertion
  or a panic is \<open>None\<close>. \<open>tq_wait\<close> is split where the thread gives up the processor:
  \<open>tq_wait_begin\<close> runs up to \<open>scheduler_yield\<close>, \<open>tq_wait_end\<close> after it. \<open>tq_ok\<close> relates a queue
  to the list of its waiting nodes; the locale \<open>fifo_queue\<close> is the contract its clients rely on.
\<close>

subsection \<open>State\<close>

datatype thread_state = THREAD_UNUSED | THREAD_USED | THREAD_INTERRUPTIBLE | THREAD_KIILABLE
  | THREAD_TIMER | THREAD_KIILABLE_TIMER | THREAD_UNINTERRUPTIBLE | THREAD_WAKENING
  | THREAD_RUNNING | THREAD_STOPPED | THREAD_EXITING | THREAD_ZOMBIE

definition THREAD_IS_SLEEPING :: "thread_state \<Rightarrow> bool" where
  "THREAD_IS_SLEEPING s \<longleftrightarrow> s = THREAD_INTERRUPTIBLE \<or> s = THREAD_UNINTERRUPTIBLE \<or>
     s = THREAD_KIILABLE \<or> s = THREAD_TIMER \<or> s = THREAD_KIILABLE_TIMER"

datatype tq_type_t = THREAD_QUEUE_TYPE_NONE | THREAD_QUEUE_TYPE_LIST | THREAD_QUEUE_TYPE_TREE

record tnode_t =
  tn_type :: tq_type_t
  list_queue :: addr
  tree_queue :: addr
  tree_key :: u64
  error_no :: int
  tn_data :: u64
  tn_thread :: addr

record tq_t =
  counter :: int
  tq_name :: string
  tq_lock :: addr

record tqw =
  tw_list :: list_heap
  tw_nodes :: "addr \<rightharpoonup> tnode_t"
  tw_queues :: "addr \<rightharpoonup> tq_t"
  tw_state :: "addr \<Rightarrow> thread_state"
  woken :: "addr list"

text \<open>
  The head is the first member of a queue; the list entry of a node follows its 8-byte type field.
  The two arms of the union in \<open>tnode_t\<close> are separate fields here: an arm is read only while
  \<open>type\<close> selects it, and selecting an arm (\<open>__tnode_to_list\<close>) writes it first.
\<close>

definition list_entry :: "addr \<Rightarrow> addr" where "list_entry node = node + 8"

definition node_of :: "addr \<Rightarrow> addr" where "node_of e = e - 8"

definition set_node :: "tqw \<Rightarrow> addr \<Rightarrow> (tnode_t \<Rightarrow> tnode_t) \<Rightarrow> tqw option" where
  "set_node w node f = do { ns \<leftarrow> modify (tw_nodes w) node f; Some (w\<lparr>tw_nodes := ns\<rparr>) }"

definition set_queue :: "tqw \<Rightarrow> addr \<Rightarrow> (tq_t \<Rightarrow> tq_t) \<Rightarrow> tqw option" where
  "set_queue w q f = do { qs \<leftarrow> modify (tw_queues w) q f; Some (w\<lparr>tw_queues := qs\<rparr>) }"

subsection \<open>Nodes and queues\<close>

definition tq_enqueued :: "tnode_t \<Rightarrow> bool" where
  "tq_enqueued n \<longleftrightarrow> tn_type n = THREAD_QUEUE_TYPE_LIST \<and> list_queue n \<noteq> NULL \<or>
     tn_type n = THREAD_QUEUE_TYPE_TREE \<and> tree_queue n \<noteq> NULL"

definition tq_init :: "tqw \<Rightarrow> addr \<Rightarrow> string option \<Rightarrow> addr \<Rightarrow> tqw option" where
  "tq_init w q name lock = do {
     h \<leftarrow> list_entry_init (tw_list w) q;
     set_queue (w\<lparr>tw_list := h\<rparr>) q (\<lambda>Q. Q\<lparr>counter := 0,
       tq_name := (case name of None \<Rightarrow> ''NULL'' | Some s \<Rightarrow> s), tq_lock := lock\<rparr>) }"

definition tq_set_lock :: "tqw \<Rightarrow> addr \<Rightarrow> addr \<Rightarrow> tqw option" where
  "tq_set_lock w q lock = (if q \<noteq> NULL then set_queue w q (\<lambda>Q. Q\<lparr>tq_lock := lock\<rparr>) else Some w)"

definition i_tnode_to_none :: "tqw \<Rightarrow> addr \<Rightarrow> tqw option" where
  "i_tnode_to_none w node =
     (if node = NULL then Some w else set_node w node (\<lambda>n. n\<lparr>tn_type := THREAD_QUEUE_TYPE_NONE\<rparr>))"

definition i_tnode_to_list :: "tqw \<Rightarrow> addr \<Rightarrow> tqw option" where
  "i_tnode_to_list w node =
     (if node = NULL then Some w
      else do {
        w1 \<leftarrow> set_node w node (\<lambda>n. n\<lparr>tn_type := THREAD_QUEUE_TYPE_LIST\<rparr>);
        h \<leftarrow> list_entry_init (tw_list w1) (list_entry node);
        set_node (w1\<lparr>tw_list := h\<rparr>) node (\<lambda>n. n\<lparr>list_queue := NULL\<rparr>) })"

definition tnode_init :: "tqw \<Rightarrow> addr \<Rightarrow> addr \<Rightarrow> tqw option" where
  "tnode_init w current node =
     set_node w node (\<lambda>_. \<lparr>tn_type = THREAD_QUEUE_TYPE_NONE, list_queue = NULL, tree_queue = NULL,
       tree_key = 0, error_no = 0, tn_data = 0, tn_thread = current\<rparr>)"

definition tq_size :: "tqw \<Rightarrow> addr \<Rightarrow> int option" where
  "tq_size w q = (if q = NULL then Some (- EINVAL) else map_option counter (deref (tw_queues w) q))"

definition tnode_get_queue :: "tqw \<Rightarrow> addr \<Rightarrow> addr option" where
  "tnode_get_queue w node =
     (if node = NULL then Some NULL
      else do {
        n \<leftarrow> deref (tw_nodes w) node;
        Some (if tn_type n \<noteq> THREAD_QUEUE_TYPE_LIST then NULL else list_queue n) })"

definition tnode_get_tree :: "tqw \<Rightarrow> addr \<Rightarrow> addr option" where
  "tnode_get_tree w node =
     (if node = NULL then Some NULL
      else do {
        n \<leftarrow> deref (tw_nodes w) node;
        Some (if tn_type n \<noteq> THREAD_QUEUE_TYPE_TREE then NULL else tree_queue n) })"

definition tnode_get_thread :: "tqw \<Rightarrow> addr \<Rightarrow> addr option" where
  "tnode_get_thread w node =
     (if node = NULL then Some NULL else map_option tn_thread (deref (tw_nodes w) node))"

text \<open>The out-parameter \<open>error_no\<close> is the second result; \<open>given\<close> says it is not null.\<close>

definition tnode_get_errno :: "tqw \<Rightarrow> addr \<Rightarrow> bool \<Rightarrow> (int \<times> int) option" where
  "tnode_get_errno w node given =
     (if node = NULL \<or> \<not> given then Some (- EINVAL, 0)
      else do { n \<leftarrow> deref (tw_nodes w) node; Some (0, error_no n) })"

subsection \<open>Queue operations\<close>

definition tq_push :: "tqw \<Rightarrow> addr \<Rightarrow> addr \<Rightarrow> (int \<times> tqw) option" where
  "tq_push w q node = (if q = NULL then Some (- EINVAL, w) else do {
     thread \<leftarrow> tnode_get_thread w node;
     if thread = NULL then Some (- EINVAL, w)
     else do {
       n \<leftarrow> deref (tw_nodes w) node;
       if tq_enqueued n then Some (- EINVAL, w)
       else do {
         w1 \<leftarrow> i_tnode_to_list w node;
         h \<leftarrow> list_entry_push (tw_list w1) q (list_entry node);
         w2 \<leftarrow> set_node (w1\<lparr>tw_list := h\<rparr>) node (\<lambda>n. n\<lparr>list_queue := q\<rparr>);
         w3 \<leftarrow> set_queue w2 q (\<lambda>Q. Q\<lparr>counter := counter Q + 1\<rparr>);
         Some (0, w3) } } })"

definition tq_first :: "tqw \<Rightarrow> addr \<Rightarrow> (int + addr) option" where
  "tq_first w q =
     (if q = NULL then Some (Inl (- EINVAL))
      else do {
        Q \<leftarrow> deref (tw_queues w) q;
        if counter Q = 0 then Some (Inr NULL)
        else if counter Q < 0 then Some (Inl (- EINVAL))
        else do {
          first_node \<leftarrow> LIST_FIRST_NODE (tw_list w) q;
          if first_node \<noteq> NULL then Some (Inr (node_of first_node)) else None } })"

definition tq_remove :: "tqw \<Rightarrow> addr \<Rightarrow> addr \<Rightarrow> (int \<times> tqw) option" where
  "tq_remove w q node = (if q = NULL then Some (- EINVAL, w) else do {
     thread \<leftarrow> tnode_get_thread w node;
     if thread = NULL then Some (- EINVAL, w)
     else do {
       nq \<leftarrow> tnode_get_queue w node;
       if nq \<noteq> q then Some (- EINVAL, w)
       else do {
         Q \<leftarrow> deref (tw_queues w) q;
         if counter Q \<le> 0 then None
         else do {
           h \<leftarrow> list_entry_detach (tw_list w) (list_entry node);
           w1 \<leftarrow> i_tnode_to_none (w\<lparr>tw_list := h\<rparr>) node;
           w2 \<leftarrow> set_queue w1 q (\<lambda>Q. Q\<lparr>counter := counter Q - 1\<rparr>);
           Some (0, w2) } } } })"

definition tq_pop :: "tqw \<Rightarrow> addr \<Rightarrow> ((int + addr) \<times> tqw) option" where
  "tq_pop w q =
     (if q = NULL then Some (Inl (- EINVAL), w)
      else do {
        r \<leftarrow> tq_first w q;
        case r of
          Inl e \<Rightarrow> Some (Inl e, w)
        | Inr dequeued_node \<Rightarrow>
            if dequeued_node = NULL then Some (Inr NULL, w)
            else do {
              nq \<leftarrow> tnode_get_queue w dequeued_node;
              if nq \<noteq> q then None
              else do {
                (ret, w1) \<leftarrow> tq_remove w q dequeued_node;
                Some (if ret = 0 then Inr dequeued_node else Inl ret, w1) } } })"

text \<open>The loop of \<open>tq_bulk_move\<close> over the moved nodes.\<close>

fun retarget :: "tqw \<Rightarrow> addr \<Rightarrow> addr \<Rightarrow> addr list \<Rightarrow> tqw option" where
  "retarget w to from [] = Some w"
| "retarget w to from (e # es) = do {
     nq \<leftarrow> tnode_get_queue w (node_of e);
     if nq \<noteq> from then None
     else do {
       w1 \<leftarrow> set_node w (node_of e) (\<lambda>n. n\<lparr>list_queue := to\<rparr>);
       retarget w1 to from es } }"

definition tq_bulk_move :: "tqw \<Rightarrow> addr \<Rightarrow> addr \<Rightarrow> (int \<times> tqw) option" where
  "tq_bulk_move w to from =
     (if to = NULL \<or> from = NULL then Some (- EINVAL, w)
      else if to = from then Some (- EINVAL, w)
      else do {
        T \<leftarrow> deref (tw_queues w) to;
        F \<leftarrow> deref (tw_queues w) from;
        if counter T > 0 then Some (- ENOTEMPTY, w)
        else if counter F = 0 then Some (0, w)
        else if counter F < 0 then Some (- EINVAL, w)
        else do {
          w1 \<leftarrow> set_queue w to (\<lambda>Q. Q\<lparr>counter := counter Q + counter F\<rparr>);
          w2 \<leftarrow> set_queue w1 from (\<lambda>Q. Q\<lparr>counter := 0\<rparr>);
          last_e \<leftarrow> get_prev (tw_list w2) to;
          h \<leftarrow> list_entry_insert_bulk (tw_list w2) last_e from;
          es \<leftarrow> list_foreach_entry h to;
          w3 \<leftarrow> retarget (w2\<lparr>tw_list := h\<rparr>) to from es;
          Some (0, w3) } })"

subsection \<open>Waiting and waking\<close>

definition tq_wait_begin :: "tqw \<Rightarrow> addr \<Rightarrow> addr \<Rightarrow> addr \<Rightarrow> thread_state \<Rightarrow> (int \<times> tqw) option" where
  "tq_wait_begin w current q waiter state =
     (if q = NULL then Some (- EINVAL, w)
      else if \<not> THREAD_IS_SLEEPING state then Some (- EINVAL, w)
      else do {
        w1 \<leftarrow> tnode_init (w\<lparr>tw_state := (tw_state w)(current := state)\<rparr>) current waiter;
        w2 \<leftarrow> set_node w1 waiter (\<lambda>n. n\<lparr>error_no := - EINTR\<rparr>);
        (ret, w3) \<leftarrow> tq_push w2 q waiter;
        if ret \<noteq> 0 then None else Some (0, w3) })"

text \<open>The results are the return value and the value stored to \<open>*rdata\<close>.\<close>

definition tq_wait_end :: "tqw \<Rightarrow> addr \<Rightarrow> addr \<Rightarrow> (int \<times> u64 \<times> tqw) option" where
  "tq_wait_end w q waiter = do {
     n \<leftarrow> deref (tw_nodes w) waiter;
     w1 \<leftarrow> (if tq_enqueued n then do {
         (ret, w1) \<leftarrow> tq_remove w q waiter;
         if ret = 0 then Some w1 else None }
       else Some w);
     n1 \<leftarrow> deref (tw_nodes w1) waiter;
     Some (error_no n1, tn_data n1, w1) }"

text \<open>
  \<open>sleep\<close> stands for what happens between the two halves: the sleep callback, the other threads
  that run until this one is scheduled again, and the wakeup callback.
\<close>

definition tq_wait_in_state_cb ::
  "tqw \<Rightarrow> addr \<Rightarrow> addr \<Rightarrow> addr \<Rightarrow> (tqw \<Rightarrow> tqw option) \<Rightarrow> thread_state \<Rightarrow> (int \<times> u64 option \<times> tqw) option"
where
  "tq_wait_in_state_cb w current q waiter sleep state = do {
     (ret, w1) \<leftarrow> tq_wait_begin w current q waiter state;
     if ret \<noteq> 0 then Some (ret, None, w1)
     else do {
       w2 \<leftarrow> sleep w1;
       (err, rdata, w3) \<leftarrow> tq_wait_end w2 q waiter;
       Some (err, Some rdata, w3) } }"

definition tq_wait_in_state ::
  "tqw \<Rightarrow> addr \<Rightarrow> addr \<Rightarrow> addr \<Rightarrow> (tqw \<Rightarrow> tqw option) \<Rightarrow> thread_state \<Rightarrow> (int \<times> u64 option \<times> tqw) option"
where
  "tq_wait_in_state w current q waiter spin_sleep state =
     tq_wait_in_state_cb w current q waiter spin_sleep state"

definition tq_wait_cb ::
  "tqw \<Rightarrow> addr \<Rightarrow> addr \<Rightarrow> addr \<Rightarrow> (tqw \<Rightarrow> tqw option) \<Rightarrow> (int \<times> u64 option \<times> tqw) option" where
  "tq_wait_cb w current q waiter sleep =
     tq_wait_in_state_cb w current q waiter sleep THREAD_UNINTERRUPTIBLE"

definition tq_wait ::
  "tqw \<Rightarrow> addr \<Rightarrow> addr \<Rightarrow> addr \<Rightarrow> (tqw \<Rightarrow> tqw option) \<Rightarrow> (int \<times> u64 option \<times> tqw) option" where
  "tq_wait w current q waiter spin_sleep =
     tq_wait_in_state_cb w current q waiter spin_sleep THREAD_UNINTERRUPTIBLE"

definition i_do_wakeup :: "tqw \<Rightarrow> addr \<Rightarrow> int \<Rightarrow> u64 \<Rightarrow> ((int + addr) \<times> tqw) option" where
  "i_do_wakeup w node err rdata =
     (if node = NULL then Some (Inl (- EINVAL), w)
      else do {
        n \<leftarrow> deref (tw_nodes w) node;
        if tn_thread n = NULL then Some (Inl (- EINVAL), w)
        else do {
          w1 \<leftarrow> set_node w node (\<lambda>n. n\<lparr>error_no := err, tn_data := rdata\<rparr>);
          Some (Inr (tn_thread n), w1\<lparr>woken := woken w1 @ [tn_thread n]\<rparr>) } })"

definition i_tq_wakeup_one :: "tqw \<Rightarrow> addr \<Rightarrow> int \<Rightarrow> u64 \<Rightarrow> ((int + addr) \<times> tqw) option" where
  "i_tq_wakeup_one w q err rdata =
     (if q = NULL then Some (Inl (- EINVAL), w)
      else do {
        (r, w1) \<leftarrow> tq_pop w q;
        case r of
          Inl e \<Rightarrow> Some (Inl e, w1)
        | Inr node \<Rightarrow> if node = NULL then Some (Inr NULL, w1) else i_do_wakeup w1 node err rdata })"

definition tq_wakeup :: "tqw \<Rightarrow> addr \<Rightarrow> int \<Rightarrow> u64 \<Rightarrow> ((int + addr) \<times> tqw) option" where
  "tq_wakeup w q err rdata = i_tq_wakeup_one w q err rdata"

partial_function (option) wakeup_loop :: "tqw \<Rightarrow> addr \<Rightarrow> int \<Rightarrow> u64 \<Rightarrow> int \<Rightarrow> (int \<times> tqw) option" where
  "wakeup_loop w q err rdata cnt = do {
     (r, w1) \<leftarrow> i_tq_wakeup_one w q err rdata;
     case r of
       Inl e \<Rightarrow> Some (e, w1)
     | Inr p \<Rightarrow>
         if p = NULL then do {
           Q \<leftarrow> deref (tw_queues w1) q;
           if counter Q = 0 then Some (cnt, w1) else None }
         else wakeup_loop w1 q err rdata (cnt + 1) }"

definition tq_wakeup_all :: "tqw \<Rightarrow> addr \<Rightarrow> int \<Rightarrow> u64 \<Rightarrow> (int \<times> tqw) option" where
  "tq_wakeup_all w q err rdata =
     (if q = NULL then Some (- EINVAL, w) else wakeup_loop w q err rdata 0)"

subsection \<open>Representation\<close>

text \<open>
  \<open>tq_ok w q ns\<close>: the ring at \<open>q\<close> holds the entries of \<open>ns\<close>, the counter is their number and each
  node names \<open>q\<close> as its queue. \<open>tqs_ok w Qs\<close> says so for every queue of \<open>Qs\<close>, whose heads lie
  outside the wait nodes.
\<close>

definition node_in :: "addr \<Rightarrow> tnode_t \<Rightarrow> bool" where
  "node_in q N \<longleftrightarrow> tn_type N = THREAD_QUEUE_TYPE_LIST \<and> list_queue N = q \<and> tn_thread N \<noteq> NULL"

definition tq_ok :: "tqw \<Rightarrow> addr \<Rightarrow> addr list \<Rightarrow> bool" where
  "tq_ok w q ns \<longleftrightarrow> q \<noteq> NULL \<and> dlist (tw_list w) q (map list_entry ns) \<and>
     (\<exists>Q. tw_queues w q = Some Q \<and> counter Q = int (length ns)) \<and>
     (\<forall>n\<in>set ns. \<exists>N. deref (tw_nodes w) n = Some N \<and> node_in q N)"

definition tqs_ok :: "tqw \<Rightarrow> (addr \<rightharpoonup> addr list) \<Rightarrow> bool" where
  "tqs_ok w Qs \<longleftrightarrow> (\<forall>q ns. Qs q = Some ns \<longrightarrow> tq_ok w q ns) \<and>
     (\<forall>q\<in>dom Qs. \<forall>n. alloc (tw_nodes w) n \<longrightarrow> list_entry n \<noteq> q)"

text \<open>A node that may be pushed, and memory in which a waiter may be set up.\<close>

definition node_space :: "tqw \<Rightarrow> addr \<Rightarrow> bool" where
  "node_space w n \<longleftrightarrow> alloc (tw_nodes w) n \<and> alloc (tw_list w) (list_entry n)"

definition node_idle :: "tqw \<Rightarrow> addr \<Rightarrow> bool" where
  "node_idle w n \<longleftrightarrow> node_space w n \<and> (\<exists>N. tw_nodes w n = Some N \<and> \<not> tq_enqueued N)"

definition node_ready :: "tqw \<Rightarrow> addr \<Rightarrow> bool" where
  "node_ready w n \<longleftrightarrow> node_space w n \<and> (\<exists>N. tw_nodes w n = Some N \<and> \<not> tq_enqueued N \<and> tn_thread N \<noteq> NULL)"

lemma list_entry_inj [simp]: "list_entry a = list_entry b \<longleftrightarrow> a = b"
  by (simp add: list_entry_def)

lemma node_of_list_entry [simp]: "node_of (list_entry n) = n" "list_entry (node_of e) = e"
  by (simp_all add: node_of_def list_entry_def)

lemma list_entry_image [simp]: "list_entry n \<in> list_entry ` S \<longleftrightarrow> n \<in> S"
  by (auto simp: image_iff)

lemma inj_list_entry [simp]: "inj list_entry"
  by (simp add: inj_def)

lemma tqs_okD: "tqs_ok w Qs \<Longrightarrow> Qs q = Some ns \<Longrightarrow> tq_ok w q ns"
  by (simp add: tqs_ok_def)

lemma node_in_enqueued: "node_in q N \<Longrightarrow> q \<noteq> NULL \<Longrightarrow> tq_enqueued N"
  by (simp add: node_in_def tq_enqueued_def)

lemma tq_ok_node: "tq_ok w q ns \<Longrightarrow> n \<in> set ns \<Longrightarrow> \<exists>N. deref (tw_nodes w) n = Some N \<and> node_in q N"
  by (simp add: tq_ok_def)

lemma tqs_distinct: "tqs_ok w Qs \<Longrightarrow> Qs q = Some ns \<Longrightarrow> distinct ns"
  by (auto dest!: tqs_okD simp: tq_ok_def dlist_def distinct_map)

lemma tqs_unique:
  assumes "tqs_ok w Qs" "Qs q = Some ns" "tqs_ok w Qs'" "Qs' q = Some ns'"
  shows "ns = ns'"
proof -
  have "list_foreach_entry (tw_list w) q = Some (map list_entry ns)"
    "list_foreach_entry (tw_list w) q = Some (map list_entry ns')"
    using tqs_okD [OF assms(1,2)] tqs_okD [OF assms(3,4)] list_foreach_entry_ok by (auto simp: tq_ok_def)
  then show ?thesis by (simp add: inj_map_eq_map)
qed

lemma tqs_node:
  "tqs_ok w Qs \<Longrightarrow> Qs q = Some ns \<Longrightarrow> n \<in> set ns \<Longrightarrow>
   \<exists>N. deref (tw_nodes w) n = Some N \<and> node_in q N"
  by (rule tq_ok_node [OF tqs_okD])

lemma tqs_node_alloc: "tqs_ok w Qs \<Longrightarrow> Qs q = Some ns \<Longrightarrow> n \<in> set ns \<Longrightarrow> alloc (tw_nodes w) n"
  by (auto dest: tqs_node deref_SomeD)

lemma tqs_other_queue:
  assumes "tqs_ok w Qs" "Qs q = Some ns" "Qs q' = Some ns'" "q \<noteq> q'" "n \<in> set ns"
  shows "n \<notin> set ns'"
proof
  assume "n \<in> set ns'"
  then obtain N N' where "deref (tw_nodes w) n = Some N" "node_in q N"
    "deref (tw_nodes w) n = Some N'" "node_in q' N'"
    using tqs_node [OF assms(1,2,5)] tqs_node [OF assms(1,3), of n] by auto
  then show False using \<open>q \<noteq> q'\<close> by (simp add: node_in_def)
qed

lemma node_idle_unqueued:
  assumes "tqs_ok w Qs" "node_idle w n" "Qs q = Some ns"
  shows "n \<notin> set ns"
proof
  assume "n \<in> set ns"
  then obtain N where "deref (tw_nodes w) n = Some N" "node_in q N"
    using assms tqs_okD tq_ok_node by blast
  moreover have "q \<noteq> NULL" using tqs_okD [OF assms(1,3)] by (simp add: tq_ok_def)
  ultimately show False
    using assms(2) node_in_enqueued [of q N] by (auto simp: node_idle_def deref_def split: if_splits)
qed

lemma node_ready_idle: "node_ready w n \<Longrightarrow> node_idle w n"
  by (auto simp: node_ready_def node_idle_def)

lemma tq_ok_other:
  assumes ok: "tq_ok w q ns" and so: "same_off S (tw_list w) (tw_list w')"
    and dis: "insert q (list_entry ` set ns) \<inter> S = {}"
    and nodes: "\<And>n. n \<in> set ns \<Longrightarrow> tw_nodes w' n = tw_nodes w n"
    and queue: "tw_queues w' q = tw_queues w q"
  shows "tq_ok w' q ns"
proof -
  have "dlist (tw_list w') q (map list_entry ns)"
    using ok same_off_dlist [OF so, of q "map list_entry ns"] dis by (auto simp: tq_ok_def)
  moreover have "deref (tw_nodes w') n = deref (tw_nodes w) n" if "n \<in> set ns" for n
    using nodes [OF that] by (simp add: deref_def)
  ultimately show ?thesis
    using ok queue by (auto simp: tq_ok_def)
qed

text \<open>
  An operation that touches only the queue \<open>q\<close> and the nodes \<open>T\<close>, none of which is in another
  queue, preserves the representation of all the others.
\<close>

lemma tqs_ok_update:
  assumes ok: "tqs_ok w Qs" and q: "q \<in> dom Qs" and new: "tq_ok w' q ns"
    and so: "same_off (insert q (list_entry ` T)) (tw_list w) (tw_list w')"
    and T: "\<And>n. n \<in> T \<Longrightarrow> alloc (tw_nodes w) n"
    and un: "\<And>n q' ns'. n \<in> T \<Longrightarrow> Qs q' = Some ns' \<Longrightarrow> q' \<noteq> q \<Longrightarrow> n \<notin> set ns'"
    and nodes: "\<And>n. n \<notin> T \<Longrightarrow> tw_nodes w' n = tw_nodes w n"
    and al: "\<And>n. alloc (tw_nodes w') n = alloc (tw_nodes w) n"
    and queues: "\<And>q'. q' \<noteq> q \<Longrightarrow> tw_queues w' q' = tw_queues w q'"
  shows "tqs_ok w' (Qs(q \<mapsto> ns))"
proof -
  have heads: "list_entry n \<noteq> p" if "p \<in> dom Qs" "alloc (tw_nodes w) n" for p n
    using ok that by (simp add: tqs_ok_def)
  have "tq_ok w' q' ns'" if Q: "Qs q' = Some ns'" and ne: "q' \<noteq> q" for q' ns'
  proof (rule tq_ok_other [OF tqs_okD [OF ok Q] so])
    have "alloc (tw_nodes w) n" if "n \<in> set ns'" for n
      by (rule tqs_node_alloc [OF ok Q that])
    then have "list_entry n \<noteq> q" if "n \<in> set ns'" for n
      using heads [OF q] that by blast
    moreover have "q' \<notin> list_entry ` T"
      using heads [of q'] Q T by (auto simp: domI)
    moreover have "list_entry ` set ns' \<inter> list_entry ` T = {}"
      using un [OF _ Q ne] by auto
    ultimately show "insert q' (list_entry ` set ns') \<inter> insert q (list_entry ` T) = {}"
      using ne by auto
    show "tw_nodes w' n = tw_nodes w n" if "n \<in> set ns'" for n
      using nodes un [OF _ Q ne] that by blast
    show "tw_queues w' q' = tw_queues w q'" by (rule queues [OF ne])
  qed
  moreover have "list_entry n \<noteq> p" if "p \<in> dom (Qs(q \<mapsto> ns))" "alloc (tw_nodes w') n" for p n
    using heads [of p n] that q al by auto
  ultimately show ?thesis
    using new by (auto simp: tqs_ok_def)
qed

lemma set_node_Some:
  "deref (tw_nodes w) n = Some N \<Longrightarrow> set_node w n f = Some (w\<lparr>tw_nodes := (tw_nodes w)(n \<mapsto> f N)\<rparr>)"
  by (simp add: set_node_def modify_Some)

lemma set_queue_Some:
  "deref (tw_queues w) q = Some Q \<Longrightarrow> set_queue w q f = Some (w\<lparr>tw_queues := (tw_queues w)(q \<mapsto> f Q)\<rparr>)"
  by (simp add: set_queue_def modify_Some)

lemma alloc_upd_same [simp]: "alloc h n \<Longrightarrow> alloc (h(n \<mapsto> v)) m = alloc h m"
  by (auto simp: alloc_def)

lemma tq_ok_queue:
  "tq_ok w q ns \<Longrightarrow> \<exists>Q. deref (tw_queues w) q = Some Q \<and> counter Q = int (length ns) \<and> q \<noteq> NULL"
  by (auto simp: tq_ok_def deref_def)

text \<open>What an operation leaves alone besides the queues: the other nodes, the threads.\<close>

definition tq_rest :: "addr set \<Rightarrow> tqw \<Rightarrow> tqw \<Rightarrow> bool" where
  "tq_rest T w w' \<longleftrightarrow> (\<forall>n. n \<notin> T \<longrightarrow> tw_nodes w' n = tw_nodes w n) \<and>
     (\<forall>n. alloc (tw_nodes w') n = alloc (tw_nodes w) n) \<and>
     (\<forall>e. alloc (tw_list w') e = alloc (tw_list w) e) \<and>
     tw_state w' = tw_state w"

lemma tq_rest_trans: "tq_rest S w w1 \<Longrightarrow> tq_rest T w1 w2 \<Longrightarrow> tq_rest (S \<union> T) w w2"
  by (auto simp: tq_rest_def)

lemma tq_rest_space: "tq_rest T w w' \<Longrightarrow> node_space w' n = node_space w n"
  by (simp add: tq_rest_def node_space_def)

lemma tq_push_ok:
  assumes ok: "tqs_ok w Qs" and Q: "Qs q = Some ns" and rdy: "node_ready w n"
  shows "\<exists>w'. tq_push w q n = Some (0, w') \<and> tqs_ok w' (Qs(q \<mapsto> ns @ [n])) \<and> tq_rest {n} w w' \<and>
    woken w' = woken w \<and>
    tw_nodes w' n = Some ((the (tw_nodes w n))\<lparr>tn_type := THREAD_QUEUE_TYPE_LIST, list_queue := q\<rparr>)"
proof -
  obtain N where N: "deref (tw_nodes w) n = Some N" "\<not> tq_enqueued N" "tn_thread N \<noteq> NULL" "n \<noteq> NULL"
    and sp: "alloc (tw_list w) (list_entry n)" "alloc (tw_nodes w) n"
    using rdy by (auto simp: node_ready_def node_space_def deref_def dest: alloc_not_NULL)
  have tq: "tq_ok w q ns" by (rule tqs_okD [OF ok Q])
  obtain C where C: "deref (tw_queues w) q = Some C" "counter C = int (length ns)" "q \<noteq> NULL"
    using tq_ok_queue [OF tq] by blast
  have dom: "q \<in> dom Qs" using Q by blast
  have un: "n \<notin> set ns'" if "Qs q' = Some ns'" for q' ns'
    by (rule node_idle_unqueued [OF ok node_ready_idle [OF rdy] that])
  have ne: "list_entry n \<noteq> q" using ok sp Q by (auto simp: tqs_ok_def)
  obtain h1 where h1: "list_entry_init (tw_list w) (list_entry n) = Some h1"
    "same_off {list_entry n} (tw_list w) h1"
    using list_entry_init_ok [OF sp(1)] by blast
  have d1: "dlist h1 q (map list_entry ns)"
    using tq same_off_dlist [OF h1(2), of q "map list_entry ns"] ne un [OF Q] by (auto simp: tq_ok_def)
  have al: "alloc h1 (list_entry n)" using h1(2) sp by (simp add: same_off_def)
  obtain h2 where h2: "list_entry_push h1 q (list_entry n) = Some h2"
    "dlist h2 q (map list_entry (ns @ [n]))"
    "same_off (insert (list_entry n) (insert q (list_entry ` set ns))) h1 h2"
    using list_entry_push_ok [OF d1 al] ne un [OF Q] by auto
  define N' where "N' = N\<lparr>tn_type := THREAD_QUEUE_TYPE_LIST, list_queue := q\<rparr>"
  define w' where "w' = w\<lparr>tw_list := h2, tw_nodes := (tw_nodes w)(n \<mapsto> N'),
    tw_queues := (tw_queues w)(q \<mapsto> C\<lparr>counter := counter C + 1\<rparr>)\<rparr>"
  have "tq_push w q n = Some (0, w')"
    using N C h1(1) h2(1)
    by (simp add: tq_push_def tnode_get_thread_def i_tnode_to_list_def set_node_Some set_queue_Some
        w'_def N'_def)
  moreover have so: "same_off (insert q (list_entry ` insert n (set ns))) (tw_list w) h2"
    by (rule same_off_trans [OF same_off_mono [OF h1(2)] same_off_mono [OF h2(3)]]) auto
  moreover have "tq_ok w' q (ns @ [n])"
    using tq h2(2) C N un [OF Q] by (auto simp: tq_ok_def w'_def N'_def node_in_def)
  then have "tqs_ok w' (Qs(q \<mapsto> ns @ [n]))"
    by (rule tqs_ok_update [OF ok dom, where T = "insert n (set ns)"])
      (use so sp un tqs_node_alloc [OF ok Q] tqs_other_queue [OF ok Q] in \<open>auto simp: w'_def\<close>)
  moreover have "tq_rest {n} w w'"
    using so sp by (auto simp: tq_rest_def w'_def same_off_def)
  ultimately show ?thesis
    using N by (auto simp: w'_def N'_def deref_def split: if_splits)
qed

lemma tq_remove_ok:
  assumes ok: "tqs_ok w Qs" and Q: "Qs q = Some (xs @ n # ys)"
  shows "\<exists>w'. tq_remove w q n = Some (0, w') \<and> tqs_ok w' (Qs(q \<mapsto> xs @ ys)) \<and> tq_rest {n} w w' \<and>
    woken w' = woken w \<and> tw_nodes w' n = Some ((the (tw_nodes w n))\<lparr>tn_type := THREAD_QUEUE_TYPE_NONE\<rparr>)"
proof -
  have tq: "tq_ok w q (xs @ n # ys)" by (rule tqs_okD [OF ok Q])
  obtain N where N: "deref (tw_nodes w) n = Some N" "node_in q N" "n \<noteq> NULL"
    using tqs_node [OF ok Q, of n] by (auto simp: deref_def split: if_splits)
  obtain C where C: "deref (tw_queues w) q = Some C" "counter C = int (length (xs @ n # ys))" "q \<noteq> NULL"
    using tq_ok_queue [OF tq] by blast
  have dom: "q \<in> dom Qs" using Q by blast
  obtain h where h: "list_entry_detach (tw_list w) (list_entry n) = Some h"
    "dlist h q (map list_entry (xs @ ys))"
    "same_off (insert q (list_entry ` set (xs @ n # ys))) (tw_list w) h"
    using list_entry_detach_ok [of "tw_list w" q "map list_entry xs" "list_entry n" "map list_entry ys"] tq
    by (auto simp: tq_ok_def image_Un)
  define N' where "N' = N\<lparr>tn_type := THREAD_QUEUE_TYPE_NONE\<rparr>"
  define w' where "w' = w\<lparr>tw_list := h, tw_nodes := (tw_nodes w)(n \<mapsto> N'),
    tw_queues := (tw_queues w)(q \<mapsto> C\<lparr>counter := counter C - 1\<rparr>)\<rparr>"
  have "tq_remove w q n = Some (0, w')"
    using N C h(1)
    by (simp add: tq_remove_def tnode_get_thread_def tnode_get_queue_def i_tnode_to_none_def
        set_node_Some set_queue_Some w'_def N'_def node_in_def)
  moreover have al: "alloc (tw_nodes w) n" using N(1) by (rule deref_SomeD)
  moreover have "tq_ok w' q (xs @ ys)"
    using tq h(2) C N tqs_distinct [OF ok Q] by (auto simp: tq_ok_def w'_def N'_def)
  then have "tqs_ok w' (Qs(q \<mapsto> xs @ ys))"
    by (rule tqs_ok_update [OF ok dom, where T = "set (xs @ n # ys)"])
      (use h(3) al tqs_node_alloc [OF ok Q] tqs_other_queue [OF ok Q] in \<open>auto simp: w'_def\<close>)
  moreover have "tq_rest {n} w w'"
    using h(3) al by (auto simp: tq_rest_def w'_def same_off_def)
  ultimately show ?thesis
    using N by (auto simp: w'_def N'_def deref_def split: if_splits)
qed

lemma tq_first_ok:
  assumes "tqs_ok w Qs" "Qs q = Some ns"
  shows "tq_first w q = Some (Inr (if ns = [] then NULL else hd ns))"
proof -
  have tq: "tq_ok w q ns" by (rule tqs_okD [OF assms])
  then have "LIST_FIRST_NODE (tw_list w) q = Some (if ns = [] then NULL else list_entry (hd ns))"
    using LIST_FIRST_NODE_ok [of "tw_list w" q "map list_entry ns"] by (auto simp: tq_ok_def hd_map)
  moreover have "list_entry (hd ns) \<noteq> NULL" if "ns \<noteq> []"
    using tq that dlist_alloc [of "tw_list w" q "map list_entry ns" "list_entry (hd ns)"] alloc_not_NULL
    by (auto simp: tq_ok_def)
  ultimately show ?thesis
    using tq_ok_queue [OF tq] by (cases ns) (auto simp: tq_first_def)
qed

lemma tq_pop_ok:
  assumes ok: "tqs_ok w Qs" and Q: "Qs q = Some (n # ns)"
  shows "\<exists>w'. tq_pop w q = Some (Inr n, w') \<and> tqs_ok w' (Qs(q \<mapsto> ns)) \<and> tq_rest {n} w w' \<and>
    woken w' = woken w \<and> tw_nodes w' n = Some ((the (tw_nodes w n))\<lparr>tn_type := THREAD_QUEUE_TYPE_NONE\<rparr>)"
proof -
  obtain N where "deref (tw_nodes w) n = Some N" "node_in q N" "n \<noteq> NULL"
    using tqs_node [OF ok Q, of n] by (auto simp: deref_def split: if_splits)
  moreover have "q \<noteq> NULL" using tqs_okD [OF ok Q] by (simp add: tq_ok_def)
  ultimately show ?thesis
    using tq_first_ok [OF ok Q] tq_remove_ok [OF ok, of q "[]" n ns] Q
    by (auto simp: tq_pop_def tnode_get_queue_def node_in_def)
qed

lemma tq_pop_empty: "tqs_ok w Qs \<Longrightarrow> Qs q = Some [] \<Longrightarrow> tq_pop w q = Some (Inr NULL, w)"
  using tqs_okD [of w Qs q "[]"] by (simp add: tq_pop_def tq_first_ok tq_ok_def)

lemma tqs_ok_errno:
  assumes "tqs_ok w Qs" "tw_nodes w n = Some N" "n \<noteq> NULL"
  shows "tqs_ok (w\<lparr>tw_nodes := (tw_nodes w)(n \<mapsto> N\<lparr>error_no := e, tn_data := d\<rparr>), woken := ws\<rparr>) Qs"
  using assms by (fastforce simp: tqs_ok_def tq_ok_def node_in_def deref_def alloc_def)

definition thread_of :: "tqw \<Rightarrow> addr \<Rightarrow> addr" where
  "thread_of w n = tn_thread (the (tw_nodes w n))"

lemma tq_wakeup_one_ok:
  assumes ok: "tqs_ok w Qs" and Q: "Qs q = Some (n # ns)"
  shows "\<exists>w'. i_tq_wakeup_one w q e d = Some (Inr (thread_of w n), w') \<and> tqs_ok w' (Qs(q \<mapsto> ns)) \<and>
    tq_rest {n} w w' \<and> woken w' = woken w @ [thread_of w n] \<and> thread_of w n \<noteq> NULL \<and>
    tw_nodes w' n = Some ((the (tw_nodes w n))\<lparr>tn_type := THREAD_QUEUE_TYPE_NONE, error_no := e, tn_data := d\<rparr>)"
proof -
  obtain N where N: "tw_nodes w n = Some N" "node_in q N" "n \<noteq> NULL"
    using tqs_node [OF ok Q, of n] by (auto simp: deref_def split: if_splits)
  have q: "q \<noteq> NULL" using tqs_okD [OF ok Q] by (simp add: tq_ok_def)
  obtain w1 where w1: "tq_pop w q = Some (Inr n, w1)" "tqs_ok w1 (Qs(q \<mapsto> ns))" "tq_rest {n} w w1"
    "woken w1 = woken w" "tw_nodes w1 n = Some (N\<lparr>tn_type := THREAD_QUEUE_TYPE_NONE\<rparr>)"
    using tq_pop_ok [OF ok Q] N by auto
  define w' where "w' = w1\<lparr>tw_nodes := (tw_nodes w1)(n \<mapsto>
    N\<lparr>tn_type := THREAD_QUEUE_TYPE_NONE, error_no := e, tn_data := d\<rparr>),
    woken := woken w @ [tn_thread N]\<rparr>"
  have "i_tq_wakeup_one w q e d = Some (Inr (tn_thread N), w')"
    using N q w1 by (simp add: i_tq_wakeup_one_def i_do_wakeup_def deref_def set_node_Some w'_def node_in_def)
  moreover have "tqs_ok w' (Qs(q \<mapsto> ns))"
    unfolding w'_def using tqs_ok_errno [OF w1(2,5) N(3)] by simp
  moreover have "tq_rest {n} w w'"
    using w1(3,5) N(3) by (auto simp: tq_rest_def w'_def alloc_def)
  ultimately show ?thesis using N by (auto simp: w'_def thread_of_def node_in_def)
qed

lemma tq_wakeup_one_empty:
  "tqs_ok w Qs \<Longrightarrow> Qs q = Some [] \<Longrightarrow> i_tq_wakeup_one w q e d = Some (Inr NULL, w)"
  using tqs_okD [of w Qs q "[]"] by (simp add: i_tq_wakeup_one_def tq_pop_empty tq_ok_def)

lemma wakeup_loop_ok:
  "tqs_ok w Qs \<Longrightarrow> Qs q = Some ns \<Longrightarrow>
   \<exists>w'. wakeup_loop w q e d cnt = Some (cnt + int (length ns), w') \<and> tqs_ok w' (Qs(q \<mapsto> [])) \<and>
     tq_rest (set ns) w w' \<and> woken w' = woken w @ map (thread_of w) ns \<and>
     (\<forall>n\<in>set ns. tw_nodes w' n =
        Some ((the (tw_nodes w n))\<lparr>tn_type := THREAD_QUEUE_TYPE_NONE, error_no := e, tn_data := d\<rparr>))"
proof (induction ns arbitrary: w Qs cnt)
  case Nil
  have "deref (tw_queues w) q = Some Q \<Longrightarrow> counter Q = 0" for Q
    using tq_ok_queue [OF tqs_okD [OF Nil]] by auto
  moreover have "\<exists>Q. deref (tw_queues w) q = Some Q"
    using tq_ok_queue [OF tqs_okD [OF Nil]] by auto
  moreover have "Qs(q \<mapsto> []) = Qs" using Nil(2) by auto
  ultimately show ?case
    using Nil(1) by (subst wakeup_loop.simps) (auto simp: tq_wakeup_one_empty [OF Nil] tq_rest_def)
next
  case (Cons n ns)
  have nn: "n \<notin> set ns" using tqs_distinct [OF Cons.prems] by simp
  obtain w1 where w1: "i_tq_wakeup_one w q e d = Some (Inr (thread_of w n), w1)"
    "tqs_ok w1 (Qs(q \<mapsto> ns))" "tq_rest {n} w w1" "woken w1 = woken w @ [thread_of w n]"
    "thread_of w n \<noteq> NULL" "tw_nodes w1 n =
      Some ((the (tw_nodes w n))\<lparr>tn_type := THREAD_QUEUE_TYPE_NONE, error_no := e, tn_data := d\<rparr>)"
    using tq_wakeup_one_ok [OF Cons.prems, of e d] by blast
  obtain w2 where w2: "wakeup_loop w1 q e d (cnt + 1) = Some (cnt + 1 + int (length ns), w2)"
    "tqs_ok w2 (Qs(q \<mapsto> []))" "tq_rest (set ns) w1 w2"
    "woken w2 = woken w1 @ map (thread_of w1) ns"
    "\<forall>m\<in>set ns. tw_nodes w2 m =
        Some ((the (tw_nodes w1 m))\<lparr>tn_type := THREAD_QUEUE_TYPE_NONE, error_no := e, tn_data := d\<rparr>)"
    using Cons.IH [OF w1(2) fun_upd_same, of "cnt + 1"] unfolding fun_upd_upd by blast
  have same: "tw_nodes w1 m = tw_nodes w m" if "m \<in> set ns" for m
    using w1(3) nn that by (auto simp: tq_rest_def)
  have "tw_nodes w2 n = tw_nodes w1 n" using w2(3) nn by (simp add: tq_rest_def)
  moreover have "wakeup_loop w q e d cnt = Some (cnt + int (length (n # ns)), w2)"
    using w1(1,5) w2(1) by (subst wakeup_loop.simps) simp
  moreover have "map (thread_of w1) ns = map (thread_of w) ns"
    using same by (simp add: thread_of_def)
  ultimately show ?case
    using w2 w1 tq_rest_trans [OF w1(3) w2(3)] same by (intro exI [of _ w2]) (auto simp del: fun_upd_apply)
qed

lemma tqs_ok_reinit:
  assumes "tqs_ok w Qs" "alloc (tw_nodes w) n" "\<And>q ns. Qs q = Some ns \<Longrightarrow> n \<notin> set ns"
  shows "tqs_ok (w\<lparr>tw_nodes := (tw_nodes w)(n \<mapsto> N), tw_state := s\<rparr>) Qs"
  using assms unfolding tqs_ok_def tq_ok_def by (auto simp: deref_upd split: if_splits)

lemma tq_wait_begin_ok:
  assumes ok: "tqs_ok w Qs" and Q: "Qs q = Some ns" and sp: "node_space w n"
    and un: "\<And>q' ns'. Qs q' = Some ns' \<Longrightarrow> n \<notin> set ns'"
    and t: "t \<noteq> NULL" "THREAD_IS_SLEEPING st"
  shows "\<exists>w' N. tq_wait_begin w t q n st = Some (0, w') \<and> tqs_ok w' (Qs(q \<mapsto> ns @ [n])) \<and>
    woken w' = woken w \<and> tw_nodes w' n = Some N \<and> node_in q N \<and>
    tn_thread N = t \<and> error_no N = - EINTR \<and> tn_data N = 0 \<and>
    (\<forall>m. m \<noteq> n \<longrightarrow> tw_nodes w' m = tw_nodes w m) \<and> (\<forall>m. node_space w' m = node_space w m) \<and>
    tw_state w' = (tw_state w)(t := st)"
proof -
  define N where "N = \<lparr>tn_type = THREAD_QUEUE_TYPE_NONE, list_queue = NULL, tree_queue = NULL,
     tree_key = 0, error_no = - EINTR, tn_data = 0, tn_thread = t\<rparr>"
  define w1 where "w1 = w\<lparr>tw_nodes := (tw_nodes w)(n \<mapsto> N), tw_state := (tw_state w)(t := st)\<rparr>"
  have al: "alloc (tw_nodes w) n" using sp by (simp add: node_space_def)
  then obtain N0 where N0: "deref (tw_nodes w) n = Some N0" "n \<noteq> NULL"
    by (auto simp: alloc_iff_deref deref_def split: if_splits)
  have q: "q \<noteq> NULL" using tqs_okD [OF ok Q] by (simp add: tq_ok_def)
  have ok1: "tqs_ok w1 Qs" unfolding w1_def by (rule tqs_ok_reinit [OF ok al un])
  have rdy: "node_ready w1 n"
    using sp al t by (simp add: node_ready_def node_space_def w1_def N_def tq_enqueued_def)
  have sp1: "node_space w1 m = node_space w m" for m
    using al by (auto simp: node_space_def w1_def alloc_def)
  obtain w2 where w2: "tq_push w1 q n = Some (0, w2)" "tqs_ok w2 (Qs(q \<mapsto> ns @ [n]))"
    "tq_rest {n} w1 w2" "woken w2 = woken w1"
    "tw_nodes w2 n = Some (N\<lparr>tn_type := THREAD_QUEUE_TYPE_LIST, list_queue := q\<rparr>)"
    using tq_push_ok [OF ok1 Q rdy] by (auto simp: w1_def)
  have "w\<lparr>tw_state := (tw_state w)(t := st), tw_nodes := (tw_nodes w)(n \<mapsto> N)\<rparr> = w1"
    by (simp add: w1_def)
  then have "tq_wait_begin w t q n st = Some (0, w2)"
    using q t N0 w2(1) by (simp add: tq_wait_begin_def tnode_init_def set_node_Some deref_def N_def)
  moreover have "tw_nodes w2 m = tw_nodes w m" if "m \<noteq> n" for m
    using w2(3) that by (simp add: tq_rest_def w1_def)
  moreover have "node_space w2 m = node_space w m" for m
    using tq_rest_space [OF w2(3)] sp1 by simp
  moreover have "tw_state w2 = (tw_state w)(t := st)" "woken w2 = woken w"
    using w2(3,4) by (simp_all add: tq_rest_def w1_def)
  ultimately show ?thesis
    using w2(2,5) t by (auto simp: N_def node_in_def)
qed

lemma tq_wait_begin_one:
  assumes "tqs_ok w [q \<mapsto> ns]" "node_space w n" "n \<notin> set ns" "t \<noteq> NULL" "THREAD_IS_SLEEPING st"
  shows "\<exists>w' N. tq_wait_begin w t q n st = Some (0, w') \<and> tqs_ok w' [q \<mapsto> ns @ [n]] \<and>
    woken w' = woken w \<and> tw_nodes w' n = Some N \<and> node_in q N \<and>
    tn_thread N = t \<and> error_no N = - EINTR \<and> tn_data N = 0 \<and>
    (\<forall>m. m \<noteq> n \<longrightarrow> tw_nodes w' m = tw_nodes w m) \<and> (\<forall>m. node_space w' m = node_space w m) \<and>
    tw_state w' = (tw_state w)(t := st)"
proof -
  have "n \<notin> set ns'" if "[q \<mapsto> ns] q' = Some ns'" for q' ns'
    using that assms(3) by (auto split: if_splits)
  then show ?thesis
    using tq_wait_begin_ok [OF assms(1) _ assms(2) _ assms(4,5), of q ns] by simp
qed

lemma tq_wait_end_queued:
  assumes ok: "tqs_ok w Qs" and Q: "Qs q = Some (xs @ n # ys)" and N: "tw_nodes w n = Some N"
  shows "\<exists>w'. tq_wait_end w q n = Some (error_no N, tn_data N, w') \<and> tqs_ok w' (Qs(q \<mapsto> xs @ ys)) \<and>
    tq_rest {n} w w' \<and> woken w' = woken w \<and>
    tw_nodes w' n = Some (N\<lparr>tn_type := THREAD_QUEUE_TYPE_NONE\<rparr>)"
proof -
  have "node_in q N" "n \<noteq> NULL" "q \<noteq> NULL"
    using tqs_node [OF ok Q, of n] N tqs_okD [OF ok Q] by (auto simp: deref_def tq_ok_def split: if_splits)
  then show ?thesis
    using tq_remove_ok [OF ok Q] N node_in_enqueued [of q N] by (auto simp: tq_wait_end_def deref_def)
qed

lemma tq_wait_end_woken:
  "tw_nodes w n = Some N \<Longrightarrow> n \<noteq> NULL \<Longrightarrow> \<not> tq_enqueued N \<Longrightarrow>
   tq_wait_end w q n = Some (error_no N, tn_data N, w)"
  by (simp add: tq_wait_end_def deref_def)

lemma retarget_ok:
  assumes "distinct ns" "\<And>n. n \<in> set ns \<Longrightarrow> \<exists>N. deref (tw_nodes w) n = Some N \<and> node_in from N"
  shows "retarget w to from (map list_entry ns) = Some (w\<lparr>tw_nodes :=
    (\<lambda>n. if n \<in> set ns then map_option (list_queue_update (\<lambda>_. to)) (tw_nodes w n) else tw_nodes w n)\<rparr>)"
  using assms
proof (induction ns arbitrary: w)
  case (Cons n ns)
  obtain N where N: "deref (tw_nodes w) n = Some N" "node_in from N"
    using Cons.prems(2) by auto
  then have n: "n \<noteq> NULL" "tw_nodes w n = Some N" by (auto simp: deref_def split: if_splits)
  define w1 where "w1 = w\<lparr>tw_nodes := (tw_nodes w)(n \<mapsto> N\<lparr>list_queue := to\<rparr>)\<rparr>"
  have "\<exists>N. deref (tw_nodes w1) m = Some N \<and> node_in from N" if "m \<in> set ns" for m
    using Cons.prems that by (auto simp: w1_def)
  then have "retarget w1 to from (map list_entry ns) = Some (w1\<lparr>tw_nodes :=
    (\<lambda>n. if n \<in> set ns then map_option (list_queue_update (\<lambda>_. to)) (tw_nodes w1 n) else tw_nodes w1 n)\<rparr>)"
    using Cons by auto
  then show ?case
    using N n Cons.prems(1)
    by (auto simp: tnode_get_queue_def node_in_def set_node_Some w1_def intro!: arg_cong [where f = "\<lambda>f. w\<lparr>tw_nodes := f\<rparr>"])
qed simp

lemma tq_bulk_move_ok:
  assumes ok: "tqs_ok w Qs" and T: "Qs to = Some []" and F: "Qs from = Some ns" and ne: "to \<noteq> from"
  shows "\<exists>w'. tq_bulk_move w to from = Some (0, w') \<and> tqs_ok w' (Qs(to \<mapsto> ns, from \<mapsto> [])) \<and>
    woken w' = woken w \<and> (\<forall>n. node_space w' n = node_space w n) \<and>
    (\<forall>n. tw_nodes w' n =
       (if n \<in> set ns then map_option (list_queue_update (\<lambda>_. to)) (tw_nodes w n) else tw_nodes w n))"
proof (cases "ns = []")
  case True
  have "Qs(to \<mapsto> [], from \<mapsto> []) = Qs" using T F True by auto
  then show ?thesis
    using tq_ok_queue [OF tqs_okD [OF ok T]] tq_ok_queue [OF tqs_okD [OF ok F]] True ne ok
    by (auto simp: tq_bulk_move_def)
next
  case False
  note tT = tqs_okD [OF ok T] and tF = tqs_okD [OF ok F]
  obtain CT where CT: "deref (tw_queues w) to = Some CT" "counter CT = 0" "to \<noteq> NULL"
    using tq_ok_queue [OF tT] by auto
  obtain CF where CF: "deref (tw_queues w) from = Some CF" "counter CF = int (length ns)" "from \<noteq> NULL"
    using tq_ok_queue [OF tF] by auto
  have dT: "dlist (tw_list w) to []" and dF: "dlist (tw_list w) from (map list_entry ns)"
    using tT tF by (simp_all add: tq_ok_def)
  have heads: "list_entry n \<noteq> q" if "q \<in> dom Qs" "n \<in> set ns" for q n
    using ok that tqs_node_alloc [OF ok F that(2)] by (auto simp: tqs_ok_def)
  have dis: "insert from (set (map list_entry ns)) \<inter> insert to (set ([] @ [])) = {}"
    using ne heads [of to] T by auto
  obtain h where h: "list_entry_insert_bulk (tw_list w) to from = Some h"
    "dlist h to (map list_entry ns)" "dlist h from []"
    "same_off (insert from (list_entry ` set ns) \<union> {to}) (tw_list w) h"
    using list_entry_insert_bulk_ok [of "tw_list w" to "[]" "[]", OF _ dF dis] dT by auto
  define nodes where "nodes = (\<lambda>n. if n \<in> set ns
    then map_option (list_queue_update (\<lambda>_. to)) (tw_nodes w n) else tw_nodes w n)"
  define w1 where "w1 = w\<lparr>tw_queues := (tw_queues w)(to \<mapsto> CT\<lparr>counter := int (length ns)\<rparr>,
    from \<mapsto> CF\<lparr>counter := 0\<rparr>), tw_list := h\<rparr>"
  define w' where "w' = w1\<lparr>tw_nodes := nodes\<rparr>"
  have w1: "tw_nodes w1 = tw_nodes w" by (simp add: w1_def)
  then have re: "retarget w1 to from (map list_entry ns) = Some w'"
    using retarget_ok [of ns w1 "from" to] tqs_distinct [OF ok F] tqs_node [OF ok F]
    by (simp add: w'_def nodes_def cong: if_cong)
  have "tq_bulk_move w to from = Some (0, w')"
    using CT CF ne False h(1) re list_foreach_entry_ok [OF h(2)] dlist_ends(2) [OF dT]
    by (simp add: tq_bulk_move_def set_queue_Some w1_def)
  moreover have "tq_ok w' to ns"
    using h(2) tF CT ne by (fastforce simp: tq_ok_def w'_def w1_def nodes_def node_in_def deref_def)
  moreover have "tq_ok w' from []"
    using h(3) CF by (simp add: tq_ok_def w'_def w1_def)
  moreover have "tq_ok w' q ms" if Q: "Qs q = Some ms" "q \<noteq> to" "q \<noteq> from" for q ms
  proof (rule tq_ok_other [OF tqs_okD [OF ok Q(1)]])
    show "same_off (insert from (list_entry ` set ns) \<union> {to}) (tw_list w) (tw_list w')"
      using h(4) by (simp add: w'_def w1_def)
    have other: "n \<notin> set ns" if "n \<in> set ms" for n
      using tqs_other_queue [OF ok Q(1) F Q(3) that] .
    have "list_entry n \<noteq> p" if "p \<in> dom Qs" "n \<in> set ms" for p n
      using ok that tqs_node_alloc [OF ok Q(1) that(2)] by (auto simp: tqs_ok_def)
    then show "insert q (list_entry ` set ms) \<inter> (insert from (list_entry ` set ns) \<union> {to}) = {}"
      using Q T F heads [of q] other by auto
    show "tw_nodes w' n = tw_nodes w n" if "n \<in> set ms" for n
      using other [OF that] by (simp add: w'_def nodes_def)
  qed (use Q in \<open>simp add: w'_def w1_def\<close>)
  moreover have alw: "alloc (tw_nodes w') n = alloc (tw_nodes w) n" for n
    by (auto simp: w'_def nodes_def alloc_def split: if_splits)
  then have "list_entry n \<noteq> q" if "q \<in> dom Qs" "alloc (tw_nodes w') n" for q n
    using ok that by (simp add: tqs_ok_def)
  ultimately have "tqs_ok w' (Qs(to \<mapsto> ns, from \<mapsto> []))"
    using T F unfolding tqs_ok_def by (simp add: dom_def)
  moreover have "node_space w' n = node_space w n" for n
    using alw [of n] h(4) by (simp add: node_space_def same_off_def) (simp add: w'_def w1_def)
  ultimately show ?thesis
    using \<open>tq_bulk_move w to from = Some (0, w')\<close> by (simp add: w'_def w1_def nodes_def)
qed

lemma tq_init_add:
  assumes ok: "tqs_ok w Qs" and new: "q \<notin> dom Qs"
    and al: "alloc (tw_list w) q" "tw_queues w q = Some Q" "\<And>n. alloc (tw_nodes w) n \<Longrightarrow> list_entry n \<noteq> q"
  shows "\<exists>w'. tq_init w q name lock = Some w' \<and> tqs_ok w' (Qs(q \<mapsto> [])) \<and> tw_nodes w' = tw_nodes w \<and>
    (\<forall>n. node_space w' n = node_space w n) \<and> (\<forall>e. alloc (tw_list w') e = alloc (tw_list w) e) \<and>
    (\<forall>p. p \<noteq> q \<longrightarrow> tw_queues w' p = tw_queues w p)"
proof -
  have q: "q \<noteq> NULL" using al(1) alloc_not_NULL by auto
  obtain h where h: "list_entry_init (tw_list w) q = Some h" "dlist h q []" "same_off {q} (tw_list w) h"
    using list_entry_init_ok [OF al(1)] by blast
  define w' where "w' = w\<lparr>tw_list := h, tw_queues := (tw_queues w)(q \<mapsto>
    Q\<lparr>counter := 0, tq_name := (case name of None \<Rightarrow> ''NULL'' | Some s \<Rightarrow> s), tq_lock := lock\<rparr>)\<rparr>"
  have "tq_init w q name lock = Some w'"
    using h(1) al(2) q by (simp add: tq_init_def set_queue_Some deref_def w'_def)
  moreover have "tq_ok w' q []" using h(2) q by (simp add: tq_ok_def w'_def)
  moreover have "tq_ok w' p ns" if Q: "Qs p = Some ns" for p ns
  proof (rule tq_ok_other [OF tqs_okD [OF ok Q]])
    show "same_off {q} (tw_list w) (tw_list w')" using h(3) by (simp add: w'_def)
    have "p \<noteq> q" using new Q by blast
    moreover have "list_entry n \<noteq> q" if "n \<in> set ns" for n
      using al(3) tqs_node_alloc [OF ok Q that] by blast
    ultimately show "insert p (list_entry ` set ns) \<inter> {q} = {}" "tw_queues w' p = tw_queues w p"
      by (auto simp: w'_def)
  qed (simp add: w'_def)
  moreover have "list_entry n \<noteq> p" if "p \<in> dom (Qs(q \<mapsto> []))" "alloc (tw_nodes w') n" for p n
    using that ok al(3) by (auto simp: tqs_ok_def w'_def)
  ultimately have "tqs_ok w' (Qs(q \<mapsto> []))" by (auto simp: tqs_ok_def)
  then show ?thesis
    using \<open>tq_init w q name lock = Some w'\<close> h(3) by (simp add: w'_def node_space_def same_off_def)
qed

lemma tqs_ok_empty [simp]: "tqs_ok w (\<lambda>_. None)"
  by (simp add: tqs_ok_def)

lemma tq_init_ok:
  assumes "alloc (tw_list w) q" "tw_queues w q = Some Q" "\<And>n. alloc (tw_nodes w) n \<Longrightarrow> list_entry n \<noteq> q"
  shows "\<exists>w'. tq_init w q name lock = Some w' \<and> tqs_ok w' [q \<mapsto> []] \<and> tw_nodes w' = tw_nodes w \<and>
    (\<forall>n. node_space w' n = node_space w n)"
  using tq_init_add [of w "\<lambda>_. None" q Q name lock] assms by auto

subsection \<open>The queue as a FIFO of waiters\<close>

text \<open>
  The contract of a wait queue: waiting appends, waking takes the longest waiting element,
  cancelling removes an element wherever it stands. A waiter is its node and its thread.
\<close>

datatype 'a qop = QWait 'a | QCancel 'a | QWake

fun fifo_step :: "'a qop \<Rightarrow> 'a list \<Rightarrow> ('a option \<times> 'a list) option" where
  "fifo_step (QWait x) xs = (if x \<in> set xs then None else Some (None, xs @ [x]))"
| "fifo_step (QCancel x) xs = (if x \<in> set xs then Some (None, remove1 x xs) else None)"
| "fifo_step QWake [] = Some (None, [])"
| "fifo_step QWake (x # xs) = Some (Some x, xs)"

fun run_ops :: "('op \<Rightarrow> 's \<Rightarrow> ('r \<times> 's) option) \<Rightarrow> 'op list \<Rightarrow> 's \<Rightarrow> ('r list \<times> 's) option" where
  "run_ops step [] s = Some ([], s)"
| "run_ops step (x # xs) s = do { (r, s1) \<leftarrow> step x s; (rs, s2) \<leftarrow> run_ops step xs s1; Some (r # rs, s2) }"

locale fifo_queue =
  fixes rep :: "'w \<Rightarrow> 'a list \<Rightarrow> bool"
    and good :: "'w \<Rightarrow> 'a \<Rightarrow> bool"
    and step :: "'a qop \<Rightarrow> 'w \<Rightarrow> ('a option \<times> 'w) option"
  assumes wait: "rep w xs \<Longrightarrow> x \<notin> set xs \<Longrightarrow> good w x \<Longrightarrow>
      \<exists>w'. step (QWait x) w = Some (None, w') \<and> rep w' (xs @ [x]) \<and> (\<forall>y. good w' y = good w y)"
    and cancel: "rep w (xs @ x # ys) \<Longrightarrow>
      \<exists>w'. step (QCancel x) w = Some (None, w') \<and> rep w' (xs @ ys) \<and> (\<forall>y. good w' y = good w y)"
    and wake: "rep w (x # xs) \<Longrightarrow>
      \<exists>w'. step QWake w = Some (Some x, w') \<and> rep w' xs \<and> (\<forall>y. good w' y = good w y)"
    and wake_none: "rep w [] \<Longrightarrow> step QWake w = Some (None, w)"
begin

definition waits_good :: "'w \<Rightarrow> 'a qop \<Rightarrow> bool" where
  "waits_good w x \<longleftrightarrow> (\<forall>y. x = QWait y \<longrightarrow> good w y)"

lemma step_refines:
  assumes rep: "rep w xs" and good: "waits_good w x" and f: "fifo_step x xs = Some (r, xs')"
  shows "\<exists>w'. step x w = Some (r, w') \<and> rep w' xs' \<and> (\<forall>y. good w' y = good w y)"
proof (cases x)
  case (QWait y)
  then show ?thesis using wait [OF rep, of y] f good by (auto simp: waits_good_def split: if_splits)
next
  case (QCancel y)
  then have "y \<in> set xs" "xs' = remove1 y xs" "r = None" using f by (auto split: if_splits)
  then obtain as bs where "xs = as @ y # bs" "y \<notin> set as" using split_list_first [of y xs] by blast
  then show ?thesis using cancel [of w as y bs] rep QCancel \<open>xs' = _\<close> \<open>r = None\<close>
    by (auto simp: remove1_append)
next
  case QWake
  then show ?thesis using f rep wake wake_none by (cases xs) auto
qed

lemma run_refines:
  "rep w xs \<Longrightarrow> (\<forall>x\<in>set ops. waits_good w x) \<Longrightarrow> run_ops fifo_step ops xs = Some (rs, xs') \<Longrightarrow>
   \<exists>w'. run_ops step ops w = Some (rs, w') \<and> rep w' xs'"
proof (induction ops arbitrary: w xs rs)
  case (Cons x ops)
  then obtain r xs1 rs1 where f: "fifo_step x xs = Some (r, xs1)"
    "run_ops fifo_step ops xs1 = Some (rs1, xs')" "rs = r # rs1"
    by (auto simp: bind_eq_Some_conv)
  obtain w1 where w1: "step x w = Some (r, w1)" "rep w1 xs1" "\<forall>y. good w1 y = good w y"
    using step_refines [of w xs x r xs1] Cons.prems f by auto
  then have "\<forall>x\<in>set ops. waits_good w1 x" using Cons.prems by (simp add: waits_good_def)
  then show ?case using Cons.IH [OF w1(2) _ f(2)] w1(1) f(3) by auto
qed simp

lemma drain_refines:
  "rep w xs \<Longrightarrow> \<exists>w'. run_ops step (replicate (length xs) QWake) w = Some (map Some xs, w') \<and> rep w' []"
proof (induction xs arbitrary: w)
  case (Cons x xs)
  then show ?case using wake [OF Cons.prems] by fastforce
qed simp

end

text \<open>The contract on the operations of the code: \<open>q\<close> is the queue, a waiter sleeps in state \<open>st\<close>.\<close>

fun tq_step :: "addr \<Rightarrow> thread_state \<Rightarrow> (addr \<times> addr) qop \<Rightarrow> tqw \<Rightarrow> ((addr \<times> addr) option \<times> tqw) option" where
  "tq_step q st (QWait (n, t)) w = do {
     (ret, w1) \<leftarrow> tq_wait_begin w t q n st;
     if ret = 0 then Some (None, w1) else None }"
| "tq_step q st (QCancel (n, t)) w = do {
     (err, _, w1) \<leftarrow> tq_wait_end w q n;
     if err = - EINTR then Some (None, w1) else None }"
| "tq_step q st QWake w = do {
     first \<leftarrow> tq_first w q;
     (r, w1) \<leftarrow> tq_wakeup w q 0 0;
     case (first, r) of
       (Inr n, Inr t) \<Rightarrow> Some (if t = NULL then None else Some (n, t), w1)
     | _ \<Rightarrow> None }"

text \<open>A wait node lives on the stack of its thread, \<open>owner n\<close>.\<close>

definition tq_rep :: "(addr \<Rightarrow> addr) \<Rightarrow> addr \<Rightarrow> tqw \<Rightarrow> (addr \<times> addr) list \<Rightarrow> bool" where
  "tq_rep owner q w xs \<longleftrightarrow> tqs_ok w [q \<mapsto> map fst xs] \<and>
     (\<forall>x\<in>set xs. owner (fst x) = snd x \<and>
        (\<exists>N. tw_nodes w (fst x) = Some N \<and> tn_thread N = snd x \<and> error_no N = - EINTR))"

definition tq_good :: "(addr \<Rightarrow> addr) \<Rightarrow> tqw \<Rightarrow> addr \<times> addr \<Rightarrow> bool" where
  "tq_good owner w x \<longleftrightarrow> node_space w (fst x) \<and> owner (fst x) = snd x \<and> snd x \<noteq> NULL"

lemma tq_good_rest: "tq_rest T w w' \<Longrightarrow> tq_good owner w' x = tq_good owner w x"
  by (simp add: tq_good_def tq_rest_space)

lemma tq_step_wait:
  assumes rep: "tq_rep owner q w xs" and new: "x \<notin> set xs" and good: "tq_good owner w x"
  shows "\<exists>w'. tq_step q THREAD_INTERRUPTIBLE (QWait x) w = Some (None, w') \<and>
    tq_rep owner q w' (xs @ [x]) \<and> (\<forall>y. tq_good owner w' y = tq_good owner w y)"
proof -
  obtain n t where x: "x = (n, t)" by (cases x)
  have nn: "n \<notin> fst ` set xs"
    using rep new good by (auto simp: tq_rep_def tq_good_def x)
  obtain w' N where w': "tq_wait_begin w t q n THREAD_INTERRUPTIBLE = Some (0, w')"
    "tqs_ok w' [q \<mapsto> map fst xs @ [n]]" "tw_nodes w' n = Some N" "tn_thread N = t" "error_no N = - EINTR"
    "\<forall>m. m \<noteq> n \<longrightarrow> tw_nodes w' m = tw_nodes w m" "\<forall>m. node_space w' m = node_space w m"
    using tq_wait_begin_one [of w q "map fst xs" n t THREAD_INTERRUPTIBLE] rep good nn
    by (auto simp: tq_rep_def tq_good_def x THREAD_IS_SLEEPING_def)
  moreover have "tw_nodes w' (fst y) = tw_nodes w (fst y)" if "y \<in> set xs" for y
    using w'(6) nn that by (auto simp: image_iff)
  ultimately show ?thesis
    using rep good by (auto simp: x tq_rep_def tq_good_def)
qed

lemma tq_step_cancel:
  assumes rep: "tq_rep owner q w (xs @ x # ys)"
  shows "\<exists>w'. tq_step q st (QCancel x) w = Some (None, w') \<and>
    tq_rep owner q w' (xs @ ys) \<and> (\<forall>y. tq_good owner w' y = tq_good owner w y)"
proof -
  obtain n t where x: "x = (n, t)" by (cases x)
  obtain N where ok: "tqs_ok w [q \<mapsto> map fst xs @ n # map fst ys]"
    and N: "tw_nodes w n = Some N" "error_no N = - EINTR"
    using rep by (auto simp: tq_rep_def x)
  obtain w' where w': "tq_wait_end w q n = Some (- EINTR, tn_data N, w')"
    "tqs_ok w' [q \<mapsto> map fst xs @ map fst ys]" "tq_rest {n} w w'"
    using tq_wait_end_queued [OF ok _ N(1), of q "map fst xs" "map fst ys"] N(2) by auto
  have "n \<notin> fst ` (set xs \<union> set ys)"
    using tqs_distinct [OF ok, of q] by auto
  then have "tw_nodes w' (fst y) = tw_nodes w (fst y)" if "y \<in> set xs \<union> set ys" for y
    using w'(3) that by (auto simp: tq_rest_def image_iff)
  then show ?thesis
    using rep w' tq_good_rest [OF w'(3)] by (auto simp: x tq_rep_def)
qed

lemma tq_step_wake:
  assumes rep: "tq_rep owner q w (x # xs)"
  shows "\<exists>w'. tq_step q st QWake w = Some (Some x, w') \<and>
    tq_rep owner q w' xs \<and> (\<forall>y. tq_good owner w' y = tq_good owner w y)"
proof -
  obtain n t where x: "x = (n, t)" by (cases x)
  have ok: "tqs_ok w [q \<mapsto> n # map fst xs]" and t: "thread_of w n = t"
    using rep by (auto simp: tq_rep_def x thread_of_def)
  obtain w' where w': "i_tq_wakeup_one w q 0 0 = Some (Inr t, w')" "tqs_ok w' [q \<mapsto> map fst xs]"
    "tq_rest {n} w w'" "t \<noteq> NULL"
    using tq_wakeup_one_ok [OF ok, of q n "map fst xs" 0 0] t by auto
  have "tq_first w q = Some (Inr n)" using tq_first_ok [OF ok, of q] by simp
  moreover have "n \<notin> fst ` set xs" using tqs_distinct [OF ok, of q] by auto
  then have "tw_nodes w' (fst y) = tw_nodes w (fst y)" if "y \<in> set xs" for y
    using w'(3) that by (auto simp: tq_rest_def image_iff)
  ultimately show ?thesis
    using rep w' tq_good_rest [OF w'(3)] by (auto simp: x tq_rep_def tq_wakeup_def)
qed

lemma tq_step_wake_none: "tq_rep owner q w [] \<Longrightarrow> tq_step q st QWake w = Some (None, w)"
  by (simp add: tq_rep_def tq_wakeup_def tq_first_ok [of w "[q \<mapsto> []]"] tq_wakeup_one_empty [of w "[q \<mapsto> []]"])

interpretation tqf: fifo_queue "tq_rep owner q" "tq_good owner" "tq_step q THREAD_INTERRUPTIBLE"
  by unfold_locales (rule tq_step_wait tq_step_cancel tq_step_wake tq_step_wake_none; assumption)+

subsection \<open>Properties\<close>

text \<open>A queue at 16 with two idle wait nodes at 64 and 128.\<close>

definition demo_tqw :: tqw where
  "demo_tqw = \<lparr>tw_list = [16 \<mapsto> \<lparr>ln_prev = 16, ln_next = 16\<rparr>, 72 \<mapsto> \<lparr>ln_prev = 0, ln_next = 0\<rparr>,
       136 \<mapsto> \<lparr>ln_prev = 0, ln_next = 0\<rparr>],
     tw_nodes = (\<lambda>n. if n = 64 \<or> n = 128 then Some \<lparr>tn_type = THREAD_QUEUE_TYPE_NONE, list_queue = 0,
       tree_queue = 0, tree_key = 0, error_no = 0, tn_data = 0, tn_thread = 0\<rparr> else None),
     tw_queues = [16 \<mapsto> \<lparr>counter = 0, tq_name = ''demo'', tq_lock = 0\<rparr>],
     tw_state = (\<lambda>_. THREAD_RUNNING), woken = []\<rparr>"

lemma demo_tqw_facts:
  "tqs_ok demo_tqw [16 \<mapsto> []]" "node_space demo_tqw 64" "node_space demo_tqw 128"
  by (auto simp: demo_tqw_def tqs_ok_def tq_ok_def dlist_def get_next_def get_prev_def deref_def
      alloc_def node_space_def list_entry_def split: if_splits)

text \<open>
  C6. The thread queue is a FIFO: any sequence of waits, cancelled waits and wake-ups that a list
  of waiters allows runs on the pointer structures without a failed assertion, wakes the same
  threads in the same order and ends in a state that represents the same list.
\<close>

theorem tq_refines_fifo:
  assumes "tq_rep owner q w xs" and "\<forall>x. QWait x \<in> set ops \<longrightarrow> tq_good owner w x"
    and "run_ops fifo_step ops xs = Some (rs, xs')"
  shows "\<exists>w'. run_ops (tq_step q THREAD_INTERRUPTIBLE) ops w = Some (rs, w') \<and> tq_rep owner q w' xs'"
  using tqf.run_refines [OF assms(1) _ assms(3)] assms(2) by (auto simp: tqf.waits_good_def)

theorem tq_refines_fifo_witness:
  "\<exists>w'. run_ops (tq_step 16 THREAD_INTERRUPTIBLE)
      [QWait (64, 1000), QWait (128, 2000), QCancel (64, 1000), QWait (64, 1000), QWake, QWake] demo_tqw =
    Some ([None, None, None, None, Some (128, 2000), Some (64, 1000)], w') \<and>
    tq_rep (\<lambda>n. if n = 64 then 1000 else 2000) 16 w' []"
  by (rule tq_refines_fifo [of _ 16 demo_tqw "[]"])
    (use demo_tqw_facts in \<open>auto simp: tq_rep_def tq_good_def\<close>)

text \<open>
  C19. \<open>tq_wakeup_all\<close> terminates, empties the queue, returns the number of waiters, hands every
  waiter to the scheduler in the order of arrival and gives each the error number and the data.
\<close>

theorem tq_wakeup_all_complete:
  assumes "tqs_ok w Qs" and "Qs q = Some ns"
  shows "\<exists>w'. tq_wakeup_all w q e d = Some (int (length ns), w') \<and> tqs_ok w' (Qs(q \<mapsto> [])) \<and>
    woken w' = woken w @ map (thread_of w) ns \<and>
    (\<forall>n\<in>set ns. \<exists>N. tw_nodes w' n = Some N \<and> \<not> tq_enqueued N \<and> error_no N = e \<and> tn_data N = d) \<and>
    (\<forall>n. n \<notin> set ns \<longrightarrow> tw_nodes w' n = tw_nodes w n)"
  using wakeup_loop_ok [OF assms, of e d 0] tqs_okD [OF assms]
  by (auto simp: tq_wakeup_all_def tq_ok_def tq_enqueued_def tq_rest_def)

theorem tq_wakeup_all_complete_witness:
  "\<exists>w1 w'. tq_wait_begin demo_tqw 1000 16 64 THREAD_TIMER = Some (0, w1) \<and>
    tq_wakeup_all w1 16 (- 4) 7 = Some (1, w') \<and> woken w' = [1000]"
proof -
  obtain w1 N where w1: "tq_wait_begin demo_tqw 1000 16 64 THREAD_TIMER = Some (0, w1)"
    "tqs_ok w1 [16 \<mapsto> [64]]" "woken w1 = woken demo_tqw" "tw_nodes w1 64 = Some N" "tn_thread N = 1000"
    using tq_wait_begin_one [OF demo_tqw_facts(1,2), of 1000 THREAD_TIMER]
    by (auto simp: THREAD_IS_SLEEPING_def)
  show ?thesis
    using tq_wakeup_all_complete [OF w1(2), of 16 "[64]" "- 4" 7] w1
    by (auto simp: thread_of_def demo_tqw_def)
qed



end
