(* ===== verification/Sleep_Lock.thy ===== *)
theory Sleep_Lock
  imports Thread_Queue
begin

text \<open>
  What the sleeping locks share. The context a call is made in, the rule that turns a preserved
  predicate into an invariant, and the threads that sleep inside \<open>tq_wait\<close>: \<open>sleepers w Qs xs\<close>
  relates the queues \<open>Qs\<close> to the list \<open>xs\<close> of sleeping threads with their wait nodes. A sleeper
  whose node has left the queues was woken by the queue and its node carries no error; the node of
  a queued one still holds the error of an interrupted wait.
\<close>

subsection \<open>Calling context\<close>

record cpu_ctx =
  current :: addr
  spin_depth :: int
  CPU_IN_ITR :: bool

text \<open>The three assertions with which a sleeping lock guards its blocking operations.\<close>

definition may_sleep :: "cpu_ctx \<Rightarrow> bool" where
  "may_sleep c \<longleftrightarrow> current c \<noteq> NULL \<and> spin_depth c = 0 \<and> \<not> CPU_IN_ITR c"

definition thread_ctx :: "addr \<Rightarrow> cpu_ctx" where
  "thread_ctx t = \<lparr>current = t, spin_depth = 0, CPU_IN_ITR = False\<rparr>"

lemma may_sleep_thread_ctx [simp]: "may_sleep (thread_ctx t) \<longleftrightarrow> t \<noteq> NULL" "current (thread_ctx t) = t"
  by (simp_all add: may_sleep_def thread_ctx_def)

locale step_invariant =
  fixes step :: "'s \<Rightarrow> 's \<Rightarrow> bool" and inv :: "'s \<Rightarrow> bool"
  assumes step_preserves: "inv s \<Longrightarrow> step s s' \<Longrightarrow> inv s'"
begin

lemma run_preserves: "step\<^sup>*\<^sup>* s s' \<Longrightarrow> inv s \<Longrightarrow> inv s'"
  by (induction rule: rtranclp_induct) (auto intro: step_preserves)

end

subsection \<open>Sleeping threads\<close>

definition queued :: "(addr \<rightharpoonup> addr list) \<Rightarrow> addr \<Rightarrow> bool" where
  "queued Qs n \<longleftrightarrow> (\<exists>q ns. Qs q = Some ns \<and> n \<in> set ns)"

definition sleeper_ok :: "tqw \<Rightarrow> (addr \<rightharpoonup> addr list) \<Rightarrow> addr \<times> addr \<Rightarrow> bool" where
  "sleeper_ok w Qs x \<longleftrightarrow> node_space w (snd x) \<and> (\<exists>N. tw_nodes w (snd x) = Some N \<and> tn_thread N = fst x \<and>
     (if queued Qs (snd x) then error_no N = - EINTR else \<not> tq_enqueued N \<and> error_no N = 0))"

definition sleepers :: "tqw \<Rightarrow> (addr \<rightharpoonup> addr list) \<Rightarrow> (addr \<times> addr) list \<Rightarrow> bool" where
  "sleepers w Qs xs \<longleftrightarrow> tqs_ok w Qs \<and> (\<forall>n. queued Qs n \<longrightarrow> n \<in> snd ` set xs) \<and>
     distinct (map snd xs) \<and> (\<forall>x\<in>set xs. sleeper_ok w Qs x)"

text \<open>The sleepers that have been woken and have not run yet.\<close>

definition pending :: "(addr \<rightharpoonup> addr list) \<Rightarrow> (addr \<times> addr) list \<Rightarrow> (addr \<times> addr) list" where
  "pending Qs xs = filter (\<lambda>x. \<not> queued Qs (snd x)) xs"

lemma queued_one [simp]: "queued [q \<mapsto> ns] n \<longleftrightarrow> n \<in> set ns"
  by (auto simp: queued_def)

lemma queued_upd:
  "queued (Qs(q \<mapsto> ns)) n \<longleftrightarrow> n \<in> set ns \<or> (\<exists>q' ns'. q' \<noteq> q \<and> Qs q' = Some ns' \<and> n \<in> set ns')"
  by (auto simp: queued_def)

lemma queued_other:
  assumes "tqs_ok w Qs" "Qs q = Some ns" "n \<in> set ns" "q' \<noteq> q" "Qs q' = Some ns'"
  shows "n \<notin> set ns'"
  using tqs_other_queue [OF assms(1,2,5)] assms(3,4) by auto

lemma queued_add: "Qs q = Some ns \<Longrightarrow> queued (Qs(q \<mapsto> ns @ [n])) m \<longleftrightarrow> queued Qs m \<or> m = n"
  unfolding queued_upd by (auto simp: queued_def) (metis option.inject)

lemma queued_del:
  assumes "tqs_ok w Qs" "Qs q = Some (xs @ n # ys)"
  shows "queued (Qs(q \<mapsto> xs @ ys)) m \<longleftrightarrow> queued Qs m \<and> m \<noteq> n"
proof -
  have "n \<notin> set (xs @ ys)" using tqs_distinct [OF assms] by auto
  moreover have "n \<notin> set ns'" if "q' \<noteq> q" "Qs q' = Some ns'" for q' ns'
    using queued_other [OF assms _ that] by auto
  moreover have "queued Qs m \<longleftrightarrow> m \<in> set (xs @ n # ys) \<or> (\<exists>q' ns'. q' \<noteq> q \<and> Qs q' = Some ns' \<and> m \<in> set ns')"
    using queued_upd [of Qs q "xs @ n # ys" m] assms(2) by (simp add: fun_upd_idem)
  ultimately show ?thesis unfolding queued_upd by auto
qed

lemma sleeper_ok_cong:
  "tw_nodes w' (snd x) = tw_nodes w (snd x) \<Longrightarrow> node_space w' (snd x) = node_space w (snd x) \<Longrightarrow> queued Qs' (snd x) = queued Qs (snd x) \<Longrightarrow>
   sleeper_ok w' Qs' x = sleeper_ok w Qs x"
  by (simp add: sleeper_ok_def)

lemma sleepers_begin:
  assumes sl: "sleepers w Qs xs" and Q: "Qs q = Some ns" and n: "node_space w n" "n \<notin> snd ` set xs"
    and t: "t \<noteq> NULL"
  shows "\<exists>w'. tq_wait_begin w t q n THREAD_UNINTERRUPTIBLE = Some (0, w') \<and>
    sleepers w' (Qs(q \<mapsto> ns @ [n])) ((t, n) # xs) \<and> (\<forall>m. node_space w' m = node_space w m)"
proof -
  have ok: "tqs_ok w Qs" using sl by (simp add: sleepers_def)
  have un: "n \<notin> set ns'" if "Qs q' = Some ns'" for q' ns'
    using sl n(2) that by (auto simp: sleepers_def queued_def)
  have qa: "queued (Qs(q \<mapsto> ns @ [n])) m \<longleftrightarrow> queued Qs m \<or> m = n" for m
    by (rule queued_add [of Qs q ns, OF Q])
  obtain w' N where w': "tq_wait_begin w t q n THREAD_UNINTERRUPTIBLE = Some (0, w')"
    "tqs_ok w' (Qs(q \<mapsto> ns @ [n]))" "tw_nodes w' n = Some N" "tn_thread N = t" "error_no N = - EINTR"
    "\<forall>m. m \<noteq> n \<longrightarrow> tw_nodes w' m = tw_nodes w m" "\<forall>m. node_space w' m = node_space w m"
    using tq_wait_begin_ok [OF ok Q n(1) _ t, of THREAD_UNINTERRUPTIBLE] un
    by (auto simp: THREAD_IS_SLEEPING_def)
  have "sleeper_ok w' (Qs(q \<mapsto> ns @ [n])) x" if "x \<in> set xs" for x
  proof -
    have "snd x \<noteq> n" using n(2) that by auto
    then have "sleeper_ok w' (Qs(q \<mapsto> ns @ [n])) x = sleeper_ok w Qs x"
      using w'(6,7) by (intro sleeper_ok_cong) (auto simp: qa)
    then show ?thesis using sl that by (simp add: sleepers_def)
  qed
  moreover have "sleeper_ok w' (Qs(q \<mapsto> ns @ [n])) (t, n)"
    using w'(3-5,7) n(1) by (auto simp: sleeper_ok_def qa)
  ultimately show ?thesis
    using w' sl n(2) by (auto simp: sleepers_def qa)
qed

lemma sleepers_wake:
  assumes sl: "sleepers w Qs xs" and Q: "Qs q = Some (n # ns)"
  shows "\<exists>w' t. tq_wakeup w q 0 0 = Some (Inr t, w') \<and> t \<noteq> NULL \<and> (t, n) \<in> set xs \<and>
    sleepers w' (Qs(q \<mapsto> ns)) xs \<and> (\<forall>m. node_space w' m = node_space w m)"
proof -
  have ok: "tqs_ok w Qs" using sl by (simp add: sleepers_def)
  have qn: "queued Qs n" using Q by (force simp: queued_def)
  then obtain t where tn: "(t, n) \<in> set xs" using sl by (force simp: sleepers_def)
  then have t: "thread_of w n = t" using sl by (force simp: sleepers_def sleeper_ok_def thread_of_def)
  obtain w' where w': "tq_wakeup w q 0 0 = Some (Inr t, w')" "tqs_ok w' (Qs(q \<mapsto> ns))" "tq_rest {n} w w'"
    "t \<noteq> NULL"
    "tw_nodes w' n = Some ((the (tw_nodes w n))\<lparr>tn_type := THREAD_QUEUE_TYPE_NONE, error_no := 0, tn_data := 0\<rparr>)"
    using tq_wakeup_one_ok [OF ok Q, of 0 0] t by (auto simp: tq_wakeup_def)
  have q: "queued (Qs(q \<mapsto> ns)) m \<longleftrightarrow> queued Qs m \<and> m \<noteq> n" for m
    using queued_del [OF ok, of q "[]" n ns m] Q by simp
  have "sleeper_ok w' (Qs(q \<mapsto> ns)) x" if "x \<in> set xs" for x
  proof (cases "snd x = n")
    case True
    then show ?thesis
      using sl that w'(5) q tq_rest_space [OF w'(3)] by (auto simp: sleepers_def sleeper_ok_def tq_enqueued_def)
  next
    case False
    then have "sleeper_ok w' (Qs(q \<mapsto> ns)) x = sleeper_ok w Qs x"
      using w'(3) tq_rest_space [OF w'(3)] by (intro sleeper_ok_cong) (auto simp: q tq_rest_def)
    then show ?thesis using sl that by (simp add: sleepers_def)
  qed
  then show ?thesis
    using w' sl tn q tq_rest_space [OF w'(3)] by (auto simp: sleepers_def)
qed

lemma sleepers_wake_none:
  "sleepers w Qs xs \<Longrightarrow> Qs q = Some [] \<Longrightarrow> tq_wakeup w q 0 0 = Some (Inr NULL, w)"
  by (auto simp: sleepers_def tq_wakeup_def intro: tq_wakeup_one_empty)

lemma sleepers_distinct: "sleepers w Qs xs \<Longrightarrow> Qs q = Some ns \<Longrightarrow> distinct ns"
  by (auto simp: sleepers_def dest: tqs_distinct)

lemma sleepers_dequeued:
  assumes "sleepers w Qs xs" "tw_nodes w n = Some N" "\<not> tq_enqueued N"
  shows "\<not> queued Qs n"
proof
  assume "queued Qs n"
  then obtain q ns where Q: "Qs q = Some ns" "n \<in> set ns" by (auto simp: queued_def)
  have ok: "tqs_ok w Qs" using assms(1) by (simp add: sleepers_def)
  have "q \<noteq> NULL" using tqs_okD [OF ok Q(1)] by (simp add: tq_ok_def)
  then show False
    using tqs_node [OF ok Q] assms(2,3) node_in_enqueued [of q N] by (auto simp: deref_def split: if_splits)
qed

lemma sleepers_remove:
  assumes "sleepers w Qs xs" "x \<in> set xs" "\<not> queued Qs (snd x)"
  shows "sleepers w Qs (remove1 x xs)"
proof -
  have "n \<in> snd ` set (remove1 x xs)" if "queued Qs n" for n
  proof -
    have "n \<in> snd ` set xs" "n \<noteq> snd x" using assms that by (auto simp: sleepers_def)
    then obtain y where "y \<in> set xs" "snd y = n" "y \<noteq> x" by auto
    then show ?thesis using in_set_remove1 [of y x xs] by (auto intro!: image_eqI [of _ _ y])
  qed
  then show ?thesis
    using assms(1) set_remove1_subset [of x xs] by (auto simp: sleepers_def intro!: distinct_map_remove1)
qed

lemma sleepers_woken:
  assumes sl: "sleepers w Qs xs" and x: "(t, n) \<in> set xs" and un: "\<not> queued Qs n"
  shows "\<exists>d. tq_wait_end w q n = Some (0, d, w)"
proof -
  obtain N where "tw_nodes w n = Some N" "\<not> tq_enqueued N" "error_no N = 0" "n \<noteq> NULL"
    using sl x un by (fastforce simp: sleepers_def sleeper_ok_def node_space_def dest: alloc_not_NULL)
  then show ?thesis using tq_wait_end_woken by metis
qed

lemma sleepers_cancel:
  assumes sl: "sleepers w Qs xs" and x: "(t, n) \<in> set xs" and Q: "Qs q = Some (as @ n # bs)"
  shows "\<exists>d w'. tq_wait_end w q n = Some (- EINTR, d, w') \<and>
    sleepers w' (Qs(q \<mapsto> as @ bs)) (remove1 (t, n) xs) \<and> (\<forall>m. node_space w' m = node_space w m)"
proof -
  have ok: "tqs_ok w Qs" using sl by (simp add: sleepers_def)
  have qn: "queued Qs n" using Q by (force simp: queued_def)
  then obtain N where N: "tw_nodes w n = Some N" "error_no N = - EINTR"
    using sl x by (force simp: sleepers_def sleeper_ok_def)
  obtain w' where w': "tq_wait_end w q n = Some (- EINTR, tn_data N, w')" "tqs_ok w' (Qs(q \<mapsto> as @ bs))"
    "tq_rest {n} w w'"
    using tq_wait_end_queued [OF ok Q N(1)] N(2) by auto
  note q = queued_del [OF ok Q]
  have rest: "y \<in> set xs" "snd y \<noteq> n" if "y \<in> set (remove1 (t, n) xs)" for y
  proof -
    show "y \<in> set xs" using that set_remove1_subset by fast
    have "distinct (map snd xs)" using sl by (simp add: sleepers_def)
    then show "snd y \<noteq> n" using remove1_map_neq [of snd, OF _ x that] by auto
  qed
  have "sleeper_ok w' (Qs(q \<mapsto> as @ bs)) y" if "y \<in> set (remove1 (t, n) xs)" for y
  proof -
    have "sleeper_ok w' (Qs(q \<mapsto> as @ bs)) y = sleeper_ok w Qs y"
      using w'(3) rest [OF that] tq_rest_space [OF w'(3)]
      by (intro sleeper_ok_cong) (auto simp: q tq_rest_def)
    then show ?thesis using sl rest [OF that] by (simp add: sleepers_def)
  qed
  moreover have "m \<in> snd ` set (remove1 (t, n) xs)" if "queued Qs m" "m \<noteq> n" for m
  proof -
    obtain y where "y \<in> set xs" "snd y = m" using sl \<open>queued Qs m\<close> by (force simp: sleepers_def)
    moreover have "y \<noteq> (t, n)" using \<open>m \<noteq> n\<close> calculation by auto
    ultimately show ?thesis using in_set_remove1 [of y "(t, n)" xs] by (auto intro!: image_eqI [of _ _ y])
  qed
  ultimately show ?thesis
    using w' sl tq_rest_space [OF w'(3)] by (auto simp: sleepers_def q intro!: distinct_map_remove1)
qed

lemma sleepers_space: "sleepers w Qs xs \<Longrightarrow> (t, n) \<in> set xs \<Longrightarrow> node_space w n"
  by (force simp: sleepers_def sleeper_ok_def)

lemma sleepers_wake_all:
  assumes sl: "sleepers w Qs xs" and Q: "Qs q = Some ns"
  shows "\<exists>w'. tq_wakeup_all w q 0 0 = Some (int (length ns), w') \<and> sleepers w' (Qs(q \<mapsto> [])) xs \<and>
    (\<forall>m. node_space w' m = node_space w m)"
proof -
  have ok: "tqs_ok w Qs" using sl by (simp add: sleepers_def)
  have q0: "q \<noteq> NULL" using tqs_okD [OF ok Q] by (simp add: tq_ok_def)
  obtain w' where w': "wakeup_loop w q 0 0 0 = Some (int (length ns), w')" "tqs_ok w' (Qs(q \<mapsto> []))"
    "tq_rest (set ns) w w'"
    "\<forall>n\<in>set ns. tw_nodes w' n =
      Some ((the (tw_nodes w n))\<lparr>tn_type := THREAD_QUEUE_TYPE_NONE, error_no := 0, tn_data := 0\<rparr>)"
    using wakeup_loop_ok [OF ok Q, of 0 0 0] by auto
  have qu: "queued (Qs(q \<mapsto> [])) m \<longleftrightarrow> queued Qs m \<and> m \<notin> set ns" for m
    unfolding queued_upd using queued_other [OF ok Q] Q by (auto simp: queued_def) (metis option.inject)
  have "sleeper_ok w' (Qs(q \<mapsto> [])) x" if "x \<in> set xs" for x
  proof (cases "snd x \<in> set ns")
    case True
    then show ?thesis
      using sl that w'(4) qu tq_rest_space [OF w'(3)] by (auto simp: sleepers_def sleeper_ok_def tq_enqueued_def)
  next
    case False
    then have "sleeper_ok w' (Qs(q \<mapsto> [])) x = sleeper_ok w Qs x"
      using w'(3) tq_rest_space [OF w'(3)] by (intro sleeper_ok_cong) (auto simp: qu tq_rest_def)
    then show ?thesis using sl that by (simp add: sleepers_def)
  qed
  then show ?thesis
    using w' sl qu q0 tq_rest_space [OF w'(3)] by (auto simp: sleepers_def tq_wakeup_all_def)
qed

lemma sleepers_size:
  "sleepers w Qs xs \<Longrightarrow> Qs q = Some ns \<Longrightarrow> tq_size w q = Some (int (length ns))"
  using tq_ok_queue [OF tqs_okD, of w Qs q ns] by (auto simp: sleepers_def tq_size_def)

lemma sleepers_move: "sleepers w Qs (x # xs @ ys) \<longleftrightarrow> sleepers w Qs (xs @ x # ys)"
  by (auto simp: sleepers_def)

lemma pending_append [simp]: "pending Qs (xs @ ys) = pending Qs xs @ pending Qs ys"
  by (simp add: pending_def)

lemma asleep_remove1:
  assumes f: "distinct (map fst xs)" and s: "distinct (map snd xs)" and x: "(t, n) \<in> set xs"
  shows "set (remove1 (t, n) xs) \<subseteq> set xs" "distinct (map fst (remove1 (t, n) xs))"
    "t \<notin> fst ` set (remove1 (t, n) xs)" "n \<notin> snd ` set (remove1 (t, n) xs)"
    "snd ` set (remove1 (t, n) xs) = snd ` set xs - {n}"
proof -
  show "set (remove1 (t, n) xs) \<subseteq> set xs" by (rule set_remove1_subset)
  show "distinct (map fst (remove1 (t, n) xs))" by (rule distinct_map_remove1 [OF f])
  show "t \<notin> fst ` set (remove1 (t, n) xs)"
  proof
    assume "t \<in> fst ` set (remove1 (t, n) xs)"
    then obtain y where y: "y \<in> set (remove1 (t, n) xs)" "t = fst y" by blast
    then show False using remove1_map_neq [OF f x y(1)] by simp
  qed
  have ne: "snd y \<noteq> n" if "y \<in> set (remove1 (t, n) xs)" for y
    using remove1_map_neq [OF s x that] by simp
  then show "n \<notin> snd ` set (remove1 (t, n) xs)" by blast
  have "y \<in> set (remove1 (t, n) xs)" if "y \<in> set xs" "snd y \<noteq> n" for y
  proof -
    have "y \<noteq> (t, n)" using that(2) by auto
    then show ?thesis using that(1) in_set_remove1 [of y "(t, n)" xs] by blast
  qed
  then show "snd ` set (remove1 (t, n) xs) = snd ` set xs - {n}"
    using ne set_remove1_subset [of "(t, n)" xs] by blast
qed

lemma pending_begin: "Qs q = Some ns \<Longrightarrow> n \<notin> snd ` set xs \<Longrightarrow>
  pending (Qs(q \<mapsto> ns @ [n])) ((t, n) # xs) = pending Qs xs"
  by (auto simp: pending_def queued_add intro!: filter_cong)

lemma pending_wake:
  assumes "sleepers w Qs xs" "Qs q = Some (n # ns)"
  shows "set (pending (Qs(q \<mapsto> ns)) xs) = set (pending Qs xs) \<union> {x \<in> set xs. snd x = n}"
  using assms queued_del [of w Qs q "[]" n ns] by (auto simp: pending_def sleepers_def queued_def)

lemma pending_woken: "pending Qs (remove1 x xs) = remove1 x (pending Qs xs)"
  by (simp add: pending_def filter_remove1)

lemma pending_cancel:
  assumes sl: "sleepers w Qs xs" and Q: "Qs q = Some (as @ n # bs)" and x: "(t, n) \<in> set xs"
  shows "pending (Qs(q \<mapsto> as @ bs)) (remove1 (t, n) xs) = pending Qs xs"
proof -
  have ok: "tqs_ok w Qs" using sl by (simp add: sleepers_def)
  have qn: "queued Qs n" using Q by (force simp: queued_def)
  have "distinct (map snd xs)" using sl by (simp add: sleepers_def)
  then have "snd y \<noteq> n" if "y \<in> set (remove1 (t, n) xs)" for y
    using remove1_map_neq [of snd, OF _ x that] by auto
  then have "pending (Qs(q \<mapsto> as @ bs)) (remove1 (t, n) xs) = pending Qs (remove1 (t, n) xs)"
    unfolding pending_def by (intro filter_cong) (auto simp: queued_del [OF ok Q])
  also have "\<dots> = pending Qs xs"
    using qn by (simp add: pending_def filter_remove1 remove1_filter_not)
  finally show ?thesis .
qed

lemma pending_wake_one:
  assumes sl: "sleepers w [q \<mapsto> n # ns] xs" and x: "(t, n) \<in> set xs" and e: "pending [q \<mapsto> n # ns] xs = []"
  shows "pending [q \<mapsto> ns] xs = [(t, n)]"
proof -
  have d: "distinct (map snd xs)" using sl by (simp add: sleepers_def)
  have "y = (t, n) \<longleftrightarrow> snd y = n" if "y \<in> set xs" for y
    using distinct_map_eqD [OF d that x] by (cases y) auto
  then have "{y \<in> set xs. snd y = n} = {(t, n)}" using x by blast
  then have "set (pending [q \<mapsto> ns] xs) = {(t, n)}" using pending_wake [OF sl, of q n ns] e by simp
  moreover have "distinct (pending [q \<mapsto> ns] xs)" using d by (simp add: pending_def distinct_map)
  ultimately show ?thesis by (rule distinct_singletonD)
qed

lemma pending_drop_one:
  assumes d: "distinct (map snd xs)" and x: "(t, n) \<in> set xs" and e: "pending Qs xs = []"
    and q: "\<And>m. queued Qs' m \<longleftrightarrow> queued Qs m \<and> m \<noteq> n"
  shows "pending Qs' xs = [(t, n)]"
proof (rule distinct_singletonD)
  have "queued Qs (snd y)" if "y \<in> set xs" for y
    using e that by (auto simp: pending_def filter_empty_conv)
  moreover have "snd y = n \<longleftrightarrow> y = (t, n)" if "y \<in> set xs" for y
    using distinct_map_eqD [OF d that x] by (cases y) auto
  ultimately show "set (pending Qs' xs) = {(t, n)}" using x q by (auto simp: pending_def)
  show "distinct (pending Qs' xs)" using d by (simp add: pending_def distinct_map)
qed

lemma length_pending:
  "sleepers w [q \<mapsto> ns] xs \<Longrightarrow> length xs = length (pending [q \<mapsto> ns] xs) + length ns"
proof -
  assume sl: "sleepers w [q \<mapsto> ns] xs"
  let ?A = "filter (\<lambda>x. snd x \<in> set ns) xs"
  have "distinct ns" using sleepers_distinct [OF sl, of q] by simp
  moreover have d: "distinct (map snd ?A)" using sl by (simp add: sleepers_def distinct_map_filter)
  moreover have "set (map snd ?A) = set ns"
  proof -
    have "set ns \<subseteq> snd ` set xs" using sl by (auto simp: sleepers_def)
    then show ?thesis by (auto simp: image_iff)
  qed
  ultimately have "length ?A = length ns"
    by (metis distinct_card length_map)
  then show ?thesis
    using sum_length_filter_compl [of "\<lambda>x. snd x \<in> set ns" xs] by (simp add: pending_def)
qed

text \<open>Queues that come and go, and waiters that move from one queue to another.\<close>

lemma sleepers_transfer:
  assumes sl: "sleepers w Qs xs" and ok: "tqs_ok w' Qs'" and q: "\<And>m. queued Qs' m = queued Qs m"
    and s: "\<And>m. node_space w' m = node_space w m"
    and N: "\<And>m N. tw_nodes w m = Some N \<Longrightarrow> \<exists>p. tw_nodes w' m = Some N \<or> queued Qs m \<and> tw_nodes w' m = Some (N\<lparr>list_queue := p\<rparr>)"
  shows "sleepers w' Qs' xs"
proof -
  have "sleeper_ok w' Qs' x" if "x \<in> set xs" for x
  proof -
    have x: "sleeper_ok w Qs x" using sl that by (simp add: sleepers_def)
    then obtain N1 where N1: "tw_nodes w (snd x) = Some N1" by (auto simp: sleeper_ok_def)
    obtain p where "tw_nodes w' (snd x) = Some N1 \<or> queued Qs (snd x) \<and> tw_nodes w' (snd x) = Some (N1\<lparr>list_queue := p\<rparr>)"
      using N [OF N1] by blast
    then show ?thesis using x N1 by (auto simp: sleeper_ok_def q s tq_enqueued_def)
  qed
  then show ?thesis using sl ok by (simp add: sleepers_def q)
qed

lemma sleepers_queue_add:
  assumes sl: "sleepers w Qs xs" and new: "q \<notin> dom Qs" and al: "alloc (tw_list w) q" "alloc (tw_queues w) q"
    and d: "\<And>n. alloc (tw_nodes w) n \<Longrightarrow> list_entry n \<noteq> q"
  shows "\<exists>w'. tq_init w q name lock = Some w' \<and> sleepers w' (Qs(q \<mapsto> [])) xs \<and>
    (\<forall>m. node_space w' m = node_space w m)"
proof -
  have ok: "tqs_ok w Qs" using sl by (simp add: sleepers_def)
  obtain Q where Q: "tw_queues w q = Some Q" using al(2) by (auto simp: alloc_def)
  obtain w' where w': "tq_init w q name lock = Some w'" "tqs_ok w' (Qs(q \<mapsto> []))" "tw_nodes w' = tw_nodes w"
    "\<And>m. node_space w' m = node_space w m"
    using tq_init_add [OF ok new al(1) Q d, of name lock] by auto
  have "sleepers w' (Qs(q \<mapsto> [])) xs"
    using new by (intro sleepers_transfer [OF sl w'(2)]) (auto simp: w'(3,4) queued_def)
  then show ?thesis using w' by blast
qed

lemma sleepers_queue_drop:
  assumes sl: "sleepers w Qs xs" and q: "Qs q = Some []"
  shows "sleepers w (Qs(q := None)) xs"
proof (rule sleepers_transfer [OF sl])
  show "tqs_ok w (Qs(q := None))" using sl by (auto simp: sleepers_def tqs_ok_def)
  show "queued (Qs(q := None)) m = queued Qs m" for m
    using q by (auto simp: queued_def) (metis list.set(1) empty_iff option.inject)
qed auto

lemma sleepers_bulk_move:
  assumes sl: "sleepers w Qs xs" and T: "Qs to = Some []" and F: "Qs from = Some ns" and ne: "to \<noteq> from"
  shows "\<exists>w'. tq_bulk_move w to from = Some (0, w') \<and> sleepers w' (Qs(to \<mapsto> ns, from \<mapsto> [])) xs \<and>
    (\<forall>m. node_space w' m = node_space w m)"
proof -
  have ok: "tqs_ok w Qs" using sl by (simp add: sleepers_def)
  obtain w' where w': "tq_bulk_move w to from = Some (0, w')" "tqs_ok w' (Qs(to \<mapsto> ns, from \<mapsto> []))"
    "\<And>n. node_space w' n = node_space w n"
    "\<And>n. tw_nodes w' n =
       (if n \<in> set ns then map_option (list_queue_update (\<lambda>_. to)) (tw_nodes w n) else tw_nodes w n)"
    using tq_bulk_move_ok [OF ok T F ne] by blast
  have q: "queued (Qs(to \<mapsto> ns, from \<mapsto> [])) m = queued Qs m" for m
  proof
    assume "queued (Qs(to \<mapsto> ns, from \<mapsto> [])) m"
    then show "queued Qs m" using F by (auto simp: queued_def split: if_splits)
  next
    assume "queued Qs m"
    then obtain p ms where p: "Qs p = Some ms" "m \<in> set ms" by (auto simp: queued_def)
    then show "queued (Qs(to \<mapsto> ns, from \<mapsto> [])) m"
      using T F ne by (cases "p = from"; cases "p = to") (force simp: queued_def)+
  qed
  have "sleepers w' (Qs(to \<mapsto> ns, from \<mapsto> [])) xs"
    by (rule sleepers_transfer [OF sl w'(2) q w'(3)]) (use F in \<open>auto simp: w'(4) queued_def\<close>)
  then show ?thesis using w' by blast
qed

text \<open>A node that waits in another queue fails the assertion with which \<open>tq_wait\<close> takes itself off.\<close>

lemma tq_wait_end_elsewhere:
  assumes ok: "tqs_ok w Qs" and Q: "Qs p = Some ns" "n \<in> set ns" and ne: "q \<noteq> p"
  shows "tq_wait_end w q n = None"
proof -
  obtain N where N: "deref (tw_nodes w) n = Some N" "node_in p N" using tqs_node [OF ok Q] by blast
  have p0: "p \<noteq> NULL" using tqs_okD [OF ok Q(1)] by (simp add: tq_ok_def)
  have n0: "n \<noteq> NULL" using N(1) by auto
  have "tq_remove w q n = Some (- EINVAL, w)"
    using N n0 ne by (simp add: tq_remove_def tnode_get_thread_def tnode_get_queue_def node_in_def)
  then show ?thesis
    using N(1) node_in_enqueued [OF N(2) p0] by (simp add: tq_wait_end_def EINVAL_def)
qed

end
