(* ===== verification/Semaphore.thy ===== *)
theory Semaphore
  imports Sleep_Lock
begin

text \<open>
  Counting semaphores (\<open>kernel/lock/semaphore.c\<close>) on top of the thread queues. Every operation
  holds \<open>sem->lk\<close> from its first to its last access, so a critical section is one step;
  \<open>sem_wait\<close> is cut where \<open>tq_wait\<close> gives up that lock. The system \<open>sem_step\<close> interleaves the
  calls of any number of threads. The value is an \<open>int\<close>: the invariant keeps it within
  \<open>SEM_VALUE_MAX\<close>, so the C arithmetic does not overflow.
\<close>

subsection \<open>Definitions\<close>

definition SEM_VALUE_MAX :: int where "SEM_VALUE_MAX = 2147483640"

record sem_t =
  sem_queue :: addr
  sem_value :: int
  sem_name :: string
  sem_lk :: addr

record semw =
  s_tq :: tqw
  sems :: "addr \<rightharpoonup> sem_t"

definition set_sem :: "semw \<Rightarrow> addr \<Rightarrow> (sem_t \<Rightarrow> sem_t) \<Rightarrow> semw option" where
  "set_sem w sem f = do { ss \<leftarrow> modify (sems w) sem f; Some (w\<lparr>sems := ss\<rparr>) }"

definition i_sem_value_inc :: "semw \<Rightarrow> addr \<Rightarrow> (int \<times> semw) option" where
  "i_sem_value_inc w sem = do {
     S \<leftarrow> deref (sems w) sem;
     w1 \<leftarrow> set_sem w sem (\<lambda>S. S\<lparr>sem_value := sem_value S + 1\<rparr>);
     Some (sem_value S + 1, w1) }"

definition i_sem_value_dec :: "semw \<Rightarrow> addr \<Rightarrow> (int \<times> semw) option" where
  "i_sem_value_dec w sem = do {
     S \<leftarrow> deref (sems w) sem;
     w1 \<leftarrow> set_sem w sem (\<lambda>S. S\<lparr>sem_value := sem_value S - 1\<rparr>);
     Some (sem_value S - 1, w1) }"

definition i_sem_value_get :: "semw \<Rightarrow> addr \<Rightarrow> int option" where
  "i_sem_value_get w sem = map_option sem_value (deref (sems w) sem)"

definition sem_init :: "semw \<Rightarrow> addr \<Rightarrow> string option \<Rightarrow> int \<Rightarrow> (int \<times> semw) option" where
  "sem_init w sem name value =
     (if sem = NULL then Some (- EINVAL, w)
      else if value < 0 then Some (- EINVAL, w)
      else do {
        w1 \<leftarrow> set_sem w sem (\<lambda>S. S\<lparr>sem_name := (case name of None \<Rightarrow> ''unnamed'' | Some s \<Rightarrow> s),
          sem_value := value\<rparr>);
        S \<leftarrow> deref (sems w1) sem;
        q \<leftarrow> tq_init (s_tq w1) (sem_queue S) (Some ''semaphore wait queue'') (sem_lk S);
        Some (0, w1\<lparr>s_tq := q\<rparr>) })"

definition i_sem_do_post :: "semw \<Rightarrow> addr \<Rightarrow> (int \<times> semw) option" where
  "i_sem_do_post w sem = do {
     (val, w1) \<leftarrow> i_sem_value_inc w sem;
     if val \<le> 0 then do {
       S \<leftarrow> deref (sems w1) sem;
       (t, q) \<leftarrow> tq_wakeup (s_tq w1) (sem_queue S) 0 0;
       Some (case t of Inl e \<Rightarrow> e | Inr p \<Rightarrow> if p = NULL then - ENOENT else 0, w1\<lparr>s_tq := q\<rparr>) }
     else Some (0, w1) }"

text \<open>
  The part of \<open>sem_wait\<close> up to \<open>tq_wait\<close>. The first result is the return value, or \<open>None\<close> when the
  thread has been put to sleep on its wait node \<open>waiter\<close>.
\<close>

definition sem_wait_enter :: "semw \<Rightarrow> cpu_ctx \<Rightarrow> addr \<Rightarrow> addr \<Rightarrow> (int option \<times> semw) option" where
  "sem_wait_enter w c sem waiter =
     (if \<not> may_sleep c then None
      else if sem = NULL then Some (Some (- EINVAL), w)
      else do {
        (val, w1) \<leftarrow> i_sem_value_dec w sem;
        if val < - SEM_VALUE_MAX then do {
          (_, w2) \<leftarrow> i_sem_value_inc w1 sem;
          Some (Some (- EOVERFLOW), w2) }
        else if val \<ge> 0 then Some (Some 0, w1)
        else do {
          S \<leftarrow> deref (sems w1) sem;
          (ret, q) \<leftarrow> tq_wait_begin (s_tq w1) (current c) (sem_queue S) waiter THREAD_UNINTERRUPTIBLE;
          if ret = 0 then Some (None, w1\<lparr>s_tq := q\<rparr>) else None } })"

text \<open>The rest of \<open>sem_wait\<close>, when the thread runs again and holds \<open>sem->lk\<close>.\<close>

definition sem_wait_resume :: "semw \<Rightarrow> addr \<Rightarrow> addr \<Rightarrow> (int \<times> semw) option" where
  "sem_wait_resume w sem waiter = do {
     S \<leftarrow> deref (sems w) sem;
     (ret, _, q) \<leftarrow> tq_wait_end (s_tq w) (sem_queue S) waiter;
     let w1 = w\<lparr>s_tq := q\<rparr> in
     if ret \<noteq> 0 then do {
       (wake_ret, w2) \<leftarrow> i_sem_do_post w1 sem;
       Some (ret, w2) }
     else Some (ret, w1) }"

definition sem_trywait :: "semw \<Rightarrow> addr \<Rightarrow> (int \<times> semw) option" where
  "sem_trywait w sem =
     (if sem = NULL then Some (- EINVAL, w)
      else do {
        val \<leftarrow> i_sem_value_get w sem;
        if val > 0 then do { (_, w1) \<leftarrow> i_sem_value_dec w sem; Some (0, w1) }
        else Some (- EAGAIN, w) })"

definition sem_post :: "semw \<Rightarrow> addr \<Rightarrow> (int \<times> semw) option" where
  "sem_post w sem =
     (if sem = NULL then Some (- EINVAL, w)
      else do {
        val \<leftarrow> i_sem_value_get w sem;
        if val = SEM_VALUE_MAX then Some (- EOVERFLOW, w)
        else do {
          (ret, w1) \<leftarrow> i_sem_do_post w sem;
          if ret = - ENOENT then Some (0, w1) else Some (ret, w1) } })"

definition sem_getvalue :: "semw \<Rightarrow> addr \<Rightarrow> bool \<Rightarrow> (int \<times> int option) option" where
  "sem_getvalue w sem given =
     (if sem = NULL \<or> \<not> given then Some (- EINVAL, None)
      else do { val \<leftarrow> i_sem_value_get w sem; Some (0, Some val) })"

subsection \<open>Interleaved calls\<close>

text \<open>
  \<open>asleep\<close>: the threads inside \<open>tq_wait\<close>, each with its wait node; \<open>posts\<close>: the posts that
  succeeded; \<open>acquired\<close>: the waits that returned 0.
\<close>

record sem_sys =
  sys_w :: semw
  asleep :: "(addr \<times> addr) list"
  posts :: nat
  acquired :: nat

inductive sem_step :: "addr \<Rightarrow> sem_sys \<Rightarrow> sem_sys \<Rightarrow> bool" for sem where
  wait_done: "t \<noteq> NULL \<Longrightarrow> sem_wait_enter (sys_w s) (thread_ctx t) sem n = Some (Some ret, w') \<Longrightarrow>
    sem_step sem s (s\<lparr>sys_w := w', acquired := acquired s + (if ret = 0 then 1 else 0)\<rparr>)"
| wait_sleep: "t \<noteq> NULL \<Longrightarrow> node_space (s_tq (sys_w s)) n \<Longrightarrow> n \<notin> snd ` set (asleep s) \<Longrightarrow>
    sem_wait_enter (sys_w s) (thread_ctx t) sem n = Some (None, w') \<Longrightarrow>
    sem_step sem s (s\<lparr>sys_w := w', asleep := (t, n) # asleep s\<rparr>)"
| resume: "(t, n) \<in> set (asleep s) \<Longrightarrow> tw_nodes (s_tq (sys_w s)) n = Some N \<Longrightarrow> \<not> tq_enqueued N \<Longrightarrow>
    sem_wait_resume (sys_w s) sem n = Some (ret, w') \<Longrightarrow>
    sem_step sem s (s\<lparr>sys_w := w', asleep := remove1 (t, n) (asleep s),
      acquired := acquired s + (if ret = 0 then 1 else 0)\<rparr>)"
| trywait: "sem_trywait (sys_w s) sem = Some (ret, w') \<Longrightarrow>
    sem_step sem s (s\<lparr>sys_w := w', acquired := acquired s + (if ret = 0 then 1 else 0)\<rparr>)"
| post: "sem_post (sys_w s) sem = Some (ret, w') \<Longrightarrow>
    sem_step sem s (s\<lparr>sys_w := w', posts := posts s + (if ret = 0 then 1 else 0)\<rparr>)"

text \<open>A thread that is woken while it still stands in the queue.\<close>

inductive sem_intr :: "addr \<Rightarrow> sem_sys \<Rightarrow> sem_sys \<Rightarrow> bool" for sem where
  interrupt: "(t, n) \<in> set (asleep s) \<Longrightarrow> sem_wait_resume (sys_w s) sem n = Some (ret, w') \<Longrightarrow>
    sem_intr sem s (s\<lparr>sys_w := w', asleep := remove1 (t, n) (asleep s),
      acquired := acquired s + (if ret = 0 then 1 else 0)\<rparr>)"

subsection \<open>The operations branch by branch\<close>

definition upd_value :: "semw \<Rightarrow> addr \<Rightarrow> sem_t \<Rightarrow> int \<Rightarrow> semw" where
  "upd_value w sem S v = w\<lparr>sems := (sems w)(sem \<mapsto> S\<lparr>sem_value := v\<rparr>)\<rparr>"

lemma upd_value_simps [simp]:
  "s_tq (upd_value w sem S v) = s_tq w"
  "sem \<noteq> NULL \<Longrightarrow> deref (sems (upd_value w sem S v)) sem = Some (S\<lparr>sem_value := v\<rparr>)"
  by (simp_all add: upd_value_def)

lemma sem_value_ops:
  assumes "deref (sems w) sem = Some S"
  shows "i_sem_value_inc w sem = Some (sem_value S + 1, upd_value w sem S (sem_value S + 1))"
    and "i_sem_value_dec w sem = Some (sem_value S - 1, upd_value w sem S (sem_value S - 1))"
    and "i_sem_value_get w sem = Some (sem_value S)"
    and "sem \<noteq> NULL"
  using assms by (auto simp: i_sem_value_inc_def i_sem_value_dec_def i_sem_value_get_def set_sem_def
      modify_Some upd_value_def)

lemma upd_value_again [simp]: "sem_value S = v \<Longrightarrow> deref (sems w) sem = Some S \<Longrightarrow> upd_value w sem S v = w"
  by (cases w) (auto simp: upd_value_def deref_def split: if_splits)

lemma upd_value_twice [simp]: "upd_value (upd_value w sem S u) sem (S\<lparr>sem_value := u\<rparr>) v = upd_value w sem S v"
  by (simp add: upd_value_def)

lemma sem_wait_enter_done:
  assumes "deref (sems w) sem = Some S" "t \<noteq> NULL" "0 < sem_value S"
  shows "sem_wait_enter w (thread_ctx t) sem n = Some (Some 0, upd_value w sem S (sem_value S - 1))"
  using assms by (simp add: sem_wait_enter_def sem_value_ops SEM_VALUE_MAX_def)

lemma sem_wait_enter_overflow:
  assumes "deref (sems w) sem = Some S" "t \<noteq> NULL" "sem_value S \<le> - SEM_VALUE_MAX"
  shows "sem_wait_enter w (thread_ctx t) sem n = Some (Some (- EOVERFLOW), w)"
proof -
  note ops = sem_value_ops [OF assms(1)]
  have "deref (sems (upd_value w sem S (sem_value S - 1))) sem = Some (S\<lparr>sem_value := sem_value S - 1\<rparr>)"
    using ops(4) by simp
  from sem_value_ops(1) [OF this]
  have "i_sem_value_inc (upd_value w sem S (sem_value S - 1)) sem = Some (sem_value S, w)"
    using assms(1) by simp
  then show ?thesis using assms ops by (simp add: sem_wait_enter_def)
qed

lemma sem_wait_enter_sleep:
  assumes S: "deref (sems w) sem = Some S" and v: "sem_value S \<le> 0" "- SEM_VALUE_MAX < sem_value S"
    and q: "sleepers (s_tq w) [sem_queue S \<mapsto> ns] xs" "node_space (s_tq w) n" "n \<notin> snd ` set xs" "t \<noteq> NULL"
  shows "\<exists>q'. sem_wait_enter w (thread_ctx t) sem n =
      Some (None, (upd_value w sem S (sem_value S - 1))\<lparr>s_tq := q'\<rparr>) \<and>
    sleepers q' [sem_queue S \<mapsto> ns @ [n]] ((t, n) # xs) \<and> (\<forall>m. node_space q' m = node_space (s_tq w) m)"
proof -
  obtain q' where "tq_wait_begin (s_tq w) t (sem_queue S) n THREAD_UNINTERRUPTIBLE = Some (0, q')"
    "sleepers q' [sem_queue S \<mapsto> ns @ [n]] ((t, n) # xs)" "\<forall>m. node_space q' m = node_space (s_tq w) m"
    using sleepers_begin [OF q(1) _ q(2-4), of "sem_queue S" ns] by auto
  then show ?thesis
    using S v q(4) sem_value_ops [OF S]
    by (intro exI [of _ q']) (simp add: sem_wait_enter_def)
qed

lemma i_sem_do_post_free:
  assumes "deref (sems w) sem = Some S" "0 \<le> sem_value S"
  shows "i_sem_do_post w sem = Some (0, upd_value w sem S (sem_value S + 1))"
  using assms by (simp add: i_sem_do_post_def sem_value_ops)

lemma i_sem_do_post_wake:
  assumes S: "deref (sems w) sem = Some S" and v: "sem_value S < 0"
    and q: "sleepers (s_tq w) [sem_queue S \<mapsto> n # ns] xs"
  shows "\<exists>q'. i_sem_do_post w sem = Some (0, (upd_value w sem S (sem_value S + 1))\<lparr>s_tq := q'\<rparr>) \<and>
    sleepers q' [sem_queue S \<mapsto> ns] xs"
proof -
  obtain q' t where "tq_wakeup (s_tq w) (sem_queue S) 0 0 = Some (Inr t, q')" "t \<noteq> NULL"
    "sleepers q' [sem_queue S \<mapsto> ns] xs"
    using sleepers_wake [OF q, of "sem_queue S" n ns] by auto
  then show ?thesis
    using S v sem_value_ops [OF S] by (intro exI [of _ q']) (simp add: i_sem_do_post_def)
qed

subsection \<open>Invariant\<close>

definition sem_rel :: "addr \<Rightarrow> int \<Rightarrow> sem_sys \<Rightarrow> sem_t \<Rightarrow> addr list \<Rightarrow> bool" where
  "sem_rel sem init s S ns \<longleftrightarrow> deref (sems (sys_w s)) sem = Some S \<and>
     sleepers (s_tq (sys_w s)) [sem_queue S \<mapsto> ns] (asleep s) \<and>
     sem_value S = init + int (posts s) - int (acquired s) - int (length (asleep s)) \<and>
     length ns = nat (- sem_value S) \<and> \<bar>sem_value S\<bar> \<le> SEM_VALUE_MAX"

definition sem_inv :: "addr \<Rightarrow> int \<Rightarrow> sem_sys \<Rightarrow> bool" where
  "sem_inv sem init s \<longleftrightarrow> (\<exists>S ns. sem_rel sem init s S ns)"

lemma sem_relD:
  assumes "sem_rel sem init s S ns"
  shows "deref (sems (sys_w s)) sem = Some S" "sem \<noteq> NULL"
    "sleepers (s_tq (sys_w s)) [sem_queue S \<mapsto> ns] (asleep s)"
    "sem_value S = init + int (posts s) - int (acquired s) - int (length (asleep s))"
    "length ns = nat (- sem_value S)" "\<bar>sem_value S\<bar> \<le> SEM_VALUE_MAX"
  using assms sem_value_ops(4) unfolding sem_rel_def by blast+

lemma sem_invI: "sem_rel sem init s S ns \<Longrightarrow> sem_inv sem init s"
  by (auto simp: sem_inv_def)

lemma sem_invE: "sem_inv sem init s \<Longrightarrow> (\<And>S ns. sem_rel sem init s S ns \<Longrightarrow> P) \<Longrightarrow> P"
  by (auto simp: sem_inv_def)

lemma sem_inv_value:
  assumes inv: "sem_inv sem init s" and S: "deref (sems (sys_w s)) sem = Some S"
    and v: "0 \<le> sem_value S" "0 \<le> u" "u \<le> SEM_VALUE_MAX"
    and u: "u = init + int p - int a - int (length (asleep s))"
  shows "sem_inv sem init (s\<lparr>sys_w := upd_value (sys_w s) sem S u, posts := p, acquired := a\<rparr>)"
proof -
  obtain ns where R: "sem_rel sem init s S ns"
    using inv S by (auto simp: sem_inv_def sem_rel_def)
  then show ?thesis
    using v u sem_relD(2) [OF R]
    by (intro sem_invI [where S = "S\<lparr>sem_value := u\<rparr>" and ns = "[]"]) (auto simp: sem_rel_def)
qed

lemma sem_inv_wait_done:
  assumes inv: "sem_inv sem init s" and t: "t \<noteq> NULL"
    and e: "sem_wait_enter (sys_w s) (thread_ctx t) sem n = Some (Some ret, w')"
  shows "sem_inv sem init (s\<lparr>sys_w := w', acquired := acquired s + (if ret = 0 then 1 else 0)\<rparr>)"
proof -
  obtain S ns where S: "deref (sems (sys_w s)) sem = Some S" "sem_value S \<le> SEM_VALUE_MAX"
    "sem_value S = init + int (posts s) - int (acquired s) - int (length (asleep s))"
    using inv by (auto simp: sem_inv_def sem_rel_def)
  consider "0 < sem_value S" | "sem_value S \<le> - SEM_VALUE_MAX"
    | "sem_value S \<le> 0" "- SEM_VALUE_MAX < sem_value S" by linarith
  then show ?thesis
  proof cases
    case 1
    then have "ret = 0" "w' = upd_value (sys_w s) sem S (sem_value S - 1)"
      using sem_wait_enter_done [OF S(1) t 1, of n] e by auto
    then show ?thesis
      using sem_inv_value [OF inv S(1), of "sem_value S - 1" "posts s" "acquired s + 1"] 1 S by simp
  next
    case 2
    then have "ret = - EOVERFLOW" "w' = sys_w s"
      using sem_wait_enter_overflow [OF S(1) t 2, of n] e by auto
    then show ?thesis using inv by (simp add: EOVERFLOW_def)
  next
    case 3
    then show ?thesis
      using e t S(1) sem_value_ops [OF S(1)]
      by (auto simp: sem_wait_enter_def bind_eq_Some_conv split: if_splits)
  qed
qed

lemma sem_rel_sleep:
  assumes R: "sem_rel sem init s S ns" and t: "t \<noteq> NULL"
    and v: "sem_value S \<le> 0" "- SEM_VALUE_MAX < sem_value S"
    and n: "node_space (s_tq (sys_w s)) n" "n \<notin> snd ` set (asleep s)"
  shows "\<exists>w'. sem_wait_enter (sys_w s) (thread_ctx t) sem n = Some (None, w') \<and>
    sem_rel sem init (s\<lparr>sys_w := w', asleep := (t, n) # asleep s\<rparr>) (S\<lparr>sem_value := sem_value S - 1\<rparr>) (ns @ [n]) \<and>
    (\<forall>m. node_space (s_tq w') m = node_space (s_tq (sys_w s)) m)"
  using sem_wait_enter_sleep [OF sem_relD(1) [OF R] v sem_relD(3) [OF R] n t] sem_relD [OF R] v
  by (auto simp: upd_value_def sem_rel_def)

lemma sem_inv_wait_sleep:
  assumes inv: "sem_inv sem init s" and t: "t \<noteq> NULL"
    and n: "node_space (s_tq (sys_w s)) n" "n \<notin> snd ` set (asleep s)"
    and e: "sem_wait_enter (sys_w s) (thread_ctx t) sem n = Some (None, w')"
  shows "sem_inv sem init (s\<lparr>sys_w := w', asleep := (t, n) # asleep s\<rparr>)"
proof -
  obtain S ns where R: "sem_rel sem init s S ns" by (rule sem_invE [OF inv])
  note S = sem_relD [OF R]
  have v: "sem_value S \<le> 0" "- SEM_VALUE_MAX < sem_value S"
    using e sem_wait_enter_done [OF S(1) t, of n] sem_wait_enter_overflow [OF S(1) t, of n] by force+
  show ?thesis using sem_rel_sleep [OF R t v n] e by (auto intro: sem_invI)
qed

lemma sem_inv_resume:
  assumes inv: "sem_inv sem init s" and x: "(t, n) \<in> set (asleep s)"
    and N: "tw_nodes (s_tq (sys_w s)) n = Some N" "\<not> tq_enqueued N"
    and e: "sem_wait_resume (sys_w s) sem n = Some (ret, w')"
  shows "ret = 0" "sem_inv sem init (s\<lparr>sys_w := w', asleep := remove1 (t, n) (asleep s), acquired := acquired s + 1\<rparr>)"
proof -
  obtain S ns where R: "sem_rel sem init s S ns" by (rule sem_invE [OF inv])
  note S = sem_relD [OF R]
  have un: "\<not> queued [sem_queue S \<mapsto> ns] n" by (rule sleepers_dequeued [OF S(3) N])
  have e': "ret = 0 \<and> w' = sys_w s"
    using e S(1) sleepers_woken [OF S(3) x un, of "sem_queue S"] by (auto simp: sem_wait_resume_def)
  then show "ret = 0" by simp
  have len: "int (length (remove1 (t, n) (asleep s))) = int (length (asleep s)) - 1"
    using x length_pos_if_in_set [OF x] by (simp add: length_remove1 of_nat_diff Suc_le_eq)
  show "sem_inv sem init (s\<lparr>sys_w := w', asleep := remove1 (t, n) (asleep s), acquired := acquired s + 1\<rparr>)"
    using S e' len sleepers_remove [OF S(3) x] un
    by (intro sem_invI [where S = S and ns = ns]) (auto simp: sem_rel_def)
qed

lemma sem_inv_trywait:
  assumes inv: "sem_inv sem init s" and e: "sem_trywait (sys_w s) sem = Some (ret, w')"
  shows "sem_inv sem init (s\<lparr>sys_w := w', acquired := acquired s + (if ret = 0 then 1 else 0)\<rparr>)"
proof -
  obtain S ns where R: "sem_rel sem init s S ns" by (rule sem_invE [OF inv])
  note S = sem_relD [OF R]
  show ?thesis
  proof (cases "0 < sem_value S")
    case True
    then have "ret = 0" "w' = upd_value (sys_w s) sem S (sem_value S - 1)"
      using e S(2) sem_value_ops [OF S(1)] by (auto simp: sem_trywait_def)
    then show ?thesis
      using sem_inv_value [OF inv S(1), of "sem_value S - 1" "posts s" "acquired s + 1"] True S(4,6) by simp
  next
    case False
    then have "ret = - EAGAIN" "w' = sys_w s"
      using e S(2) sem_value_ops [OF S(1)] by (auto simp: sem_trywait_def)
    then show ?thesis using inv by (simp add: EAGAIN_def)
  qed
qed

lemma sem_inv_post:
  assumes inv: "sem_inv sem init s" and e: "sem_post (sys_w s) sem = Some (ret, w')"
  shows "sem_inv sem init (s\<lparr>sys_w := w', posts := posts s + (if ret = 0 then 1 else 0)\<rparr>)"
proof -
  obtain S ns where R: "sem_rel sem init s S ns" by (rule sem_invE [OF inv])
  note S = sem_relD [OF R]
  consider "sem_value S = SEM_VALUE_MAX" | "0 \<le> sem_value S" "sem_value S \<noteq> SEM_VALUE_MAX" | "sem_value S < 0"
    by linarith
  then show ?thesis
  proof cases
    case 1
    then have "ret = - EOVERFLOW" "w' = sys_w s"
      using e S(2) sem_value_ops [OF S(1)] by (auto simp: sem_post_def)
    then show ?thesis using inv by (simp add: EOVERFLOW_def)
  next
    case 2
    then have "ret = 0" "w' = upd_value (sys_w s) sem S (sem_value S + 1)"
      using e S(2) sem_value_ops [OF S(1)] i_sem_do_post_free [OF S(1)]
      by (auto simp: sem_post_def ENOENT_def)
    then show ?thesis
      using sem_inv_value [OF inv S(1), of "sem_value S + 1" "posts s + 1" "acquired s"] 2 S(4,6) by simp
  next
    case 3
    then obtain n ms where ns: "ns = n # ms" using S(5) by (cases ns) auto
    obtain q' where q': "i_sem_do_post (sys_w s) sem =
        Some (0, (upd_value (sys_w s) sem S (sem_value S + 1))\<lparr>s_tq := q'\<rparr>)"
      "sleepers q' [sem_queue S \<mapsto> ms] (asleep s)"
      using i_sem_do_post_wake [OF S(1) 3] S(3) ns by blast
    then have "ret = 0" "w' = (upd_value (sys_w s) sem S (sem_value S + 1))\<lparr>s_tq := q'\<rparr>"
      using e 3 S(2,6) sem_value_ops [OF S(1)] by (auto simp: sem_post_def ENOENT_def SEM_VALUE_MAX_def)
    then show ?thesis
      using S q'(2) 3 ns
      by (intro sem_invI [where S = "S\<lparr>sem_value := sem_value S + 1\<rparr>" and ns = ms])
        (auto simp: upd_value_def sem_rel_def)
  qed
qed

interpretation sem_sys: step_invariant "sem_step sem" "sem_inv sem init"
proof unfold_locales
  fix s s'
  assume inv: "sem_inv sem init s" and st: "sem_step sem s s'"
  from st show "sem_inv sem init s'"
  proof cases
    case (wait_done t n ret w')
    then show ?thesis using sem_inv_wait_done [OF inv, of t n ret w'] by simp
  next
    case (wait_sleep t n w')
    then show ?thesis using sem_inv_wait_sleep [OF inv, of t n w'] by simp
  next
    case (resume t n N ret w')
    then show ?thesis using sem_inv_resume [OF inv, of t n N ret w'] by simp
  next
    case (trywait ret w')
    then show ?thesis using sem_inv_trywait [OF inv, of ret w'] by simp
  next
    case (post ret w')
    then show ?thesis using sem_inv_post [OF inv, of ret w'] by simp
  qed
qed

text \<open>No call fails: each returns or puts its caller to sleep.\<close>

lemma sem_calls_total:
  assumes inv: "sem_inv sem init s"
  shows "t \<noteq> NULL \<Longrightarrow> node_space (s_tq (sys_w s)) n \<Longrightarrow> n \<notin> snd ` set (asleep s) \<Longrightarrow>
      \<exists>r w'. sem_wait_enter (sys_w s) (thread_ctx t) sem n = Some (r, w')"
    and "\<exists>ret w'. sem_trywait (sys_w s) sem = Some (ret, w')"
    and "\<exists>ret w'. sem_post (sys_w s) sem = Some (ret, w') \<and> (ret = 0 \<or> ret = - EOVERFLOW)"
proof -
  obtain S ns where R: "sem_rel sem init s S ns" by (rule sem_invE [OF inv])
  note S = sem_relD [OF R]
  show "\<exists>r w'. sem_wait_enter (sys_w s) (thread_ctx t) sem n = Some (r, w')"
    if "t \<noteq> NULL" "node_space (s_tq (sys_w s)) n" "n \<notin> snd ` set (asleep s)"
    using sem_wait_enter_done [OF S(1) that(1)] sem_wait_enter_overflow [OF S(1) that(1)]
      sem_wait_enter_sleep [OF S(1) _ _ S(3) that(2,3,1)]
    by (cases "0 < sem_value S"; cases "sem_value S \<le> - SEM_VALUE_MAX") force+
  show "\<exists>ret w'. sem_trywait (sys_w s) sem = Some (ret, w')"
    using S(2) sem_value_ops [OF S(1)] by (auto simp: sem_trywait_def)
  show "\<exists>ret w'. sem_post (sys_w s) sem = Some (ret, w') \<and> (ret = 0 \<or> ret = - EOVERFLOW)"
  proof (cases "sem_value S < 0")
    case True
    then obtain n ms where "ns = n # ms" using S(5) by (cases ns) auto
    then show ?thesis
      using i_sem_do_post_wake [OF S(1) True, of n ms "asleep s"] S(2,3) sem_value_ops [OF S(1)]
      by (auto simp: sem_post_def ENOENT_def)
  next
    case False
    then show ?thesis
      using i_sem_do_post_free [OF S(1)] S(2) sem_value_ops [OF S(1)] by (auto simp: sem_post_def ENOENT_def)
  qed
qed

subsection \<open>Properties\<close>

text \<open>The state right after \<open>sem_init\<close>, before any other call.\<close>

definition sem_space :: "semw \<Rightarrow> addr \<Rightarrow> bool" where
  "sem_space w sem \<longleftrightarrow> (\<exists>S. deref (sems w) sem = Some S \<and> alloc (tw_list (s_tq w)) (sem_queue S) \<and>
     alloc (tw_queues (s_tq w)) (sem_queue S) \<and> (\<forall>n. alloc (tw_nodes (s_tq w)) n \<longrightarrow> list_entry n \<noteq> sem_queue S))"

definition sem_start :: "semw \<Rightarrow> sem_sys" where
  "sem_start w = \<lparr>sys_w = w, asleep = [], posts = 0, acquired = 0\<rparr>"

lemma sem_init_ok:
  assumes "sem_space w sem" "0 \<le> v" "v \<le> SEM_VALUE_MAX"
  shows "\<exists>w0. sem_init w sem name v = Some (0, w0) \<and> sem_inv sem v (sem_start w0) \<and>
    (\<forall>n. node_space (s_tq w) n \<longrightarrow> node_space (s_tq w0) n)"
proof -
  obtain S where S: "deref (sems w) sem = Some S" "alloc (tw_list (s_tq w)) (sem_queue S)"
    "alloc (tw_queues (s_tq w)) (sem_queue S)" "\<And>n. alloc (tw_nodes (s_tq w)) n \<Longrightarrow> list_entry n \<noteq> sem_queue S"
    using assms(1) by (auto simp: sem_space_def)
  obtain Q where Q: "tw_queues (s_tq w) (sem_queue S) = Some Q" using S(3) by (auto simp: alloc_def)
  define S' where "S' = S\<lparr>sem_name := (case name of None \<Rightarrow> ''unnamed'' | Some s \<Rightarrow> s), sem_value := v\<rparr>"
  obtain q' where q': "tq_init (s_tq w) (sem_queue S) (Some ''semaphore wait queue'') (sem_lk S) = Some q'"
    "tqs_ok q' [sem_queue S \<mapsto> []]" "\<forall>n. node_space (s_tq w) n \<longrightarrow> node_space q' n"
    using tq_init_ok [OF S(2) Q, of "Some ''semaphore wait queue''" "sem_lk S"] S(4) by blast
  have n: "sem \<noteq> NULL" using S(1) by auto
  define w0 where "w0 = w\<lparr>sems := (sems w)(sem \<mapsto> S'), s_tq := q'\<rparr>"
  have "sem_init w sem name v = Some (0, w0)"
    using n assms S(1) q'(1) by (simp add: sem_init_def set_sem_def modify_Some S'_def w0_def)
  moreover have "sem_rel sem v (sem_start w0) S' []"
    using assms q'(2) n by (simp add: sem_rel_def sem_start_def w0_def S'_def sleepers_def)
  ultimately show ?thesis using q'(3) by (auto simp: sem_inv_def w0_def)
qed

lemma sem_inv_units:
  assumes "sem_rel sem v s S ns"
  shows "int (acquired s) \<le> v + int (posts s) - max 0 (sem_value S)"
    and "ns \<noteq> [] \<Longrightarrow> int (acquired s) + int (length (pending [sem_queue S \<mapsto> ns] (asleep s))) = v + int (posts s)"
proof -
  note S = sem_relD [OF assms]
  have len: "length (asleep s) = length (pending [sem_queue S \<mapsto> ns] (asleep s)) + length ns"
    by (rule length_pending [OF S(3)])
  then show "int (acquired s) \<le> v + int (posts s) - max 0 (sem_value S)" using S(4,5) by linarith
  show "int (acquired s) + int (length (pending [sem_queue S \<mapsto> ns] (asleep s))) = v + int (posts s)"
    if "ns \<noteq> []" using S(4,5) that len by (cases ns) auto
qed


text \<open>
  C26. The error path of \<open>sem_wait\<close>: when the first of two queued waiters is woken behind the
  queue's back, \<open>__sem_do_post\<close> finds the value still not positive and wakes the second waiter,
  which returns with success although nothing was posted. With every unit already taken there is
  then one holder more than units.
\<close>

theorem sem_interrupt_overadmits:
  assumes "sem_rel sem v s S (a # b # ns)" and "length (asleep s) = length (a # b # ns)"
    and "(ta, a) \<in> set (asleep s)" and "(tb, b) \<in> set (asleep s)"
  shows "\<exists>s' s''. sem_intr sem s s' \<and> sem_step sem s' s'' \<and> posts s'' = posts s \<and>
    int (acquired s'') = v + int (posts s'') + 1"
proof -
  note S = sem_relD [OF assms(1)]
  have ab: "a \<noteq> b" using sleepers_distinct [OF S(3), of "sem_queue S"] by auto
  have v: "sem_value S < 0" using S(5) by auto
  let ?xs = "remove1 (ta, a) (asleep s)"
  obtain d q1 where q1: "tq_wait_end (s_tq (sys_w s)) (sem_queue S) a = Some (- EINTR, d, q1)"
    "sleepers q1 [sem_queue S \<mapsto> b # ns] ?xs"
    using sleepers_cancel [OF S(3) assms(3), of "sem_queue S" "[]" "b # ns"] by auto
  let ?w1 = "(sys_w s)\<lparr>s_tq := q1\<rparr>"
  obtain q2 where q2: "i_sem_do_post ?w1 sem = Some (0, (upd_value ?w1 sem S (sem_value S + 1))\<lparr>s_tq := q2\<rparr>)"
    "sleepers q2 [sem_queue S \<mapsto> ns] ?xs"
    using i_sem_do_post_wake [of ?w1 sem S b ns] S(1) v q1(2) by auto
  define w2 where "w2 = (upd_value ?w1 sem S (sem_value S + 1))\<lparr>s_tq := q2\<rparr>"
  define s' where "s' = s\<lparr>sys_w := w2, asleep := ?xs, acquired := acquired s + 0\<rparr>"
  define s'' where "s'' = s'\<lparr>sys_w := w2, asleep := remove1 (tb, b) (asleep s'), acquired := acquired s' + 1\<rparr>"
  have "sem_wait_resume (sys_w s) sem a = Some (- EINTR, w2)"
    using S(1) q1(1) q2(1) by (simp add: sem_wait_resume_def EINTR_def w2_def)
  then have "sem_intr sem s s'"
    using sem_intr.interrupt [OF assms(3)] by (fastforce simp: s'_def EINTR_def)
  moreover have tb: "(tb, b) \<in> set ?xs" using assms(4) ab by simp
  have un: "\<not> queued [sem_queue S \<mapsto> ns] b"
    using sleepers_distinct [OF q1(2), of "sem_queue S"] by auto
  obtain N where N: "tw_nodes (s_tq w2) b = Some N" "\<not> tq_enqueued N"
    using q2(2) tb un by (fastforce simp: sleepers_def sleeper_ok_def w2_def)
  have "sem_wait_resume w2 sem b = Some (0, w2)"
    using sleepers_woken [OF q2(2) tb un, of "sem_queue S"] S(2)
    by (auto simp: sem_wait_resume_def w2_def upd_value_def)
  then have "sem_step sem s' s''"
    using sem_step.resume [of tb b s' N sem 0 w2] tb N by (simp add: s'_def s''_def)
  moreover have "posts s'' = posts s" "int (acquired s'') = v + int (posts s'') + 1"
    using S(4,5) assms(2) v by (simp_all add: s''_def s'_def)
  ultimately show ?thesis by blast
qed

text \<open>A semaphore at 8 whose queue is the one of \<^const>\<open>demo_tqw\<close>.\<close>

definition demo_semw :: semw where
  "demo_semw = \<lparr>s_tq = demo_tqw, sems = [8 \<mapsto> \<lparr>sem_queue = 16, sem_value = 0, sem_name = ''demo'', sem_lk = 8\<rparr>]\<rparr>"

lemma demo_semw_space: "sem_space demo_semw 8" "node_space (s_tq demo_semw) 64" "node_space (s_tq demo_semw) 128"
  using demo_tqw_facts by (auto simp: sem_space_def demo_semw_def deref_def alloc_def demo_tqw_def
      list_entry_def split: if_splits)

lemma demo_sem_two_waiters:
  "\<exists>w0 s S. sem_init demo_semw 8 None 0 = Some (0, w0) \<and> (sem_step 8)\<^sup>*\<^sup>* (sem_start w0) s \<and>
    sem_rel 8 0 s S [64, 128] \<and> asleep s = [(2000, 128), (1000, 64)]"
proof -
  obtain w0 where w0: "sem_init demo_semw 8 None 0 = Some (0, w0)" "sem_inv 8 0 (sem_start w0)"
    "node_space (s_tq w0) 64" "node_space (s_tq w0) 128"
    using sem_init_ok [OF demo_semw_space(1), of 0 None] demo_semw_space by (auto simp: SEM_VALUE_MAX_def)
  let ?s0 = "sem_start w0"
  obtain S ns where R0: "sem_rel 8 0 ?s0 S ns" by (rule sem_invE [OF w0(2)])
  have S0: "sem_value S = 0" "ns = []" using sem_relD(4,5) [OF R0] by (auto simp: sem_start_def)
  obtain w1 where w1: "sem_wait_enter (sys_w ?s0) (thread_ctx 1000) 8 64 = Some (None, w1)"
    "sem_rel 8 0 (?s0\<lparr>sys_w := w1, asleep := [(1000, 64)]\<rparr>) (S\<lparr>sem_value := - 1\<rparr>) [64]"
    "node_space (s_tq w1) 128"
    using sem_rel_sleep [OF R0, of 1000 64] S0 w0(3,4) by (auto simp: sem_start_def SEM_VALUE_MAX_def)
  let ?s1 = "?s0\<lparr>sys_w := w1, asleep := [(1000, 64)]\<rparr>"
  have st1: "sem_step 8 ?s0 ?s1"
    using sem_step.wait_sleep [of 1000 ?s0 64 8 w1] w1(1) w0(3) by (simp add: sem_start_def)
  obtain w2 where w2: "sem_wait_enter (sys_w ?s1) (thread_ctx 2000) 8 128 = Some (None, w2)"
    "sem_rel 8 0 (?s1\<lparr>sys_w := w2, asleep := [(2000, 128), (1000, 64)]\<rparr>) (S\<lparr>sem_value := - 2\<rparr>) [64, 128]"
    using sem_rel_sleep [OF w1(2), of 2000 128] w1(3) by (auto simp: sem_start_def SEM_VALUE_MAX_def)
  have "sem_step 8 ?s1 (?s1\<lparr>sys_w := w2, asleep := [(2000, 128), (1000, 64)]\<rparr>)"
    using sem_step.wait_sleep [of 2000 ?s1 128 8 w2] w2(1) w1(3) by simp
  then show ?thesis
    using w0(1) st1 w2(2) by (intro exI conjI) (auto intro: rtranclp.rtrancl_into_rtrancl)
qed


theorem sem_interrupt_overadmits_witness:
  "\<exists>w0 s s' s''. sem_init demo_semw 8 None 0 = Some (0, w0) \<and> (sem_step 8)\<^sup>*\<^sup>* (sem_start w0) s \<and>
    sem_intr 8 s s' \<and> sem_step 8 s' s'' \<and> acquired s'' = posts s'' + 1"
proof -
  obtain w0 s S where s: "sem_init demo_semw 8 None 0 = Some (0, w0)" "(sem_step 8)\<^sup>*\<^sup>* (sem_start w0) s"
    "sem_rel 8 0 s S [64, 128]" "asleep s = [(2000, 128), (1000, 64)]"
    using demo_sem_two_waiters by blast
  obtain s' s'' where "sem_intr 8 s s'" "sem_step 8 s' s''" "acquired s'' = posts s'' + 1"
    using sem_interrupt_overadmits [OF s(3), of 1000 2000] s(4) by auto
  then show ?thesis using s by blast
qed

end
