(* ===== verification/Mutex.thy ===== *)
theory Mutex
  imports Sleep_Lock
begin

text \<open>
  The sleeping mutex of \<open>kernel/lock/mutex.c\<close>. The compare-and-swap of the fast path is a step
  of its own, taken without the spinlock. The critical sections under \<open>lk->lk\<close> are one step each: the
  only access to \<open>holder\<close> from outside is that compare-and-swap, which changes nothing unless
  \<open>holder\<close> is -1, and inside a critical section \<open>holder\<close> is -1 only before its first or after its last
  access. \<open>mutex_lock\<close> is cut behind the fast path and where \<open>tq_wait\<close> gives up the lock.
  A thread may also be woken while it is still queued.
\<close>

subsection \<open>Definitions\<close>

record mutex_t =
  mx_queue :: addr
  holder :: int
  mx_name :: string
  mx_lk :: addr

record mxw =
  m_tq :: tqw
  mutexes :: "addr \<rightharpoonup> mutex_t"
  pid :: "addr \<Rightarrow> int"

definition i_mutex_set_holder :: "mxw \<Rightarrow> addr \<Rightarrow> int \<Rightarrow> mxw option" where
  "i_mutex_set_holder w lk p = do { ms \<leftarrow> modify (mutexes w) lk (\<lambda>M. M\<lparr>holder := p\<rparr>); Some (w\<lparr>mutexes := ms\<rparr>) }"

definition i_mutex_holder :: "mxw \<Rightarrow> addr \<Rightarrow> int option" where
  "i_mutex_holder w lk = map_option holder (deref (mutexes w) lk)"

definition i_mutex_try_set_holder :: "mxw \<Rightarrow> addr \<Rightarrow> int \<Rightarrow> (bool \<times> mxw) option" where
  "i_mutex_try_set_holder w lk p = do {
     h \<leftarrow> i_mutex_holder w lk;
     if h = - 1 then do { w1 \<leftarrow> i_mutex_set_holder w lk p; Some (True, w1) } else Some (False, w) }"

definition i_mutex_do_wakeup :: "mxw \<Rightarrow> addr \<Rightarrow> ((int + addr) \<times> mxw) option" where
  "i_mutex_do_wakeup w lk = do {
     M \<leftarrow> deref (mutexes w) lk;
     (next, q) \<leftarrow> tq_wakeup (m_tq w) (mx_queue M) 0 0;
     let w1 = w\<lparr>m_tq := q\<rparr> in
     case next of
       Inl e \<Rightarrow> Some (Inl e, w1)
     | Inr p \<Rightarrow>
         if p = NULL then do { w2 \<leftarrow> i_mutex_set_holder w1 lk (- 1); Some (Inr NULL, w2) }
         else do { w2 \<leftarrow> i_mutex_set_holder w1 lk (pid w1 p); Some (Inr p, w2) } }"

definition mutex_init :: "mxw \<Rightarrow> addr \<Rightarrow> string \<Rightarrow> mxw option" where
  "mutex_init w lk name = do {
     M \<leftarrow> deref (mutexes w) lk;
     q \<leftarrow> tq_init (m_tq w) (mx_queue M) (Some ''sleep lock wait queue'') (mx_lk M);
     ms \<leftarrow> modify (mutexes w) lk (\<lambda>M. M\<lparr>mx_name := name\<rparr>);
     i_mutex_set_holder (w\<lparr>m_tq := q, mutexes := ms\<rparr>) lk (- 1) }"

text \<open>The fast path; the result \<open>None\<close> sends the thread to the slow path.\<close>

definition mutex_lock_fast :: "mxw \<Rightarrow> cpu_ctx \<Rightarrow> addr \<Rightarrow> (int option \<times> mxw) option" where
  "mutex_lock_fast w c lk =
     (if \<not> may_sleep c then None
      else do {
        (got, w1) \<leftarrow> i_mutex_try_set_holder w lk (pid w (current c));
        Some (if got then Some 0 else None, w1) })"

text \<open>The test of the loop and its way into \<open>tq_wait\<close>; the result \<open>None\<close> means asleep.\<close>

definition mutex_lock_loop :: "mxw \<Rightarrow> addr \<Rightarrow> addr \<Rightarrow> addr \<Rightarrow> (int option \<times> mxw) option" where
  "mutex_lock_loop w self lk waiter = do {
     h \<leftarrow> i_mutex_holder w lk;
     if h \<noteq> pid w self then do {
       M \<leftarrow> deref (mutexes w) lk;
       (ret, q) \<leftarrow> tq_wait_begin (m_tq w) self (mx_queue M) waiter THREAD_UNINTERRUPTIBLE;
       if ret = 0 then Some (None, w\<lparr>m_tq := q\<rparr>) else None }
     else Some (Some 0, w) }"

definition mutex_lock_slow :: "mxw \<Rightarrow> addr \<Rightarrow> addr \<Rightarrow> addr \<Rightarrow> (int option \<times> mxw) option" where
  "mutex_lock_slow w self lk waiter = do {
     (got, w1) \<leftarrow> i_mutex_try_set_holder w lk (pid w self);
     if got then Some (Some 0, w1)
     else do {
       h \<leftarrow> i_mutex_holder w1 lk;
       if h = pid w self then None else mutex_lock_loop w1 self lk waiter } }"

text \<open>The loop body behind \<open>tq_wait\<close>, then the next test.\<close>

definition mutex_lock_resume :: "mxw \<Rightarrow> addr \<Rightarrow> addr \<Rightarrow> addr \<Rightarrow> (int option \<times> mxw) option" where
  "mutex_lock_resume w self lk waiter = do {
     M \<leftarrow> deref (mutexes w) lk;
     (ret, _, q) \<leftarrow> tq_wait_end (m_tq w) (mx_queue M) waiter;
     let w1 = w\<lparr>m_tq := q\<rparr> in
     if ret \<noteq> 0 then do {
       h \<leftarrow> i_mutex_holder w1 lk;
       if h = pid w1 self then do {
         (next, w2) \<leftarrow> i_mutex_do_wakeup w1 lk;
         case next of
           Inl e \<Rightarrow> None
         | Inr p \<Rightarrow> if p = NULL then None else Some (Some ret, w2) }
       else Some (Some ret, w1) }
     else mutex_lock_loop w1 self lk waiter }"

definition mutex_unlock :: "mxw \<Rightarrow> addr \<Rightarrow> addr \<Rightarrow> mxw option" where
  "mutex_unlock w self lk =
     (if self = NULL then None
      else do {
        h \<leftarrow> i_mutex_holder w lk;
        if h \<noteq> pid w self then None
        else do {
          (next, w1) \<leftarrow> i_mutex_do_wakeup w lk;
          case next of Inl e \<Rightarrow> None | Inr p \<Rightarrow> Some w1 } })"

definition holding_mutex :: "mxw \<Rightarrow> addr \<Rightarrow> addr \<Rightarrow> bool option" where
  "holding_mutex w self lk =
     (if self = NULL then Some False else do { h \<leftarrow> i_mutex_holder w lk; Some (h = pid w self) })"

definition mutex_trylock :: "mxw \<Rightarrow> cpu_ctx \<Rightarrow> addr \<Rightarrow> (int \<times> mxw) option" where
  "mutex_trylock w c lk =
     (if \<not> may_sleep c then None
      else do {
        (got, w1) \<leftarrow> i_mutex_try_set_holder w lk (pid w (current c));
        Some (if got then 1 else 0, w1) })"

subsection \<open>Interleaved calls\<close>

text \<open>
  \<open>contending\<close>: threads between the fast and the slow path; \<open>mx_asleep\<close>: threads inside \<open>tq_wait\<close>
  with their wait nodes; \<open>owners\<close>: threads whose lock call returned success and that have not
  unlocked. A thread makes one call at a time, does not lock a mutex it owns and unlocks only
  what it owns.
\<close>

record mx_sys =
  mx_w :: mxw
  contending :: "addr list"
  mx_asleep :: "(addr \<times> addr) list"
  owners :: "addr list"

definition mx_idle :: "mx_sys \<Rightarrow> addr \<Rightarrow> bool" where
  "mx_idle s t \<longleftrightarrow> t \<noteq> NULL \<and> t \<notin> set (contending s) \<and> t \<notin> fst ` set (mx_asleep s) \<and> t \<notin> set (owners s)"

inductive mx_step :: "addr \<Rightarrow> mx_sys \<Rightarrow> mx_sys \<Rightarrow> bool" for lk where
  fast_got: "mx_idle s t \<Longrightarrow> mutex_lock_fast (mx_w s) (thread_ctx t) lk = Some (Some 0, w') \<Longrightarrow>
    mx_step lk s (s\<lparr>mx_w := w', owners := t # owners s\<rparr>)"
| fast_missed: "mx_idle s t \<Longrightarrow> mutex_lock_fast (mx_w s) (thread_ctx t) lk = Some (None, w') \<Longrightarrow>
    mx_step lk s (s\<lparr>mx_w := w', contending := t # contending s\<rparr>)"
| slow_got: "t \<in> set (contending s) \<Longrightarrow> mutex_lock_slow (mx_w s) t lk n = Some (Some 0, w') \<Longrightarrow>
    mx_step lk s (s\<lparr>mx_w := w', contending := remove1 t (contending s), owners := t # owners s\<rparr>)"
| slow_sleep: "t \<in> set (contending s) \<Longrightarrow> node_space (m_tq (mx_w s)) n \<Longrightarrow> n \<notin> snd ` set (mx_asleep s) \<Longrightarrow>
    mutex_lock_slow (mx_w s) t lk n = Some (None, w') \<Longrightarrow>
    mx_step lk s (s\<lparr>mx_w := w', contending := remove1 t (contending s), mx_asleep := (t, n) # mx_asleep s\<rparr>)"
| resume_got: "(t, n) \<in> set (mx_asleep s) \<Longrightarrow> mutex_lock_resume (mx_w s) t lk n = Some (Some 0, w') \<Longrightarrow>
    mx_step lk s (s\<lparr>mx_w := w', mx_asleep := remove1 (t, n) (mx_asleep s), owners := t # owners s\<rparr>)"
| resume_error: "(t, n) \<in> set (mx_asleep s) \<Longrightarrow> mutex_lock_resume (mx_w s) t lk n = Some (Some ret, w') \<Longrightarrow>
    ret \<noteq> 0 \<Longrightarrow> mx_step lk s (s\<lparr>mx_w := w', mx_asleep := remove1 (t, n) (mx_asleep s)\<rparr>)"
| resume_sleep: "(t, n) \<in> set (mx_asleep s) \<Longrightarrow> mutex_lock_resume (mx_w s) t lk n = Some (None, w') \<Longrightarrow>
    mx_step lk s (s\<lparr>mx_w := w'\<rparr>)"
| trylock: "mx_idle s t \<Longrightarrow> mutex_trylock (mx_w s) (thread_ctx t) lk = Some (ret, w') \<Longrightarrow>
    mx_step lk s (s\<lparr>mx_w := w', owners := (if ret = 1 then t # owners s else owners s)\<rparr>)"
| unlock: "t \<in> set (owners s) \<Longrightarrow> mutex_unlock (mx_w s) t lk = Some w' \<Longrightarrow>
    mx_step lk s (s\<lparr>mx_w := w', owners := remove1 t (owners s)\<rparr>)"

subsection \<open>The operations branch by branch\<close>

definition upd_holder :: "mxw \<Rightarrow> addr \<Rightarrow> mutex_t \<Rightarrow> int \<Rightarrow> mxw" where
  "upd_holder w lk M h = w\<lparr>mutexes := (mutexes w)(lk \<mapsto> M\<lparr>holder := h\<rparr>)\<rparr>"

lemma upd_holder_simps [simp]:
  "m_tq (upd_holder w lk M h) = m_tq w" "pid (upd_holder w lk M h) = pid w"
  "deref (mutexes w) lk = Some M \<Longrightarrow> deref (mutexes (upd_holder w lk M h)) lk = Some (M\<lparr>holder := h\<rparr>)"
  by (auto simp: upd_holder_def)

lemma mutex_holder_ops:
  assumes "deref (mutexes w) lk = Some M"
  shows "i_mutex_set_holder w lk p = Some (upd_holder w lk M p)"
    and "i_mutex_holder w lk = Some (holder M)"
    and "i_mutex_try_set_holder w lk p =
      Some (if holder M = - 1 then (True, upd_holder w lk M p) else (False, w))"
  using assms by (auto simp: i_mutex_set_holder_def i_mutex_holder_def i_mutex_try_set_holder_def
      modify_Some upd_holder_def)

lemma mutex_do_wakeup_none:
  assumes M: "deref (mutexes w) lk = Some M" and sl: "sleepers (m_tq w) [mx_queue M \<mapsto> []] xs"
  shows "i_mutex_do_wakeup w lk = Some (Inr NULL, upd_holder w lk M (- 1))"
  using M sleepers_wake_none [OF sl, of "mx_queue M"] by (simp add: i_mutex_do_wakeup_def mutex_holder_ops)

lemma mutex_do_wakeup_next:
  assumes M: "deref (mutexes w) lk = Some M" and sl: "sleepers (m_tq w) [mx_queue M \<mapsto> n # ns] xs"
  shows "\<exists>t q'. i_mutex_do_wakeup w lk = Some (Inr t, (upd_holder w lk M (pid w t))\<lparr>m_tq := q'\<rparr>) \<and>
    t \<noteq> NULL \<and> (t, n) \<in> set xs \<and> sleepers q' [mx_queue M \<mapsto> ns] xs"
proof -
  obtain q' t where "tq_wakeup (m_tq w) (mx_queue M) 0 0 = Some (Inr t, q')" "t \<noteq> NULL" "(t, n) \<in> set xs"
    "sleepers q' [mx_queue M \<mapsto> ns] xs"
    using sleepers_wake [OF sl, of "mx_queue M" n ns] by auto
  then show ?thesis
    using M mutex_holder_ops(1) [of "w\<lparr>m_tq := q'\<rparr>" lk M]
    by (intro exI [of _ t] exI [of _ q']) (simp add: i_mutex_do_wakeup_def upd_holder_def)
qed

subsection \<open>Invariant\<close>

text \<open>
  The heirs: the owner, or the thread to which an unlock has handed the mutex. There is exactly
  one while \<open>holder\<close> names it, and none, with nobody queued, while \<open>holder\<close> is -1.
\<close>

definition heirs :: "mx_sys \<Rightarrow> addr \<Rightarrow> addr list \<Rightarrow> addr list" where
  "heirs s q ns = owners s @ map fst (pending [q \<mapsto> ns] (mx_asleep s))"

definition mx_threads :: "mx_sys \<Rightarrow> addr list" where
  "mx_threads s = owners s @ contending s @ map fst (mx_asleep s)"

definition mx_rel :: "addr \<Rightarrow> mx_sys \<Rightarrow> mutex_t \<Rightarrow> addr list \<Rightarrow> bool" where
  "mx_rel lk s M ns \<longleftrightarrow> deref (mutexes (mx_w s)) lk = Some M \<and>
     sleepers (m_tq (mx_w s)) [mx_queue M \<mapsto> ns] (mx_asleep s) \<and>
     distinct (mx_threads s) \<and> NULL \<notin> set (mx_threads s) \<and>
     inj (pid (mx_w s)) \<and> (\<forall>t. 0 \<le> pid (mx_w s) t) \<and>
     (if holder M = - 1 then heirs s (mx_queue M) ns = [] \<and> ns = []
      else \<exists>t. heirs s (mx_queue M) ns = [t] \<and> holder M = pid (mx_w s) t)"

definition mx_inv :: "addr \<Rightarrow> mx_sys \<Rightarrow> bool" where
  "mx_inv lk s \<longleftrightarrow> (\<exists>M ns. mx_rel lk s M ns)"

lemma mx_relD:
  assumes "mx_rel lk s M ns"
  shows "deref (mutexes (mx_w s)) lk = Some M" "sleepers (m_tq (mx_w s)) [mx_queue M \<mapsto> ns] (mx_asleep s)"
    "distinct (mx_threads s)" "NULL \<notin> set (mx_threads s)" "inj (pid (mx_w s))" "\<And>t. 0 \<le> pid (mx_w s) t"
  using assms by (auto simp: mx_rel_def)

lemma mx_rel_free: "mx_rel lk s M ns \<Longrightarrow> holder M = - 1 \<Longrightarrow> heirs s (mx_queue M) ns = [] \<and> ns = []"
  by (auto simp: mx_rel_def)

lemma mx_rel_heir:
  assumes "mx_rel lk s M ns" "t \<in> set (heirs s (mx_queue M) ns)"
  shows "holder M = pid (mx_w s) t" "heirs s (mx_queue M) ns = [t]"
  using assms by (auto simp: mx_rel_def split: if_splits)

lemma mx_rel_not_heir:
  assumes R: "mx_rel lk s M ns" and "t \<notin> set (heirs s (mx_queue M) ns)"
  shows "holder M \<noteq> pid (mx_w s) t"
proof
  assume h: "holder M = pid (mx_w s) t"
  then have "holder M \<noteq> - 1" using mx_relD(6) [OF R, of t] by simp
  then obtain t' where "heirs s (mx_queue M) ns = [t']" "holder M = pid (mx_w s) t'"
    using R by (auto simp: mx_rel_def)
  then show False using h mx_relD(5) [OF R] assms(2) by (auto dest: injD)
qed

lemma mx_invI: "mx_rel lk s M ns \<Longrightarrow> mx_inv lk s"
  by (auto simp: mx_inv_def)

lemma mx_invE: "mx_inv lk s \<Longrightarrow> (\<And>M ns. mx_rel lk s M ns \<Longrightarrow> P) \<Longrightarrow> P"
  by (auto simp: mx_inv_def)

lemma heirs_threads: "set (heirs s q ns) \<subseteq> set (owners s) \<union> fst ` set (mx_asleep s)"
  by (auto simp: heirs_def pending_def)

text \<open>Taking a free mutex, from the fast or the slow path.\<close>

lemma mx_rel_take:
  assumes R: "mx_rel lk s M ns" and h: "holder M = - 1"
    and d: "distinct (t # owners s @ C @ map fst (mx_asleep s))" "t \<noteq> NULL" "NULL \<notin> set C"
  shows "mx_inv lk (s\<lparr>mx_w := upd_holder (mx_w s) lk M (pid (mx_w s) t), contending := C, owners := t # owners s\<rparr>)"
proof -
  note M = mx_relD [OF R]
  have "heirs s (mx_queue M) ns = []" using mx_rel_free [OF R h] by blast
  moreover have "pid (mx_w s) t \<noteq> - 1" using M(6) [of t] by simp
  ultimately show ?thesis
    using M d
    by (intro mx_invI [where M = "M\<lparr>holder := pid (mx_w s) t\<rparr>" and ns = ns])
      (auto simp: mx_rel_def heirs_def mx_threads_def)
qed

lemma mx_inv_fast:
  assumes inv: "mx_inv lk s" and i: "mx_idle s t"
    and e: "mutex_lock_fast (mx_w s) (thread_ctx t) lk = Some (r, w')"
  shows "r = Some 0 \<Longrightarrow> mx_inv lk (s\<lparr>mx_w := w', owners := t # owners s\<rparr>)"
    and "r = None \<Longrightarrow> mx_inv lk (s\<lparr>mx_w := w', contending := t # contending s\<rparr>)"
proof -
  obtain M ns where R: "mx_rel lk s M ns" by (rule mx_invE [OF inv])
  note M = mx_relD [OF R]
  have e': "(r, w') = (if holder M = - 1 then (Some 0, upd_holder (mx_w s) lk M (pid (mx_w s) t)) else (None, mx_w s))"
    using e i M(1) by (auto simp: mutex_lock_fast_def mutex_holder_ops mx_idle_def split: if_splits)
  show "mx_inv lk (s\<lparr>mx_w := w', owners := t # owners s\<rparr>)" if "r = Some 0"
    using mx_rel_take [OF R, of t "contending s"] e' i M(3,4) that
    by (auto simp: mx_idle_def mx_threads_def split: if_splits)
  show "mx_inv lk (s\<lparr>mx_w := w', contending := t # contending s\<rparr>)" if "r = None"
    using e' i R that
    by (intro mx_invI [where M = M and ns = ns])
      (auto simp: mx_rel_def mx_idle_def mx_threads_def heirs_def split: if_splits)
qed

lemma mx_contender:
  assumes R: "mx_rel lk s M ns" and t: "t \<in> set (contending s)"
  shows "holder M \<noteq> pid (mx_w s) t" "t \<noteq> NULL" "t \<notin> set (owners s)" "t \<notin> fst ` set (mx_asleep s)"
proof -
  note M = mx_relD [OF R]
  show tt: "t \<notin> set (owners s)" "t \<notin> fst ` set (mx_asleep s)" "t \<noteq> NULL"
    using t M(3,4) by (auto simp: mx_threads_def)
  then have "t \<notin> set (heirs s (mx_queue M) ns)"
    using heirs_threads [of s "mx_queue M" ns] by auto
  then show "holder M \<noteq> pid (mx_w s) t" by (rule mx_rel_not_heir [OF R])
qed

lemma mx_rel_slow_sleep:
  assumes R: "mx_rel lk s M ns" and t: "t \<in> set (contending s)" and h: "holder M \<noteq> - 1"
    and n: "node_space (m_tq (mx_w s)) n" "n \<notin> snd ` set (mx_asleep s)"
  shows "\<exists>w'. mutex_lock_slow (mx_w s) t lk n = Some (None, w') \<and>
    mx_rel lk (s\<lparr>mx_w := w', contending := remove1 t (contending s), mx_asleep := (t, n) # mx_asleep s\<rparr>) M (ns @ [n])"
proof -
  note M = mx_relD [OF R] and c = mx_contender [OF R t]
  obtain q' where q': "tq_wait_begin (m_tq (mx_w s)) t (mx_queue M) n THREAD_UNINTERRUPTIBLE = Some (0, q')"
    "sleepers q' [mx_queue M \<mapsto> ns @ [n]] ((t, n) # mx_asleep s)"
    using sleepers_begin [OF M(2) _ n c(2), of "mx_queue M" ns] by auto
  have "mutex_lock_slow (mx_w s) t lk n = Some (None, (mx_w s)\<lparr>m_tq := q'\<rparr>)"
    using M(1) q'(1) h c(1) by (simp add: mutex_lock_slow_def mutex_lock_loop_def mutex_holder_ops)
  moreover have "pending [mx_queue M \<mapsto> ns @ [n]] ((t, n) # mx_asleep s) = pending [mx_queue M \<mapsto> ns] (mx_asleep s)"
    using pending_begin [of "[mx_queue M \<mapsto> ns]" "mx_queue M" ns n] n(2) by simp
  moreover have "set (remove1 t (contending s)) \<subseteq> set (contending s)" by (rule set_remove1_subset)
  ultimately show ?thesis
    using R q'(2) h t c by (auto simp: mx_rel_def mx_threads_def heirs_def)
qed

lemma mx_inv_slow:
  assumes inv: "mx_inv lk s" and t: "t \<in> set (contending s)"
    and e: "mutex_lock_slow (mx_w s) t lk n = Some (r, w')"
  shows "r = Some 0 \<Longrightarrow>
      mx_inv lk (s\<lparr>mx_w := w', contending := remove1 t (contending s), owners := t # owners s\<rparr>)"
    and "r = None \<Longrightarrow> node_space (m_tq (mx_w s)) n \<Longrightarrow> n \<notin> snd ` set (mx_asleep s) \<Longrightarrow>
      mx_inv lk (s\<lparr>mx_w := w', contending := remove1 t (contending s), mx_asleep := (t, n) # mx_asleep s\<rparr>)"
proof -
  obtain M ns where R: "mx_rel lk s M ns" by (rule mx_invE [OF inv])
  note M = mx_relD [OF R] and c = mx_contender [OF R t]
  have free: "holder M = - 1 \<longleftrightarrow> r = Some 0"
    "r = Some 0 \<Longrightarrow> w' = upd_holder (mx_w s) lk M (pid (mx_w s) t)"
    using e M(1) c(1)
    by (auto simp: mutex_lock_slow_def mutex_lock_loop_def mutex_holder_ops bind_eq_Some_conv split: if_splits)
  have rm: "set (remove1 t (contending s)) \<subseteq> set (contending s)" by (rule set_remove1_subset)
  have "distinct (t # owners s @ remove1 t (contending s) @ map fst (mx_asleep s))"
    using t M(3) c rm by (auto simp: mx_threads_def)
  then show "mx_inv lk (s\<lparr>mx_w := w', contending := remove1 t (contending s), owners := t # owners s\<rparr>)" if "r = Some 0"
    using mx_rel_take [OF R _ _ c(2), of "remove1 t (contending s)"] M(4) rm that free
    by (auto simp: mx_threads_def)
  show "mx_inv lk (s\<lparr>mx_w := w', contending := remove1 t (contending s), mx_asleep := (t, n) # mx_asleep s\<rparr>)"
    if "r = None" "node_space (m_tq (mx_w s)) n" "n \<notin> snd ` set (mx_asleep s)"
    using mx_rel_slow_sleep [OF R t _ that(2,3)] free that(1) e by (auto intro: mx_invI)
qed

text \<open>
  A sleeper that runs again returns: with the mutex when it was handed to it, with \<open>-EINTR\<close>
  when the thread was still queued.
\<close>

lemma mx_inv_resume_woken:
  assumes R: "mx_rel lk s M ns" and x: "(t, n) \<in> set (mx_asleep s)" and nn: "n \<notin> set ns"
  shows "mutex_lock_resume (mx_w s) t lk n = Some (Some 0, mx_w s)"
    and "mx_inv lk (s\<lparr>mx_asleep := remove1 (t, n) (mx_asleep s), owners := t # owners s\<rparr>)"
proof -
  note M = mx_relD [OF R]
  have un: "\<not> queued [mx_queue M \<mapsto> ns] n" using nn by simp
  have p: "(t, n) \<in> set (pending [mx_queue M \<mapsto> ns] (mx_asleep s))" using x nn by (simp add: pending_def)
  then have th: "t \<in> set (heirs s (mx_queue M) ns)" by (force simp: heirs_def)
  note h = mx_rel_heir [OF R th]
  have "(mx_w s)\<lparr>m_tq := m_tq (mx_w s)\<rparr> = mx_w s" by simp
  then show "mutex_lock_resume (mx_w s) t lk n = Some (Some 0, mx_w s)"
    using sleepers_woken [OF M(2) x un, of "mx_queue M"] M(1) h(1)
    by (auto simp: mutex_lock_resume_def mutex_lock_loop_def mutex_holder_ops)
  have o: "owners s = []" "pending [mx_queue M \<mapsto> ns] (mx_asleep s) = [(t, n)]"
    using h(2) p by (auto simp: heirs_def append_eq_Cons_conv)
  have df: "distinct (map fst (mx_asleep s))" using M(3) by (simp add: mx_threads_def)
  have "t \<notin> fst ` set (remove1 (t, n) (mx_asleep s))" using remove1_map_neq [OF df x] by auto
  moreover have "t \<notin> set (contending s)" using M(3) x by (force simp: mx_threads_def)
  moreover have "t \<noteq> NULL" using M(4) x by (force simp: mx_threads_def)
  ultimately show "mx_inv lk (s\<lparr>mx_asleep := remove1 (t, n) (mx_asleep s), owners := t # owners s\<rparr>)"
    using R o sleepers_remove [OF M(2) x] un set_remove1_subset [of "(t, n)" "mx_asleep s"]
      distinct_map_remove1 [OF df, of "(t, n)"] h
    by (intro mx_invI [where M = M and ns = ns])
      (auto simp: mx_rel_def mx_threads_def heirs_def pending_woken)
qed

lemma mx_inv_resume_queued:
  assumes R: "mx_rel lk s M ns" and x: "(t, n) \<in> set (mx_asleep s)" and nn: "n \<in> set ns"
  shows "\<exists>w'. mutex_lock_resume (mx_w s) t lk n = Some (Some (- EINTR), w') \<and>
    mx_inv lk (s\<lparr>mx_w := w', mx_asleep := remove1 (t, n) (mx_asleep s)\<rparr>)"
proof -
  note M = mx_relD [OF R]
  obtain as bs where ns: "ns = as @ n # bs" using nn by (auto dest: split_list)
  obtain d q' where q': "tq_wait_end (m_tq (mx_w s)) (mx_queue M) n = Some (- EINTR, d, q')"
    "sleepers q' [mx_queue M \<mapsto> as @ bs] (remove1 (t, n) (mx_asleep s))"
    using sleepers_cancel [OF M(2) x, of "mx_queue M" as bs] ns by auto
  have df: "distinct (map fst (mx_asleep s))" using M(3) by (simp add: mx_threads_def)
  have "t \<notin> set (heirs s (mx_queue M) ns)"
  proof
    assume "t \<in> set (heirs s (mx_queue M) ns)"
    moreover have "t \<notin> set (owners s)" using M(3) x by (force simp: mx_threads_def)
    ultimately obtain m where "(t, m) \<in> set (mx_asleep s)" "m \<notin> set ns"
      by (auto simp: heirs_def pending_def)
    then show False using distinct_map_eqD [OF df x, of "(t, m)"] nn by auto
  qed
  then have "holder M \<noteq> pid (mx_w s) t" by (rule mx_rel_not_heir [OF R])
  then have e: "mutex_lock_resume (mx_w s) t lk n = Some (Some (- EINTR), (mx_w s)\<lparr>m_tq := q'\<rparr>)"
    using M(1) q'(1) mutex_holder_ops(2) [of "(mx_w s)\<lparr>m_tq := q'\<rparr>" lk M]
    by (simp add: mutex_lock_resume_def EINTR_def)
  have "holder M \<noteq> - 1" using mx_rel_free [OF R] nn by auto
  moreover have "heirs (s\<lparr>mx_w := (mx_w s)\<lparr>m_tq := q'\<rparr>, mx_asleep := remove1 (t, n) (mx_asleep s)\<rparr>) (mx_queue M) (as @ bs) =
      heirs s (mx_queue M) ns"
    using pending_cancel [OF M(2) _ x, of "mx_queue M" as bs] ns by (simp add: heirs_def)
  ultimately have "mx_rel lk (s\<lparr>mx_w := (mx_w s)\<lparr>m_tq := q'\<rparr>, mx_asleep := remove1 (t, n) (mx_asleep s)\<rparr>) M (as @ bs)"
    using R q'(2) set_remove1_subset [of "(t, n)" "mx_asleep s"] distinct_map_remove1 [OF df, of "(t, n)"]
    by (auto simp: mx_rel_def mx_threads_def)
  then show ?thesis using e by (auto intro: mx_invI)
qed

lemma mx_inv_unlock:
  assumes inv: "mx_inv lk s" and t: "t \<in> set (owners s)"
  shows "\<exists>w'. mutex_unlock (mx_w s) t lk = Some w' \<and>
    mx_inv lk (s\<lparr>mx_w := w', owners := remove1 t (owners s)\<rparr>)"
proof -
  obtain M ns where R: "mx_rel lk s M ns" by (rule mx_invE [OF inv])
  note M = mx_relD [OF R]
  have th: "t \<in> set (heirs s (mx_queue M) ns)" using t by (simp add: heirs_def)
  note h = mx_rel_heir [OF R th]
  have o: "owners s = [t]" "pending [mx_queue M \<mapsto> ns] (mx_asleep s) = []"
    using h(2) t by (auto simp: heirs_def append_eq_Cons_conv)
  have tn: "t \<noteq> NULL" using M(4) t by (auto simp: mx_threads_def)
  show ?thesis
  proof (cases ns)
    case Nil
    have "mutex_unlock (mx_w s) t lk = Some (upd_holder (mx_w s) lk M (- 1))"
      using M(1,2) Nil tn h(1) mutex_do_wakeup_none [OF M(1)] by (simp add: mutex_unlock_def mutex_holder_ops)
    moreover have "mx_rel lk (s\<lparr>mx_w := upd_holder (mx_w s) lk M (- 1), owners := []\<rparr>) (M\<lparr>holder := - 1\<rparr>) []"
      using R o Nil by (auto simp: mx_rel_def mx_threads_def heirs_def)
    ultimately show ?thesis using o by (auto intro: mx_invI)
  next
    case (Cons n ms)
    obtain u q' where u: "i_mutex_do_wakeup (mx_w s) lk = Some (Inr u, (upd_holder (mx_w s) lk M (pid (mx_w s) u))\<lparr>m_tq := q'\<rparr>)"
      "u \<noteq> NULL" "(u, n) \<in> set (mx_asleep s)" "sleepers q' [mx_queue M \<mapsto> ms] (mx_asleep s)"
      using mutex_do_wakeup_next [OF M(1)] M(2) Cons by blast
    have "pending [mx_queue M \<mapsto> ms] (mx_asleep s) = [(u, n)]"
      using pending_wake_one [of _ "mx_queue M" n ms] M(2) o(2) u(3) Cons by blast
    moreover have "mutex_unlock (mx_w s) t lk = Some ((upd_holder (mx_w s) lk M (pid (mx_w s) u))\<lparr>m_tq := q'\<rparr>)"
      using M(1) tn h(1) u(1) by (simp add: mutex_unlock_def mutex_holder_ops)
    moreover have "pid (mx_w s) u \<noteq> - 1" using M(6) [of u] by simp
    ultimately have "mx_rel lk (s\<lparr>mx_w := (upd_holder (mx_w s) lk M (pid (mx_w s) u))\<lparr>m_tq := q'\<rparr>, owners := []\<rparr>)
        (M\<lparr>holder := pid (mx_w s) u\<rparr>) ms"
      using R o u(4) by (auto simp: mx_rel_def mx_threads_def heirs_def upd_holder_def)
    then show ?thesis
      using \<open>mutex_unlock (mx_w s) t lk = _\<close> o by (auto intro: mx_invI)
  qed
qed

lemma mx_inv_trylock:
  assumes inv: "mx_inv lk s" and i: "mx_idle s t"
    and e: "mutex_trylock (mx_w s) (thread_ctx t) lk = Some (ret, w')"
  shows "mx_inv lk (s\<lparr>mx_w := w', owners := (if ret = 1 then t # owners s else owners s)\<rparr>)"
proof -
  obtain M ns where R: "mx_rel lk s M ns" by (rule mx_invE [OF inv])
  note M = mx_relD [OF R]
  have e': "(ret, w') = (if holder M = - 1 then (1, upd_holder (mx_w s) lk M (pid (mx_w s) t)) else (0, mx_w s))"
    using e i M(1) by (auto simp: mutex_trylock_def mutex_holder_ops mx_idle_def split: if_splits)
  show ?thesis
    using mx_rel_take [OF R, of t "contending s"] e' i M(3,4) inv
    by (auto simp: mx_idle_def mx_threads_def split: if_splits)
qed

lemma mx_inv_resume_results:
  assumes inv: "mx_inv lk s" and x: "(t, n) \<in> set (mx_asleep s)"
    and e: "mutex_lock_resume (mx_w s) t lk n = Some (r, w')"
  shows "r = Some 0 \<and> mx_inv lk (s\<lparr>mx_w := w', mx_asleep := remove1 (t, n) (mx_asleep s), owners := t # owners s\<rparr>) \<or>
    r = Some (- EINTR) \<and> mx_inv lk (s\<lparr>mx_w := w', mx_asleep := remove1 (t, n) (mx_asleep s)\<rparr>)"
proof -
  obtain M ns where R: "mx_rel lk s M ns" by (rule mx_invE [OF inv])
  show ?thesis
  proof (cases "n \<in> set ns")
    case True
    then show ?thesis using mx_inv_resume_queued [OF R x] e by auto
  next
    case False
    have "s\<lparr>mx_w := mx_w s\<rparr> = s" by simp
    then show ?thesis using mx_inv_resume_woken [OF R x False] e by auto
  qed
qed

interpretation mx_sys: step_invariant "mx_step lk" "mx_inv lk"
proof unfold_locales
  fix s s'
  assume inv: "mx_inv lk s" and st: "mx_step lk s s'"
  from st show "mx_inv lk s'"
  proof cases
    case (resume_got t n w')
    then show ?thesis using mx_inv_resume_results [OF inv, of t n "Some 0" w'] by (simp add: EINTR_def)
  next
    case (resume_error t n ret w')
    then show ?thesis using mx_inv_resume_results [OF inv, of t n "Some ret" w'] by auto
  next
    case (resume_sleep t n w')
    then show ?thesis using mx_inv_resume_results [OF inv, of t n None w'] by simp
  next
    case (trylock t w' ret)
    then show ?thesis using mx_inv_trylock [OF inv] by blast
  next
    case (unlock t w')
    then show ?thesis using mx_inv_unlock [OF inv, of t] by auto
  qed (use mx_inv_fast [OF inv] mx_inv_slow [OF inv] in blast)+
qed

subsection \<open>Properties\<close>

definition mx_space :: "mxw \<Rightarrow> addr \<Rightarrow> bool" where
  "mx_space w lk \<longleftrightarrow> (\<exists>M. deref (mutexes w) lk = Some M \<and> alloc (tw_list (m_tq w)) (mx_queue M) \<and>
     alloc (tw_queues (m_tq w)) (mx_queue M) \<and> (\<forall>n. alloc (tw_nodes (m_tq w)) n \<longrightarrow> list_entry n \<noteq> mx_queue M))"

definition mx_start :: "mxw \<Rightarrow> mx_sys" where
  "mx_start w = \<lparr>mx_w = w, contending = [], mx_asleep = [], owners = []\<rparr>"

lemma mutex_init_ok:
  assumes "mx_space w lk" "inj (pid w)" "\<forall>t. 0 \<le> pid w t"
  shows "\<exists>w0. mutex_init w lk name = Some w0 \<and> mx_inv lk (mx_start w0) \<and>
    (\<forall>n. node_space (m_tq w) n \<longrightarrow> node_space (m_tq w0) n) \<and> pid w0 = pid w"
proof -
  obtain M where M: "deref (mutexes w) lk = Some M" "alloc (tw_list (m_tq w)) (mx_queue M)"
    "alloc (tw_queues (m_tq w)) (mx_queue M)" "\<And>n. alloc (tw_nodes (m_tq w)) n \<Longrightarrow> list_entry n \<noteq> mx_queue M"
    using assms(1) by (auto simp: mx_space_def)
  obtain Q where Q: "tw_queues (m_tq w) (mx_queue M) = Some Q" using M(3) by (auto simp: alloc_def)
  obtain q' where q': "tq_init (m_tq w) (mx_queue M) (Some ''sleep lock wait queue'') (mx_lk M) = Some q'"
    "tqs_ok q' [mx_queue M \<mapsto> []]" "\<forall>n. node_space (m_tq w) n \<longrightarrow> node_space q' n"
    using tq_init_ok [OF M(2) Q, of "Some ''sleep lock wait queue''" "mx_lk M"] M(4) by blast
  define w0 where "w0 = w\<lparr>m_tq := q', mutexes := (mutexes w)(lk \<mapsto> M\<lparr>mx_name := name, holder := - 1\<rparr>)\<rparr>"
  have lk: "lk \<noteq> NULL" using M(1) by auto
  have "mutex_init w lk name = Some w0"
    using M(1) q'(1) lk by (simp add: mutex_init_def modify_Some i_mutex_set_holder_def w0_def)
  moreover have "mx_rel lk (mx_start w0) (M\<lparr>mx_name := name, holder := - 1\<rparr>) []"
    using assms(2,3) q'(2) lk
    by (simp add: mx_rel_def mx_start_def w0_def sleepers_def mx_threads_def heirs_def pending_def)
  ultimately show ?thesis using q'(3) by (auto simp: mx_inv_def w0_def)
qed

lemma mx_reachable_inv:
  assumes "mx_space w lk" "inj (pid w)" "\<forall>t. 0 \<le> pid w t"
    and "mutex_init w lk name = Some w0" "(mx_step lk)\<^sup>*\<^sup>* (mx_start w0) s"
  shows "mx_inv lk s"
  using mutex_init_ok [OF assms(1-3), of name] assms(4) mx_sys.run_preserves [OF assms(5)] by auto

text \<open>
  C2. Mutual exclusion: under every interleaving of lock, try-lock and unlock calls, including
  waiters woken while queued, at most one thread owns the mutex, \<open>holding_mutex\<close> is true for the
  owner and for no other thread that is not being handed the mutex, and while the mutex is free no
  thread sleeps on it.
\<close>

theorem mutex_mutual_exclusion:
  assumes "mx_space w lk" and "inj (pid w)" and "\<forall>t. 0 \<le> pid w t"
    and "mutex_init w lk name = Some w0" and "(mx_step lk)\<^sup>*\<^sup>* (mx_start w0) s"
  shows "length (owners s) \<le> 1 \<and>
    (\<forall>t\<in>set (owners s). holding_mutex (mx_w s) t lk = Some True \<and>
       (\<forall>u. u \<noteq> t \<longrightarrow> holding_mutex (mx_w s) u lk = Some False)) \<and>
    (i_mutex_holder (mx_w s) lk = Some (- 1) \<longrightarrow> owners s = [] \<and> mx_asleep s = [])"
proof -
  obtain M ns where R: "mx_rel lk s M ns" using mx_reachable_inv [OF assms] by (rule mx_invE)
  note M = mx_relD [OF R]
  have "length (heirs s (mx_queue M) ns) \<le> 1" using R by (auto simp: mx_rel_def split: if_splits)
  then have "length (owners s) \<le> 1" by (simp add: heirs_def)
  moreover have "holding_mutex (mx_w s) u lk = Some (u = t)" if t: "t \<in> set (owners s)" for t u
  proof -
    have h: "holder M = pid (mx_w s) t" using mx_rel_heir(1) [OF R, of t] t by (simp add: heirs_def)
    have "t \<noteq> NULL" using M(4) t by (auto simp: mx_threads_def)
    then show ?thesis
      using h M(1,5) by (auto simp: holding_mutex_def mutex_holder_ops dest: injD)
  qed
  moreover have "owners s = [] \<and> mx_asleep s = []" if "i_mutex_holder (mx_w s) lk = Some (- 1)"
    using mx_rel_free [OF R] that M(1) length_pending [OF M(2)] by (auto simp: mutex_holder_ops heirs_def)
  ultimately show ?thesis by auto
qed

text \<open>
  C12. Hand-over: an owner can always unlock, and when threads wait the mutex passes directly to
  the one that has waited longest, whose pending \<open>mutex_lock\<close> then returns success.
\<close>

theorem mutex_handover:
  assumes "mx_space w lk" and "inj (pid w)" and "\<forall>t. 0 \<le> pid w t"
    and "mutex_init w lk name = Some w0" and "(mx_step lk)\<^sup>*\<^sup>* (mx_start w0) s"
    and "t \<in> set (owners s)" and "deref (mutexes (mx_w s)) lk = Some M"
    and "tqs_ok (m_tq (mx_w s)) [mx_queue M \<mapsto> ns]"
  shows "\<exists>w'. mutex_unlock (mx_w s) t lk = Some w' \<and>
    (case ns of
       [] \<Rightarrow> i_mutex_holder w' lk = Some (- 1)
     | n # ms \<Rightarrow> \<exists>u. (u, n) \<in> set (mx_asleep s) \<and> i_mutex_holder w' lk = Some (pid w' u) \<and>
         mutex_lock_resume w' u lk n = Some (Some 0, w'))"
proof -
  have inv: "mx_inv lk s" by (rule mx_reachable_inv [OF assms(1-5)])
  obtain M' ns' where R': "mx_rel lk s M' ns'" using inv by (rule mx_invE)
  then have eq: "M' = M" "ns' = ns"
    using assms(7) tqs_unique [OF assms(8), of "mx_queue M" ns "[mx_queue M' \<mapsto> ns']" ns'] mx_relD(1,2) [OF R']
    by (auto simp: sleepers_def)
  note R = R' [unfolded eq]
  note M = mx_relD [OF R]
  have th: "t \<in> set (heirs s (mx_queue M) ns)" using assms(6) by (simp add: heirs_def)
  note h = mx_rel_heir [OF R th]
  have tn: "t \<noteq> NULL" using M(4) assms(6) by (auto simp: mx_threads_def)
  show ?thesis
  proof (cases ns)
    case Nil
    then show ?thesis
      using M(1,2) tn h(1) mutex_do_wakeup_none [OF M(1)] by (simp add: mutex_unlock_def mutex_holder_ops)
  next
    case (Cons n ms)
    obtain u q' where u: "i_mutex_do_wakeup (mx_w s) lk = Some (Inr u, (upd_holder (mx_w s) lk M (pid (mx_w s) u))\<lparr>m_tq := q'\<rparr>)"
      "(u, n) \<in> set (mx_asleep s)" "sleepers q' [mx_queue M \<mapsto> ms] (mx_asleep s)"
      using mutex_do_wakeup_next [OF M(1)] M(2) Cons by blast
    define w' where "w' = (upd_holder (mx_w s) lk M (pid (mx_w s) u))\<lparr>m_tq := q'\<rparr>"
    have w': "deref (mutexes w') lk = Some (M\<lparr>holder := pid w' u\<rparr>)" "m_tq w' = q'"
      using M(1) upd_holder_simps(3) [OF M(1)] by (simp_all add: w'_def)
    have "\<not> queued [mx_queue M \<mapsto> ms] n" using sleepers_distinct [OF M(2), of "mx_queue M"] Cons by simp
    then have "mutex_lock_resume w' u lk n = Some (Some 0, w')"
      using sleepers_woken [OF u(3,2), of "mx_queue M"] w'
      by (auto simp: mutex_lock_resume_def mutex_lock_loop_def mutex_holder_ops)
    moreover have "mutex_unlock (mx_w s) t lk = Some w'"
      using M(1) tn h(1) u(1) by (simp add: mutex_unlock_def mutex_holder_ops w'_def)
    ultimately show ?thesis using u(2) w' Cons by (auto simp: mutex_holder_ops)
  qed
qed

text \<open>A mutex at 8 on the queue of \<^const>\<open>demo_tqw\<close>; a thread's address serves as its pid.\<close>

definition demo_mxw :: mxw where
  "demo_mxw = \<lparr>m_tq = demo_tqw, mutexes = [8 \<mapsto> \<lparr>mx_queue = 16, holder = 0, mx_name = [], mx_lk = 8\<rparr>], pid = uint\<rparr>"

lemma demo_mxw_facts:
  "mx_space demo_mxw 8" "inj (pid demo_mxw)" "\<forall>t. 0 \<le> pid demo_mxw t" "node_space (m_tq demo_mxw) 64"
proof -
  show "mx_space demo_mxw 8"
    by (auto simp: mx_space_def demo_mxw_def deref_def alloc_def demo_tqw_def list_entry_def split: if_splits)
  show "inj (pid demo_mxw)" by (simp add: demo_mxw_def inj_def word_uint_eq_iff)
qed (use demo_tqw_facts in \<open>simp_all add: demo_mxw_def\<close>)

text \<open>Thread 1000 takes the mutex; thread 2000 misses it and goes to sleep.\<close>

lemma demo_mx_contended:
  "\<exists>w0 s M. mutex_init demo_mxw 8 ''demo'' = Some w0 \<and> (mx_step 8)\<^sup>*\<^sup>* (mx_start w0) s \<and>
    owners s = [1000] \<and> mx_asleep s = [(2000, 64)] \<and> mx_rel 8 s M [64]"
proof -
  obtain w0 where w0: "mutex_init demo_mxw 8 ''demo'' = Some w0" "mx_inv 8 (mx_start w0)" "node_space (m_tq w0) 64"
    using mutex_init_ok [OF demo_mxw_facts(1-3), of "''demo''"] demo_mxw_facts(4) by auto
  define s0 where "s0 = mx_start w0"
  obtain M0 ns0 where R0: "mx_rel 8 s0 M0 ns0" using w0(2) unfolding s0_def by (rule mx_invE)
  have h0: "holder M0 = - 1"
    using R0 by (auto simp: mx_rel_def s0_def mx_start_def heirs_def pending_def split: if_splits)
  define s1 where "s1 = s0\<lparr>mx_w := upd_holder w0 8 M0 (pid w0 1000), owners := [1000]\<rparr>"
  have "mutex_lock_fast (mx_w s0) (thread_ctx 1000) 8 = Some (Some 0, upd_holder w0 8 M0 (pid w0 1000))"
    using mx_relD(1) [OF R0] h0 by (simp add: mutex_lock_fast_def mutex_holder_ops s0_def mx_start_def)
  then have st1: "mx_step 8 s0 s1"
    using mx_step.fast_got [of s0 1000 8] by (simp add: mx_idle_def s1_def s0_def mx_start_def)
  have "mx_inv 8 s1" using mx_sys.step_preserves [OF mx_invI [OF R0] st1] .
  then obtain M1 ns1 where R1: "mx_rel 8 s1 M1 ns1" by (rule mx_invE)
  have h1: "holder M1 \<noteq> - 1" using mx_rel_free [OF R1] by (auto simp: s1_def heirs_def)
  define s2 where "s2 = s1\<lparr>mx_w := mx_w s1, contending := [2000]\<rparr>"
  have "mutex_lock_fast (mx_w s1) (thread_ctx 2000) 8 = Some (None, mx_w s1)"
    using mx_relD(1) [OF R1] h1 by (simp add: mutex_lock_fast_def mutex_holder_ops)
  then have st2: "mx_step 8 s1 s2"
    using mx_step.fast_missed [of s1 2000 8 "mx_w s1"] by (simp add: mx_idle_def s2_def s1_def s0_def mx_start_def)
  have "mx_inv 8 s2" using mx_sys.step_preserves [OF mx_invI [OF R1] st2] .
  then obtain M2 ns2 where R2: "mx_rel 8 s2 M2 ns2" by (rule mx_invE)
  have h2: "holder M2 \<noteq> - 1" using mx_rel_free [OF R2] by (auto simp: s2_def s1_def heirs_def)
  have ns2: "ns2 = []" using length_pending [OF mx_relD(2) [OF R2]] by (simp add: s2_def s1_def s0_def mx_start_def)
  have sp: "node_space (m_tq (mx_w s2)) 64" using w0(3) by (simp add: s2_def s1_def)
  obtain w3 where w3: "mutex_lock_slow (mx_w s2) 2000 8 64 = Some (None, w3)"
    "mx_rel 8 (s2\<lparr>mx_w := w3, contending := [], mx_asleep := [(2000, 64)]\<rparr>) M2 [64]"
    using mx_rel_slow_sleep [OF R2, of 2000 64] h2 sp ns2 by (auto simp: s2_def s1_def s0_def mx_start_def)
  then have "mx_step 8 s2 (s2\<lparr>mx_w := w3, contending := [], mx_asleep := [(2000, 64)]\<rparr>)"
    using mx_step.slow_sleep [of 2000 s2 64 8 w3] sp by (simp add: s2_def s1_def s0_def mx_start_def)
  then have "(mx_step 8)\<^sup>*\<^sup>* s0 (s2\<lparr>mx_w := w3, contending := [], mx_asleep := [(2000, 64)]\<rparr>)"
    using st1 st2 by (meson converse_rtranclp_into_rtranclp rtranclp.rtrancl_refl)
  then show ?thesis
    using w0(1) w3(2) unfolding s0_def by (intro exI conjI) (auto simp: s2_def s1_def)
qed

theorem mutex_mutual_exclusion_witness:
  "\<exists>w0 s. mutex_init demo_mxw 8 ''demo'' = Some w0 \<and> (mx_step 8)\<^sup>*\<^sup>* (mx_start w0) s \<and>
    mx_asleep s = [(2000, 64)] \<and> holding_mutex (mx_w s) 1000 8 = Some True \<and>
    holding_mutex (mx_w s) 2000 8 = Some False"
proof -
  obtain w0 s where s: "mutex_init demo_mxw 8 ''demo'' = Some w0" "(mx_step 8)\<^sup>*\<^sup>* (mx_start w0) s"
    "owners s = [1000]" "mx_asleep s = [(2000, 64)]"
    using demo_mx_contended by blast
  then show ?thesis using mutex_mutual_exclusion [OF demo_mxw_facts(1-3) s(1,2)] by auto
qed

theorem mutex_handover_witness:
  "\<exists>w0 s w'. mutex_init demo_mxw 8 ''demo'' = Some w0 \<and> (mx_step 8)\<^sup>*\<^sup>* (mx_start w0) s \<and>
    mutex_unlock (mx_w s) 1000 8 = Some w' \<and> mutex_lock_resume w' 2000 8 64 = Some (Some 0, w')"
proof -
  obtain w0 s M where s: "mutex_init demo_mxw 8 ''demo'' = Some w0" "(mx_step 8)\<^sup>*\<^sup>* (mx_start w0) s"
    "owners s = [1000]" "mx_asleep s = [(2000, 64)]" "mx_rel 8 s M [64]"
    using demo_mx_contended by blast
  then show ?thesis
    using mutex_handover [OF demo_mxw_facts(1-3) s(1,2), of 1000 M "[64]"] mx_relD(1,2) [OF s(5)]
    by (auto simp: sleepers_def)
qed

end
