(* ===== verification/Rwsem.thy ===== *)
theory Rwsem
  imports Sleep_Lock
begin

text \<open>
  The sleeping reader-writer lock of \<open>kernel/lock/rwsem.c\<close>. All operations run under
  \<open>lock->lock\<close>; an acquisition is cut where \<open>tq_wait\<close> gives it up, so that each step is one critical
  section. A writer is handed the lock by \<open>__wake_writer\<close>; woken readers have to compete again.
\<close>

subsection \<open>Definitions\<close>

definition RWLOCK_PRIO_READ :: u64 where "RWLOCK_PRIO_READ = 0"
definition RWLOCK_PRIO_WRITE :: u64 where "RWLOCK_PRIO_WRITE = 1"

record rwsem_t =
  readers :: int
  holder_pid :: int
  read_queue :: addr
  write_queue :: addr
  rw_name :: string
  rw_flags :: u64
  rw_lock :: addr

record rww =
  r_tq :: tqw
  rwsems :: "addr \<rightharpoonup> rwsem_t"
  pid :: "addr \<Rightarrow> int"

definition set_rw :: "rww \<Rightarrow> addr \<Rightarrow> (rwsem_t \<Rightarrow> rwsem_t) \<Rightarrow> rww option" where
  "set_rw w lock f = do { rs \<leftarrow> modify (rwsems w) lock f; Some (w\<lparr>rwsems := rs\<rparr>) }"

definition prio_write :: "rwsem_t \<Rightarrow> bool" where
  "prio_write R \<longleftrightarrow> and (rw_flags R) RWLOCK_PRIO_WRITE \<noteq> 0"

definition i_reader_should_wait :: "rww \<Rightarrow> addr \<Rightarrow> bool option" where
  "i_reader_should_wait w lock = do {
     R \<leftarrow> deref (rwsems w) lock;
     if readers R = 0 then Some (holder_pid R \<noteq> - 1)
     else if prio_write R then do {
       k \<leftarrow> tq_size (r_tq w) (write_queue R);
       Some (k > 0) }
     else Some False }"

definition i_writer_should_wait :: "rww \<Rightarrow> addr \<Rightarrow> int \<Rightarrow> bool option" where
  "i_writer_should_wait w lock p = do {
     R \<leftarrow> deref (rwsems w) lock;
     if holder_pid R = p then Some False
     else if holder_pid R \<noteq> - 1 then Some True
     else if readers R > 0 then Some True
     else Some False }"

definition i_wake_readers :: "rww \<Rightarrow> addr \<Rightarrow> rww option" where
  "i_wake_readers w lock = do {
     R \<leftarrow> deref (rwsems w) lock;
     (ret, q) \<leftarrow> tq_wakeup_all (r_tq w) (read_queue R) 0 0;
     if ret \<ge> 0 then Some (w\<lparr>r_tq := q\<rparr>) else None }"

definition i_wake_writer :: "rww \<Rightarrow> addr \<Rightarrow> rww option" where
  "i_wake_writer w lock = do {
     R \<leftarrow> deref (rwsems w) lock;
     (next, q) \<leftarrow> tq_wakeup (r_tq w) (write_queue R) 0 0;
     case next of
       Inl e \<Rightarrow> None
     | Inr p \<Rightarrow>
         if p = NULL then None
         else set_rw (w\<lparr>r_tq := q\<rparr>) lock (\<lambda>R. R\<lparr>holder_pid := pid w p\<rparr>) }"

definition i_rwsem_do_wake_up :: "rww \<Rightarrow> addr \<Rightarrow> rww option" where
  "i_rwsem_do_wake_up w lock = do {
     R \<leftarrow> deref (rwsems w) lock;
     nw \<leftarrow> tq_size (r_tq w) (write_queue R);
     nr \<leftarrow> tq_size (r_tq w) (read_queue R);
     if prio_write R then
       (if nw > 0 then i_wake_writer w lock
        else if nr > 0 then i_wake_readers w lock
        else Some w)
     else
       (if nr > 0 then i_wake_readers w lock
        else if nw > 0 then i_wake_writer w lock
        else Some w) }"

definition rwsem_init :: "rww \<Rightarrow> addr \<Rightarrow> u64 \<Rightarrow> string option \<Rightarrow> (int \<times> rww) option" where
  "rwsem_init w lock flags name =
     (case name of
        None \<Rightarrow> Some (- 1, w)
      | Some s \<Rightarrow>
          if lock = NULL then Some (- 1, w)
          else do {
            w1 \<leftarrow> set_rw w lock (\<lambda>R. R\<lparr>readers := 0\<rparr>);
            R \<leftarrow> deref (rwsems w1) lock;
            q1 \<leftarrow> tq_init (r_tq w1) (read_queue R) (Some ''rwsem read queue'') (rw_lock R);
            q2 \<leftarrow> tq_init q1 (write_queue R) (Some ''rwsem write queue'') (rw_lock R);
            w2 \<leftarrow> set_rw (w1\<lparr>r_tq := q2\<rparr>) lock (\<lambda>R. R\<lparr>rw_name := s, holder_pid := - 1, rw_flags := flags\<rparr>);
            Some (0, w2) })"

text \<open>
  The loop test of \<open>rwsem_acquire_read\<close> and what follows it: the result \<open>Some ret\<close> is the return
  value, \<open>None\<close> says that the thread sleeps on \<open>waiter\<close>. The enter part precedes the first test, the
  resume part is the rest of the loop body after a wake-up.
\<close>

definition read_loop :: "rww \<Rightarrow> addr \<Rightarrow> addr \<Rightarrow> addr \<Rightarrow> (int option \<times> rww) option" where
  "read_loop w self lock waiter = do {
     wait \<leftarrow> i_reader_should_wait w lock;
     if wait then do {
       R \<leftarrow> deref (rwsems w) lock;
       (ret, q) \<leftarrow> tq_wait_begin (r_tq w) self (read_queue R) waiter THREAD_UNINTERRUPTIBLE;
       if ret = 0 then Some (None, w\<lparr>r_tq := q\<rparr>) else None }
     else do {
       w1 \<leftarrow> set_rw w lock (\<lambda>R. R\<lparr>readers := readers R + 1\<rparr>);
       Some (Some 0, w1) } }"

definition rwsem_acquire_read_enter :: "rww \<Rightarrow> cpu_ctx \<Rightarrow> addr \<Rightarrow> addr \<Rightarrow> (int option \<times> rww) option" where
  "rwsem_acquire_read_enter w c lock waiter =
     (if \<not> may_sleep c then None
      else if lock = NULL then Some (Some (- 1), w)
      else read_loop w (current c) lock waiter)"

definition rwsem_acquire_read_resume :: "rww \<Rightarrow> addr \<Rightarrow> addr \<Rightarrow> addr \<Rightarrow> (int option \<times> rww) option" where
  "rwsem_acquire_read_resume w self lock waiter = do {
     R \<leftarrow> deref (rwsems w) lock;
     (ret, _, q) \<leftarrow> tq_wait_end (r_tq w) (read_queue R) waiter;
     if ret \<noteq> 0 then Some (Some ret, w\<lparr>r_tq := q\<rparr>)
     else read_loop (w\<lparr>r_tq := q\<rparr>) self lock waiter }"

definition write_loop :: "rww \<Rightarrow> addr \<Rightarrow> addr \<Rightarrow> addr \<Rightarrow> (int option \<times> rww) option" where
  "write_loop w self lock waiter = do {
     wait \<leftarrow> i_writer_should_wait w lock (pid w self);
     if wait then do {
       R \<leftarrow> deref (rwsems w) lock;
       if holder_pid R = pid w self then None
       else do {
         (ret, q) \<leftarrow> tq_wait_begin (r_tq w) self (write_queue R) waiter THREAD_UNINTERRUPTIBLE;
         if ret = 0 then Some (None, w\<lparr>r_tq := q\<rparr>) else None } }
     else do {
       w1 \<leftarrow> set_rw w lock (\<lambda>R. R\<lparr>holder_pid := pid w self\<rparr>);
       Some (Some 0, w1) } }"

definition rwsem_acquire_write_enter :: "rww \<Rightarrow> cpu_ctx \<Rightarrow> addr \<Rightarrow> addr \<Rightarrow> (int option \<times> rww) option" where
  "rwsem_acquire_write_enter w c lock waiter =
     (if \<not> may_sleep c then None
      else if lock = NULL then Some (Some (- 1), w)
      else do {
        R \<leftarrow> deref (rwsems w) lock;
        if holder_pid R = pid w (current c) then None
        else write_loop w (current c) lock waiter })"

definition rwsem_acquire_write_resume :: "rww \<Rightarrow> addr \<Rightarrow> addr \<Rightarrow> addr \<Rightarrow> (int option \<times> rww) option" where
  "rwsem_acquire_write_resume w self lock waiter = do {
     R \<leftarrow> deref (rwsems w) lock;
     (ret, _, q) \<leftarrow> tq_wait_end (r_tq w) (write_queue R) waiter;
     if ret \<noteq> 0 then Some (Some ret, w\<lparr>r_tq := q\<rparr>)
     else write_loop (w\<lparr>r_tq := q\<rparr>) self lock waiter }"

definition rwsem_release :: "rww \<Rightarrow> addr \<Rightarrow> addr \<Rightarrow> rww option" where
  "rwsem_release w self lock =
     (if lock = NULL then Some w
      else do {
        R \<leftarrow> deref (rwsems w) lock;
        let self_pid = (if self \<noteq> NULL then pid w self else - 1) in
        if holder_pid R = self_pid \<and> self_pid \<noteq> - 1 then do {
          w1 \<leftarrow> set_rw w lock (\<lambda>R. R\<lparr>holder_pid := - 1\<rparr>);
          i_rwsem_do_wake_up w1 lock }
        else if readers R > 0 then do {
          w1 \<leftarrow> set_rw w lock (\<lambda>R. R\<lparr>readers := readers R - 1\<rparr>);
          if readers R - 1 = 0 then i_rwsem_do_wake_up w1 lock else Some w1 }
        else None })"

definition rwsem_is_write_holding :: "rww \<Rightarrow> addr \<Rightarrow> addr \<Rightarrow> bool option" where
  "rwsem_is_write_holding w self lock =
     (if lock = NULL then Some False
      else if self = NULL then Some False
      else do { R \<leftarrow> deref (rwsems w) lock; Some (holder_pid R = pid w self) })"

subsection \<open>Interleaved calls\<close>

text \<open>
  \<open>r_asleep\<close> and \<open>w_asleep\<close>: threads inside \<open>tq_wait\<close> of a read or a write acquisition;
  \<open>r_owners\<close> and \<open>w_owners\<close>: threads whose acquisition returned 0 and that have not released.
\<close>

record rw_sys =
  rw_w :: rww
  r_asleep :: "(addr \<times> addr) list"
  w_asleep :: "(addr \<times> addr) list"
  r_owners :: "addr list"
  w_owners :: "addr list"

definition rw_idle :: "rw_sys \<Rightarrow> addr \<Rightarrow> bool" where
  "rw_idle s t \<longleftrightarrow> t \<noteq> NULL \<and> t \<notin> fst ` set (r_asleep s) \<and> t \<notin> fst ` set (w_asleep s) \<and>
     t \<notin> set (r_owners s) \<and> t \<notin> set (w_owners s)"

definition rw_node :: "rw_sys \<Rightarrow> addr \<Rightarrow> bool" where
  "rw_node s n \<longleftrightarrow> node_space (r_tq (rw_w s)) n \<and> n \<notin> snd ` set (r_asleep s) \<and> n \<notin> snd ` set (w_asleep s)"

inductive rw_step :: "addr \<Rightarrow> rw_sys \<Rightarrow> rw_sys \<Rightarrow> bool" for lock where
  read_got: "rw_idle s t \<Longrightarrow> rw_node s n \<Longrightarrow>
    rwsem_acquire_read_enter (rw_w s) (thread_ctx t) lock n = Some (Some 0, w') \<Longrightarrow>
    rw_step lock s (s\<lparr>rw_w := w', r_owners := t # r_owners s\<rparr>)"
| read_sleep: "rw_idle s t \<Longrightarrow> rw_node s n \<Longrightarrow>
    rwsem_acquire_read_enter (rw_w s) (thread_ctx t) lock n = Some (None, w') \<Longrightarrow>
    rw_step lock s (s\<lparr>rw_w := w', r_asleep := (t, n) # r_asleep s\<rparr>)"
| read_resume_got: "(t, n) \<in> set (r_asleep s) \<Longrightarrow>
    rwsem_acquire_read_resume (rw_w s) t lock n = Some (Some 0, w') \<Longrightarrow>
    rw_step lock s (s\<lparr>rw_w := w', r_asleep := remove1 (t, n) (r_asleep s), r_owners := t # r_owners s\<rparr>)"
| read_resume_error: "(t, n) \<in> set (r_asleep s) \<Longrightarrow>
    rwsem_acquire_read_resume (rw_w s) t lock n = Some (Some ret, w') \<Longrightarrow> ret \<noteq> 0 \<Longrightarrow>
    rw_step lock s (s\<lparr>rw_w := w', r_asleep := remove1 (t, n) (r_asleep s)\<rparr>)"
| read_resume_sleep: "(t, n) \<in> set (r_asleep s) \<Longrightarrow>
    rwsem_acquire_read_resume (rw_w s) t lock n = Some (None, w') \<Longrightarrow>
    rw_step lock s (s\<lparr>rw_w := w', r_asleep := (t, n) # remove1 (t, n) (r_asleep s)\<rparr>)"
| write_got: "rw_idle s t \<Longrightarrow> rw_node s n \<Longrightarrow>
    rwsem_acquire_write_enter (rw_w s) (thread_ctx t) lock n = Some (Some 0, w') \<Longrightarrow>
    rw_step lock s (s\<lparr>rw_w := w', w_owners := t # w_owners s\<rparr>)"
| write_sleep: "rw_idle s t \<Longrightarrow> rw_node s n \<Longrightarrow>
    rwsem_acquire_write_enter (rw_w s) (thread_ctx t) lock n = Some (None, w') \<Longrightarrow>
    rw_step lock s (s\<lparr>rw_w := w', w_asleep := (t, n) # w_asleep s\<rparr>)"
| write_resume_got: "(t, n) \<in> set (w_asleep s) \<Longrightarrow>
    rwsem_acquire_write_resume (rw_w s) t lock n = Some (Some 0, w') \<Longrightarrow>
    rw_step lock s (s\<lparr>rw_w := w', w_asleep := remove1 (t, n) (w_asleep s), w_owners := t # w_owners s\<rparr>)"
| write_resume_error: "(t, n) \<in> set (w_asleep s) \<Longrightarrow>
    rwsem_acquire_write_resume (rw_w s) t lock n = Some (Some ret, w') \<Longrightarrow> ret \<noteq> 0 \<Longrightarrow>
    rw_step lock s (s\<lparr>rw_w := w', w_asleep := remove1 (t, n) (w_asleep s)\<rparr>)"
| write_resume_sleep: "(t, n) \<in> set (w_asleep s) \<Longrightarrow>
    rwsem_acquire_write_resume (rw_w s) t lock n = Some (None, w') \<Longrightarrow>
    rw_step lock s (s\<lparr>rw_w := w', w_asleep := (t, n) # remove1 (t, n) (w_asleep s)\<rparr>)"
| release_read: "t \<in> set (r_owners s) \<Longrightarrow> rwsem_release (rw_w s) t lock = Some w' \<Longrightarrow>
    rw_step lock s (s\<lparr>rw_w := w', r_owners := remove1 t (r_owners s)\<rparr>)"
| release_write: "t \<in> set (w_owners s) \<Longrightarrow> rwsem_release (rw_w s) t lock = Some w' \<Longrightarrow>
    rw_step lock s (s\<lparr>rw_w := w', w_owners := remove1 t (w_owners s)\<rparr>)"

subsection \<open>Invariant\<close>

definition rwq :: "rwsem_t \<Rightarrow> addr list \<Rightarrow> addr list \<Rightarrow> (addr \<rightharpoonup> addr list)" where
  "rwq R rs ws = [read_queue R \<mapsto> rs, write_queue R \<mapsto> ws]"

definition upd_rw :: "rww \<Rightarrow> addr \<Rightarrow> rwsem_t \<Rightarrow> rww" where
  "upd_rw w lock R = w\<lparr>rwsems := (rwsems w)(lock \<mapsto> R)\<rparr>"

definition rw_threads :: "rw_sys \<Rightarrow> addr list" where
  "rw_threads s = r_owners s @ w_owners s @ map fst (r_asleep s) @ map fst (w_asleep s)"

text \<open>The owner of the write lock, or the writer to which a release has handed it.\<close>

definition w_heirs :: "rw_sys \<Rightarrow> (addr \<rightharpoonup> addr list) \<Rightarrow> addr list" where
  "w_heirs s Qs = w_owners s @ map fst (pending Qs (w_asleep s))"

text \<open>
  Readers and a writer exclude each other, the reader count is the number of read owners,
  \<open>holder_pid\<close> names the only heir of the write lock, and whenever a thread is queued the lock is
  held or a woken reader is about to take it.
\<close>

definition rw_core :: "addr \<Rightarrow> rw_sys \<Rightarrow> rwsem_t \<Rightarrow> addr list \<Rightarrow> addr list \<Rightarrow> bool" where
  "rw_core lock s R rs ws \<longleftrightarrow> deref (rwsems (rw_w s)) lock = Some R \<and> read_queue R \<noteq> write_queue R \<and>
     sleepers (r_tq (rw_w s)) (rwq R rs ws) (r_asleep s @ w_asleep s) \<and>
     set rs \<subseteq> snd ` set (r_asleep s) \<and> set ws \<subseteq> snd ` set (w_asleep s) \<and>
     distinct (rw_threads s) \<and> NULL \<notin> set (rw_threads s) \<and>
     inj (pid (rw_w s)) \<and> (\<forall>t. 0 \<le> pid (rw_w s) t) \<and>
     readers R = int (length (r_owners s)) \<and>
     (if holder_pid R = - 1 then w_heirs s (rwq R rs ws) = []
      else r_owners s = [] \<and> (\<exists>t. w_heirs s (rwq R rs ws) = [t] \<and> holder_pid R = pid (rw_w s) t))"

definition rw_live :: "rw_sys \<Rightarrow> rwsem_t \<Rightarrow> addr list \<Rightarrow> addr list \<Rightarrow> bool" where
  "rw_live s R rs ws \<longleftrightarrow> (rs \<noteq> [] \<or> ws \<noteq> [] \<longrightarrow>
     holder_pid R \<noteq> - 1 \<or> r_owners s \<noteq> [] \<or> pending (rwq R rs ws) (r_asleep s) \<noteq> [])"

definition rw_inv :: "addr \<Rightarrow> rw_sys \<Rightarrow> bool" where
  "rw_inv lock s \<longleftrightarrow> (\<exists>R rs ws. rw_core lock s R rs ws \<and> rw_live s R rs ws)"

lemma rw_coreD:
  assumes "rw_core lock s R rs ws"
  shows "deref (rwsems (rw_w s)) lock = Some R" "read_queue R \<noteq> write_queue R"
    "sleepers (r_tq (rw_w s)) (rwq R rs ws) (r_asleep s @ w_asleep s)"
    "set rs \<subseteq> snd ` set (r_asleep s)" "set ws \<subseteq> snd ` set (w_asleep s)"
    "distinct (rw_threads s)" "NULL \<notin> set (rw_threads s)" "inj (pid (rw_w s))" "\<And>t. 0 \<le> pid (rw_w s) t"
    "readers R = int (length (r_owners s))" "lock \<noteq> NULL"
  using assms by (auto simp: rw_core_def)

lemma rw_invI: "rw_core lock s R rs ws \<Longrightarrow> rw_live s R rs ws \<Longrightarrow> rw_inv lock s"
  by (auto simp: rw_inv_def)

lemma rw_invE: "rw_inv lock s \<Longrightarrow> (\<And>R rs ws. rw_core lock s R rs ws \<Longrightarrow> rw_live s R rs ws \<Longrightarrow> P) \<Longrightarrow> P"
  by (auto simp: rw_inv_def)

lemma rwq_simps:
  assumes "read_queue R \<noteq> write_queue R"
  shows "rwq R rs ws (read_queue R) = Some rs" "rwq R rs ws (write_queue R) = Some ws"
    "(rwq R rs ws)(read_queue R \<mapsto> rs') = rwq R rs' ws" "(rwq R rs ws)(write_queue R \<mapsto> ws') = rwq R rs ws'"
    "queued (rwq R rs ws) n \<longleftrightarrow> n \<in> set rs \<or> n \<in> set ws"
proof -
  show "queued (rwq R rs ws) n \<longleftrightarrow> n \<in> set rs \<or> n \<in> set ws"
    unfolding rwq_def queued_upd using assms by auto
qed (use assms in \<open>auto simp: rwq_def fun_upd_twist\<close>)

lemma rwq_fields [simp]:
  "rwq (R\<lparr>readers := k\<rparr>) rs ws = rwq R rs ws" "rwq (R\<lparr>holder_pid := h\<rparr>) rs ws = rwq R rs ws"
  by (simp_all add: rwq_def)

lemma upd_rw_simps [simp]:
  "r_tq (upd_rw w lock R) = r_tq w" "pid (upd_rw w lock R) = pid w"
  "lock \<noteq> NULL \<Longrightarrow> deref (rwsems (upd_rw w lock R)) lock = Some R"
  "upd_rw (upd_rw w lock R) lock R' = upd_rw w lock R'"
  by (simp_all add: upd_rw_def)

lemma set_rw_Some: "deref (rwsems w) lock = Some R \<Longrightarrow> set_rw w lock f = Some (upd_rw w lock (f R))"
  by (simp add: set_rw_def modify_Some upd_rw_def)

lemma rw_not_heir:
  assumes R: "rw_core lock s R rs ws" and t: "t \<notin> set (w_heirs s (rwq R rs ws))"
  shows "holder_pid R \<noteq> pid (rw_w s) t"
proof
  assume h: "holder_pid R = pid (rw_w s) t"
  then have "holder_pid R \<noteq> - 1" using rw_coreD(9) [OF R, of t] by simp
  then obtain u where "w_heirs s (rwq R rs ws) = [u]" "holder_pid R = pid (rw_w s) u"
    using R by (auto simp: rw_core_def)
  then show False using h rw_coreD(8) [OF R] t by (auto dest: injD)
qed

lemma rw_heir:
  assumes "rw_core lock s R rs ws" "t \<in> set (w_heirs s (rwq R rs ws))"
  shows "holder_pid R = pid (rw_w s) t" "w_heirs s (rwq R rs ws) = [t]" "r_owners s = []" "holder_pid R \<noteq> - 1"
  using assms rw_coreD(9) [OF assms(1), of t] by (auto simp: rw_core_def split: if_splits)

lemma w_heirs_threads: "set (w_heirs s Qs) \<subseteq> set (w_owners s) \<union> fst ` set (w_asleep s)"
  by (auto simp: w_heirs_def pending_def)

lemma reader_should_wait_eq:
  assumes R: "rw_core lock s R rs ws"
  shows "i_reader_should_wait (rw_w s) lock =
    Some (if readers R = 0 then holder_pid R \<noteq> - 1 else prio_write R \<and> ws \<noteq> [])"
  using rw_coreD(1,2) [OF R] sleepers_size [OF rw_coreD(3) [OF R], of "write_queue R" ws]
  by (simp add: i_reader_should_wait_def rwq_simps)

lemma writer_should_wait_eq:
  assumes R: "rw_core lock s R rs ws"
  shows "i_writer_should_wait (rw_w s) lock p =
    Some (holder_pid R \<noteq> p \<and> (holder_pid R \<noteq> - 1 \<or> r_owners s \<noteq> []))"
  using rw_coreD(1,10) [OF R] by (simp add: i_writer_should_wait_def)

subsection \<open>Acquiring\<close>

text \<open>The sleepers of the two queues do not share nodes.\<close>

lemma rw_nodes_disjoint:
  assumes R: "rw_core lock s R rs ws"
  shows "snd ` set (r_asleep s) \<inter> snd ` set (w_asleep s) = {}" "set rs \<inter> snd ` set (w_asleep s) = {}"
    "set ws \<inter> snd ` set (r_asleep s) = {}"
    "distinct (map snd (r_asleep s))" "distinct (map snd (w_asleep s))"
proof -
  have "distinct (map snd (r_asleep s @ w_asleep s))" using rw_coreD(3) [OF R] by (simp add: sleepers_def)
  then show "snd ` set (r_asleep s) \<inter> snd ` set (w_asleep s) = {}"
    "distinct (map snd (r_asleep s))" "distinct (map snd (w_asleep s))" by auto
  then show "set rs \<inter> snd ` set (w_asleep s) = {}" "set ws \<inter> snd ` set (r_asleep s) = {}"
    using rw_coreD(4,5) [OF R] by blast+
qed

lemma pending_rwq_cong:
  assumes "read_queue R \<noteq> write_queue R" "\<And>x. x \<in> set xs \<Longrightarrow>
    (snd x \<in> set rs' \<or> snd x \<in> set ws') = (snd x \<in> set rs \<or> snd x \<in> set ws)"
  shows "pending (rwq R rs' ws') xs = pending (rwq R rs ws) xs"
  unfolding pending_def by (rule filter_cong) (use assms in \<open>auto simp: rwq_simps\<close>)

text \<open>
  The loop tests, run by a thread that is not queued: \<open>s\<close> is the state without the thread.
\<close>

lemma rw_read_loop:
  assumes R: "rw_core lock s R rs ws" and n: "rw_node s n" and t: "rw_idle s t"
  shows "\<exists>r w'. read_loop (rw_w s) t lock n = Some (r, w') \<and>
    (r = Some 0 \<and> rw_inv lock (s\<lparr>rw_w := w', r_owners := t # r_owners s\<rparr>) \<or>
     r = None \<and> rw_inv lock (s\<lparr>rw_w := w', r_asleep := (t, n) # r_asleep s\<rparr>))"
proof (cases "if readers R = 0 then holder_pid R \<noteq> - 1 else prio_write R \<and> ws \<noteq> []")
  case True
  note D = rw_coreD [OF R] and q = rwq_simps [OF D(2)]
  obtain q' where q': "tq_wait_begin (r_tq (rw_w s)) t (read_queue R) n THREAD_UNINTERRUPTIBLE = Some (0, q')"
    "sleepers q' (rwq R (rs @ [n]) ws) ((t, n) # r_asleep s @ w_asleep s)"
    using sleepers_begin [OF D(3) q(1), of n t] n t by (auto simp: rw_node_def rw_idle_def q)
  have "read_loop (rw_w s) t lock n = Some (None, (rw_w s)\<lparr>r_tq := q'\<rparr>)"
    using reader_should_wait_eq [OF R] True D(1) q'(1) by (simp add: read_loop_def)
  moreover have "pending (rwq R (rs @ [n]) ws) (w_asleep s) = pending (rwq R rs ws) (w_asleep s)"
    using n by (intro pending_rwq_cong [OF D(2)]) (auto simp: rw_node_def)
  then have "rw_core lock (s\<lparr>rw_w := (rw_w s)\<lparr>r_tq := q'\<rparr>, r_asleep := (t, n) # r_asleep s\<rparr>) R (rs @ [n]) ws"
    using R q'(2) t by (auto simp: rw_core_def rw_threads_def rw_idle_def w_heirs_def)
  moreover have "rw_live (s\<lparr>rw_w := (rw_w s)\<lparr>r_tq := q'\<rparr>, r_asleep := (t, n) # r_asleep s\<rparr>) R (rs @ [n]) ws"
    using True D(10) by (auto simp: rw_live_def split: if_splits)
  ultimately show ?thesis by (auto intro: rw_invI)
next
  case False
  note D = rw_coreD [OF R]
  have h: "holder_pid R = - 1" using False R by (auto simp: rw_core_def split: if_splits)
  let ?R = "R\<lparr>readers := readers R + 1\<rparr>"
  have "read_loop (rw_w s) t lock n = Some (Some 0, upd_rw (rw_w s) lock ?R)"
    using reader_should_wait_eq [OF R] False D(1) by (simp add: read_loop_def set_rw_Some)
  moreover have "rw_core lock (s\<lparr>rw_w := upd_rw (rw_w s) lock ?R, r_owners := t # r_owners s\<rparr>) ?R rs ws"
    using R h t D(11) by (auto simp: rw_core_def rw_threads_def rw_idle_def w_heirs_def)
  ultimately show ?thesis by (auto intro!: rw_invI [of _ _ ?R rs ws] simp: rw_live_def)
qed

lemma rw_write_loop:
  assumes R: "rw_core lock s R rs ws" and n: "rw_node s n" and t: "rw_idle s t"
  shows "\<exists>r w'. write_loop (rw_w s) t lock n = Some (r, w') \<and>
    (r = Some 0 \<and> rw_inv lock (s\<lparr>rw_w := w', w_owners := t # w_owners s\<rparr>) \<or>
     r = None \<and> rw_inv lock (s\<lparr>rw_w := w', w_asleep := (t, n) # w_asleep s\<rparr>))"
proof -
  note D = rw_coreD [OF R] and q = rwq_simps [OF D(2)]
  have hp: "holder_pid R \<noteq> pid (rw_w s) t"
    using rw_not_heir [OF R] w_heirs_threads [of s "rwq R rs ws"] t by (auto simp: rw_idle_def)
  show ?thesis
  proof (cases "holder_pid R \<noteq> - 1 \<or> r_owners s \<noteq> []")
    case True
    obtain q' where q': "tq_wait_begin (r_tq (rw_w s)) t (write_queue R) n THREAD_UNINTERRUPTIBLE = Some (0, q')"
      "sleepers q' (rwq R rs (ws @ [n])) (r_asleep s @ (t, n) # w_asleep s)"
      using sleepers_begin [OF D(3) q(2), of n t] n t
      by (auto simp: rw_node_def rw_idle_def q sleepers_move)
    have "write_loop (rw_w s) t lock n = Some (None, (rw_w s)\<lparr>r_tq := q'\<rparr>)"
      using writer_should_wait_eq [OF R] True D(1) q'(1) hp by (simp add: write_loop_def)
    moreover have "pending (rwq R rs (ws @ [n])) (w_asleep s) = pending (rwq R rs ws) (w_asleep s)"
      using n by (intro pending_rwq_cong [OF D(2)]) (auto simp: rw_node_def)
    then have "rw_core lock (s\<lparr>rw_w := (rw_w s)\<lparr>r_tq := q'\<rparr>, w_asleep := (t, n) # w_asleep s\<rparr>) R rs (ws @ [n])"
      using R q'(2) t q(5) by (auto simp: rw_core_def rw_threads_def rw_idle_def w_heirs_def pending_def)
    moreover have "rw_live (s\<lparr>rw_w := (rw_w s)\<lparr>r_tq := q'\<rparr>, w_asleep := (t, n) # w_asleep s\<rparr>) R rs (ws @ [n])"
      using True by (auto simp: rw_live_def)
    ultimately show ?thesis by (auto intro: rw_invI)
  next
    case False
    let ?R = "R\<lparr>holder_pid := pid (rw_w s) t\<rparr>"
    have "write_loop (rw_w s) t lock n = Some (Some 0, upd_rw (rw_w s) lock ?R)"
      using writer_should_wait_eq [OF R] False D(1) by (simp add: write_loop_def set_rw_Some)
    moreover have np: "pid (rw_w s) t \<noteq> - 1" using D(9) [of t] by simp
    have "rw_core lock (s\<lparr>rw_w := upd_rw (rw_w s) lock ?R, w_owners := t # w_owners s\<rparr>) ?R rs ws"
      using R False t D(11) np by (auto simp: rw_core_def rw_threads_def rw_idle_def w_heirs_def)
    ultimately show ?thesis using np by (auto intro!: rw_invI [of _ _ ?R rs ws] simp: rw_live_def)
  qed
qed

subsection \<open>Resuming after a sleep\<close>

lemma rw_sleeper_unqueued:
  assumes R: "rw_core lock s R rs ws"
  shows "(t, n) \<in> set (r_asleep s) \<Longrightarrow> n \<notin> set ws" "(t, n) \<in> set (w_asleep s) \<Longrightarrow> n \<notin> set rs"
  using rw_nodes_disjoint(2,3) [OF R] by force+

lemma rw_read_resume:
  assumes inv: "rw_inv lock s" and x: "(t, n) \<in> set (r_asleep s)"
  defines "xs \<equiv> remove1 (t, n) (r_asleep s)"
  shows "\<exists>r w'. rwsem_acquire_read_resume (rw_w s) t lock n = Some (r, w') \<and>
    (r = Some 0 \<and> rw_inv lock (s\<lparr>rw_w := w', r_asleep := xs, r_owners := t # r_owners s\<rparr>) \<or>
     r = None \<and> rw_inv lock (s\<lparr>rw_w := w', r_asleep := (t, n) # xs\<rparr>) \<or>
     r = Some (- EINTR) \<and> rw_inv lock (s\<lparr>rw_w := w', r_asleep := xs\<rparr>))"
proof -
  obtain R rs ws where R: "rw_core lock s R rs ws" and L: "rw_live s R rs ws" by (rule rw_invE [OF inv])
  note D = rw_coreD [OF R] and q = rwq_simps [OF D(2)] and dj = rw_nodes_disjoint [OF R]
  have x': "(t, n) \<in> set (r_asleep s @ w_asleep s)" using x by simp
  have rm: "remove1 (t, n) (r_asleep s @ w_asleep s) = xs @ w_asleep s" using x by (simp add: xs_def remove1_append)
  have df: "distinct (map fst (r_asleep s))" using D(6) by (simp add: rw_threads_def)
  note ar = asleep_remove1 [OF df dj(4) x, folded xs_def]
  have "fst ` set xs \<subseteq> fst ` set (r_asleep s)" by (rule image_mono [OF ar(1)])
  then have thr: "distinct (rw_threads (s\<lparr>r_asleep := xs\<rparr>))" "NULL \<notin> set (rw_threads (s\<lparr>r_asleep := xs\<rparr>))"
    using distinct_replace [of "r_owners s @ w_owners s" "map fst (r_asleep s)" "map fst (w_asleep s)" "map fst xs"]
      D(6,7) ar(2) by (simp_all add: rw_threads_def del: distinct_append) blast+
  show ?thesis
  proof (cases "n \<in> set rs")
    case True
    then obtain as bs where rs: "rs = as @ n # bs" by (auto dest: split_list)
    have nn: "n \<notin> set (as @ bs)" using sleepers_distinct [OF D(3) q(1)] rs by auto
    obtain d q' where q': "tq_wait_end (r_tq (rw_w s)) (read_queue R) n = Some (- EINTR, d, q')"
      "sleepers q' (rwq R (as @ bs) ws) (xs @ w_asleep s)"
      using sleepers_cancel [OF D(3) x', of "read_queue R" as bs] q rs rm by auto
    let ?s = "s\<lparr>rw_w := (rw_w s)\<lparr>r_tq := q'\<rparr>, r_asleep := xs\<rparr>"
    have pw: "pending (rwq R (as @ bs) ws) (w_asleep s) = pending (rwq R rs ws) (w_asleep s)"
      using dj(2) rs by (intro pending_rwq_cong [OF D(2)]) auto
    have pr: "pending (rwq R (as @ bs) ws) xs = pending (rwq R rs ws) (r_asleep s)"
    proof -
      have "pending (rwq R (as @ bs) ws) xs = pending (rwq R rs ws) xs"
        using ar(4) rs by (intro pending_rwq_cong [OF D(2)]) auto
      then show ?thesis using True by (simp add: pending_def xs_def filter_remove1 remove1_filter_not q(5))
    qed
    have "set (as @ bs) \<subseteq> snd ` set xs" using D(4) ar(5) nn rs by auto
    moreover have "w_heirs ?s (rwq R (as @ bs) ws) = w_heirs s (rwq R rs ws)" by (simp add: w_heirs_def pw)
    moreover have "rw_threads ?s = rw_threads (s\<lparr>r_asleep := xs\<rparr>)" by (simp add: rw_threads_def)
    ultimately have "rw_core lock ?s R (as @ bs) ws"
      using R q'(2) thr by (simp add: rw_core_def)
    moreover have "rw_live ?s R (as @ bs) ws" using L pr rs by (auto simp: rw_live_def)
    moreover have "rwsem_acquire_read_resume (rw_w s) t lock n = Some (Some (- EINTR), (rw_w s)\<lparr>r_tq := q'\<rparr>)"
      using D(1) q'(1) by (simp add: rwsem_acquire_read_resume_def EINTR_def)
    ultimately show ?thesis by (auto intro: rw_invI)
  next
    case False
    have un: "\<not> queued (rwq R rs ws) n" using False rw_sleeper_unqueued(1) [OF R x] q(5) by simp
    let ?s = "s\<lparr>r_asleep := xs\<rparr>"
    have nw: "n \<notin> snd ` set (w_asleep s)" using dj(1) image_eqI [of n snd "(t, n)", OF _ x] by auto
    have "t \<in> fst ` set (r_asleep s)" using image_eqI [of t fst "(t, n)", OF _ x] by simp
    then have tx: "t \<notin> set (r_owners s)" "t \<notin> set (w_owners s)" "t \<notin> fst ` set (w_asleep s)" "t \<noteq> NULL"
      using D(6,7) by (auto simp: rw_threads_def)
    have "sleepers (r_tq (rw_w s)) (rwq R rs ws) (xs @ w_asleep s)"
      using sleepers_remove [OF D(3) x'] un rm by simp
    moreover have "set rs \<subseteq> snd ` set xs" using D(4) ar(5) False by blast
    moreover have "w_heirs ?s (rwq R rs ws) = w_heirs s (rwq R rs ws)" by (simp add: w_heirs_def)
    ultimately have R': "rw_core lock ?s R rs ws"
      using R thr by (simp add: rw_core_def)
    have "rw_node ?s n"
      using sleepers_space [OF D(3) x'] ar(4) nw by (simp add: rw_node_def)
    moreover have "rw_idle ?s t" using tx ar(3) by (simp add: rw_idle_def)
    moreover have "(rw_w s)\<lparr>r_tq := r_tq (rw_w s)\<rparr> = rw_w s" by simp
    then have "rwsem_acquire_read_resume (rw_w s) t lock n = read_loop (rw_w s) t lock n"
      using D(1) sleepers_woken [OF D(3) x' un, of "read_queue R"] by (auto simp: rwsem_acquire_read_resume_def)
    ultimately obtain r w' where e: "rwsem_acquire_read_resume (rw_w s) t lock n = Some (r, w')"
      and alt: "r = Some 0 \<and> rw_inv lock (?s\<lparr>rw_w := w', r_owners := t # r_owners ?s\<rparr>) \<or>
        r = None \<and> rw_inv lock (?s\<lparr>rw_w := w', r_asleep := (t, n) # r_asleep ?s\<rparr>)"
      using rw_read_loop [OF R', of n t] by auto
    have "?s\<lparr>rw_w := w', r_owners := t # r_owners ?s\<rparr> = s\<lparr>rw_w := w', r_asleep := xs, r_owners := t # r_owners s\<rparr>"
      "?s\<lparr>rw_w := w', r_asleep := (t, n) # r_asleep ?s\<rparr> = s\<lparr>rw_w := w', r_asleep := (t, n) # xs\<rparr>" by simp_all
    with alt e show ?thesis by metis
  qed
qed

lemma rw_write_resume:
  assumes inv: "rw_inv lock s" and x: "(t, n) \<in> set (w_asleep s)"
  defines "xs \<equiv> remove1 (t, n) (w_asleep s)"
  shows "\<exists>r w'. rwsem_acquire_write_resume (rw_w s) t lock n = Some (r, w') \<and>
    (r = Some 0 \<and> rw_inv lock (s\<lparr>rw_w := w', w_asleep := xs, w_owners := t # w_owners s\<rparr>) \<or>
     r = Some (- EINTR) \<and> rw_inv lock (s\<lparr>rw_w := w', w_asleep := xs\<rparr>))"
proof -
  obtain R rs ws where R: "rw_core lock s R rs ws" and L: "rw_live s R rs ws" by (rule rw_invE [OF inv])
  note D = rw_coreD [OF R] and q = rwq_simps [OF D(2)] and dj = rw_nodes_disjoint [OF R]
  have x': "(t, n) \<in> set (r_asleep s @ w_asleep s)" using x by simp
  have "(t, n) \<notin> set (r_asleep s)"
    using dj(1) image_eqI [of n snd "(t, n)", OF _ x] image_eqI [of n snd "(t, n)" "set (r_asleep s)"] by auto
  then have rm: "remove1 (t, n) (r_asleep s @ w_asleep s) = r_asleep s @ xs" by (simp add: xs_def remove1_append)
  have df: "distinct (map fst (w_asleep s))" using D(6) by (simp add: rw_threads_def)
  note ar = asleep_remove1 [OF df dj(5) x, folded xs_def]
  have "fst ` set xs \<subseteq> fst ` set (w_asleep s)" by (rule image_mono [OF ar(1)])
  then have thr: "distinct (rw_threads (s\<lparr>w_asleep := xs\<rparr>))" "NULL \<notin> set (rw_threads (s\<lparr>w_asleep := xs\<rparr>))"
    using distinct_replace [of "r_owners s @ w_owners s @ map fst (r_asleep s)" "map fst (w_asleep s)" "[]" "map fst xs"]
      D(6,7) ar(2) by (simp_all add: rw_threads_def del: distinct_append) blast+
  show ?thesis
  proof (cases "n \<in> set ws")
    case True
    then obtain as bs where ws: "ws = as @ n # bs" by (auto dest: split_list)
    have nn: "n \<notin> set (as @ bs)" using sleepers_distinct [OF D(3) q(2)] ws by auto
    obtain d q' where q': "tq_wait_end (r_tq (rw_w s)) (write_queue R) n = Some (- EINTR, d, q')"
      "sleepers q' (rwq R rs (as @ bs)) (r_asleep s @ xs)"
      using sleepers_cancel [OF D(3) x', of "write_queue R" as bs] q ws rm by auto
    let ?s = "s\<lparr>rw_w := (rw_w s)\<lparr>r_tq := q'\<rparr>, w_asleep := xs\<rparr>"
    have pr: "pending (rwq R rs (as @ bs)) (r_asleep s) = pending (rwq R rs ws) (r_asleep s)"
      using dj(3) ws by (intro pending_rwq_cong [OF D(2)]) auto
    have pw: "pending (rwq R rs (as @ bs)) xs = pending (rwq R rs ws) (w_asleep s)"
    proof -
      have "pending (rwq R rs (as @ bs)) xs = pending (rwq R rs ws) xs"
        using ar(4) ws by (intro pending_rwq_cong [OF D(2)]) auto
      then show ?thesis using True by (simp add: pending_def xs_def filter_remove1 remove1_filter_not q(5))
    qed
    have "set (as @ bs) \<subseteq> snd ` set xs" using D(5) ar(5) nn ws by auto
    moreover have "w_heirs ?s (rwq R rs (as @ bs)) = w_heirs s (rwq R rs ws)" by (simp add: w_heirs_def pw)
    moreover have "rw_threads ?s = rw_threads (s\<lparr>w_asleep := xs\<rparr>)" by (simp add: rw_threads_def)
    ultimately have "rw_core lock ?s R rs (as @ bs)"
      using R q'(2) thr by (simp add: rw_core_def)
    moreover have "rw_live ?s R rs (as @ bs)" using L pr ws by (auto simp: rw_live_def)
    moreover have "rwsem_acquire_write_resume (rw_w s) t lock n = Some (Some (- EINTR), (rw_w s)\<lparr>r_tq := q'\<rparr>)"
      using D(1) q'(1) by (simp add: rwsem_acquire_write_resume_def EINTR_def)
    ultimately show ?thesis by (auto intro: rw_invI)
  next
    case False
    have un: "\<not> queued (rwq R rs ws) n" using False rw_sleeper_unqueued(2) [OF R x] q(5) by simp
    then have p: "(t, n) \<in> set (pending (rwq R rs ws) (w_asleep s))" using x by (simp add: pending_def)
    then have th: "t \<in> set (w_heirs s (rwq R rs ws))" by (force simp: w_heirs_def)
    note h = rw_heir [OF R th]
    have o: "w_owners s = []" "pending (rwq R rs ws) (w_asleep s) = [(t, n)]"
      using h(2) p by (auto simp: w_heirs_def append_eq_Cons_conv)
    let ?s = "s\<lparr>rw_w := upd_rw (rw_w s) lock R, w_asleep := xs, w_owners := t # w_owners s\<rparr>"
    have w: "(rw_w s)\<lparr>r_tq := r_tq (rw_w s)\<rparr> = rw_w s" "R\<lparr>holder_pid := pid (rw_w s) t\<rparr> = R"
      using h(1) by simp_all
    have "rwsem_acquire_write_resume (rw_w s) t lock n =
        Some (Some 0, upd_rw (rw_w s) lock (R\<lparr>holder_pid := pid (rw_w s) t\<rparr>))"
      using D(1) sleepers_woken [OF D(3) x' un, of "write_queue R"] w(1) writer_should_wait_eq [OF R] h(1)
      by (auto simp: rwsem_acquire_write_resume_def write_loop_def set_rw_Some)
    then have e: "rwsem_acquire_write_resume (rw_w s) t lock n = Some (Some 0, upd_rw (rw_w s) lock R)"
      unfolding w(2) .
    have "sleepers (r_tq (rw_w s)) (rwq R rs ws) (r_asleep s @ xs)"
      using sleepers_remove [OF D(3) x'] un rm by simp
    moreover have "set ws \<subseteq> snd ` set xs" using D(5) ar(5) False by blast
    moreover have "t \<in> fst ` set (w_asleep s)" using image_eqI [of t fst "(t, n)", OF _ x] by simp
    then have "t \<notin> set (r_owners s)" "t \<notin> fst ` set (r_asleep s)" "t \<noteq> NULL"
      using D(6,7) by (auto simp: rw_threads_def)
    ultimately have "distinct (rw_threads ?s)" "NULL \<notin> set (rw_threads ?s)" and
      sl: "sleepers (r_tq (rw_w s)) (rwq R rs ws) (r_asleep s @ xs)" "set ws \<subseteq> snd ` set xs"
      using thr ar(3) o(1) by (auto simp: rw_threads_def)
    moreover have "w_heirs ?s (rwq R rs ws) = [t]"
      using o by (simp add: w_heirs_def pending_woken xs_def)
    ultimately have "rw_core lock ?s R rs ws"
      using R h D(11) by (simp add: rw_core_def)
    then show ?thesis
      using e h(4) by (auto intro!: rw_invI [of _ _ R rs ws] simp: rw_live_def)
  qed
qed

subsection \<open>Releasing\<close>

lemma rw_wake_writer:
  assumes R: "rw_core lock s R rs (n # ws)" and free: "holder_pid R = - 1" "r_owners s = []"
  shows "\<exists>w'. i_wake_writer (rw_w s) lock = Some w' \<and> rw_inv lock (s\<lparr>rw_w := w'\<rparr>)"
proof -
  note D = rw_coreD [OF R] and q = rwq_simps [OF D(2)] and dj = rw_nodes_disjoint [OF R]
  obtain q' u where u: "tq_wakeup (r_tq (rw_w s)) (write_queue R) 0 0 = Some (Inr u, q')" "u \<noteq> NULL"
    "(u, n) \<in> set (r_asleep s @ w_asleep s)" "sleepers q' (rwq R rs ws) (r_asleep s @ w_asleep s)"
    using sleepers_wake [OF D(3) q(2)] q(4) by auto
  have nr: "n \<notin> snd ` set (r_asleep s)" using dj(3) by auto
  then have uw: "(u, n) \<in> set (w_asleep s)" using u(3) by force
  have nn: "n \<notin> set ws" "n \<notin> set rs" using sleepers_distinct [OF D(3) q(2)] nr D(4) by auto
  have emp: "w_owners s = []" "pending (rwq R rs (n # ws)) (w_asleep s) = []"
    using R free by (auto simp: rw_core_def w_heirs_def)
  have pw: "pending (rwq R rs ws) (w_asleep s) = [(u, n)]"
    by (rule pending_drop_one [OF dj(5) uw emp(2)]) (use nn in \<open>auto simp: q(5)\<close>)
  let ?R = "R\<lparr>holder_pid := pid (rw_w s) u\<rparr>"
  define w' where "w' = upd_rw ((rw_w s)\<lparr>r_tq := q'\<rparr>) lock ?R"
  have "i_wake_writer (rw_w s) lock = Some w'"
    using D(1) u(1,2) set_rw_Some [of "(rw_w s)\<lparr>r_tq := q'\<rparr>" lock R] by (simp add: i_wake_writer_def w'_def)
  moreover have np: "pid (rw_w s) u \<noteq> - 1" using D(9) [of u] by simp
  have "w_heirs (s\<lparr>rw_w := w'\<rparr>) (rwq R rs ws) = [u]" using emp(1) pw by (simp add: w_heirs_def)
  moreover have "rw_threads (s\<lparr>rw_w := w'\<rparr>) = rw_threads s" by (simp add: rw_threads_def)
  ultimately have "rw_core lock (s\<lparr>rw_w := w'\<rparr>) ?R rs ws"
    using R u(4) np free D(11) by (simp add: rw_core_def w'_def)
  then show ?thesis
    using \<open>i_wake_writer _ _ = _\<close> np by (auto intro!: rw_invI [of _ _ ?R rs ws] simp: rw_live_def)
qed

lemma rw_wake_readers:
  assumes R: "rw_core lock s R rs ws" and free: "rs \<noteq> []"
  shows "\<exists>w'. i_wake_readers (rw_w s) lock = Some w' \<and> rw_inv lock (s\<lparr>rw_w := w'\<rparr>)"
proof -
  note D = rw_coreD [OF R] and q = rwq_simps [OF D(2)] and dj = rw_nodes_disjoint [OF R]
  obtain q' where q': "tq_wakeup_all (r_tq (rw_w s)) (read_queue R) 0 0 = Some (int (length rs), q')"
    "sleepers q' (rwq R [] ws) (r_asleep s @ w_asleep s)"
    using sleepers_wake_all [OF D(3) q(1)] q(3) by auto
  let ?s = "s\<lparr>rw_w := (rw_w s)\<lparr>r_tq := q'\<rparr>\<rparr>"
  have "i_wake_readers (rw_w s) lock = Some ((rw_w s)\<lparr>r_tq := q'\<rparr>)"
    using D(1) q'(1) by (simp add: i_wake_readers_def)
  moreover have "pending (rwq R [] ws) (w_asleep s) = pending (rwq R rs ws) (w_asleep s)"
    using dj(2) by (intro pending_rwq_cong [OF D(2)]) auto
  then have "w_heirs ?s (rwq R [] ws) = w_heirs s (rwq R rs ws)" by (simp add: w_heirs_def)
  moreover have "rw_threads ?s = rw_threads s" by (simp add: rw_threads_def)
  ultimately have "rw_core lock ?s R [] ws"
    using R q'(2) by (simp add: rw_core_def)
  moreover obtain x where "x \<in> set (r_asleep s)" "snd x \<in> set rs" using free D(4) by (cases rs) auto
  then have "x \<in> set (pending (rwq R [] ws) (r_asleep s))" using dj(3) by (auto simp: pending_def q(5))
  then have "rw_live ?s R [] ws" by (auto simp: rw_live_def)
  ultimately show ?thesis using \<open>i_wake_readers _ _ = _\<close> by (auto intro: rw_invI)
qed

lemma rw_do_wake_up:
  assumes R: "rw_core lock s R rs ws" and free: "holder_pid R = - 1" "r_owners s = []"
  shows "\<exists>w'. i_rwsem_do_wake_up (rw_w s) lock = Some w' \<and> rw_inv lock (s\<lparr>rw_w := w'\<rparr>)"
proof -
  note D = rw_coreD [OF R] and q = rwq_simps [OF D(2)]
  have sz: "tq_size (r_tq (rw_w s)) (write_queue R) = Some (int (length ws))"
    "tq_size (r_tq (rw_w s)) (read_queue R) = Some (int (length rs))"
    using sleepers_size [OF D(3)] q by auto
  have e: "i_rwsem_do_wake_up (rw_w s) lock =
      (if prio_write R then if ws \<noteq> [] then i_wake_writer (rw_w s) lock
         else if rs \<noteq> [] then i_wake_readers (rw_w s) lock else Some (rw_w s)
       else if rs \<noteq> [] then i_wake_readers (rw_w s) lock
         else if ws \<noteq> [] then i_wake_writer (rw_w s) lock else Some (rw_w s))"
    using D(1) sz by (simp add: i_rwsem_do_wake_up_def)
  have w: "\<exists>w'. i_wake_writer (rw_w s) lock = Some w' \<and> rw_inv lock (s\<lparr>rw_w := w'\<rparr>)" if "ws \<noteq> []"
    using rw_wake_writer [of lock s R rs "hd ws" "tl ws"] R free that by simp
  have "rw_inv lock (s\<lparr>rw_w := rw_w s\<rparr>)" if "rs = []" "ws = []"
    using rw_invI [OF R] that by (simp add: rw_live_def)
  then show ?thesis using e w rw_wake_readers [OF R] by auto
qed

lemma rw_release_read:
  assumes inv: "rw_inv lock s" and t: "t \<in> set (r_owners s)"
  shows "\<exists>w'. rwsem_release (rw_w s) t lock = Some w' \<and> rw_inv lock (s\<lparr>rw_w := w', r_owners := remove1 t (r_owners s)\<rparr>)"
proof -
  obtain R rs ws where R: "rw_core lock s R rs ws" by (rule rw_invE [OF inv])
  note D = rw_coreD [OF R]
  have h: "holder_pid R = - 1" using R t by (auto simp: rw_core_def split: if_splits)
  have p: "pid (rw_w s) t \<noteq> - 1" using D(9) [of t] by simp
  have tn: "t \<noteq> NULL" using D(7) t by (auto simp: rw_threads_def)
  let ?R = "R\<lparr>readers := readers R - 1\<rparr>"
  let ?s = "s\<lparr>rw_w := upd_rw (rw_w s) lock ?R, r_owners := remove1 t (r_owners s)\<rparr>"
  have len: "int (length (remove1 t (r_owners s))) = readers R - 1"
    using t length_pos_if_in_set [OF t] D(10) by (simp add: length_remove1 of_nat_diff Suc_le_eq)
  have "distinct (remove1 t (r_owners s))" using D(6) by (simp add: rw_threads_def)
  then have "distinct ([] @ remove1 t (r_owners s) @ w_owners s @ map fst (r_asleep s) @ map fst (w_asleep s))"
    using distinct_replace [of "[]" "r_owners s"] D(6) set_remove1_subset [of t "r_owners s"] by (simp add: rw_threads_def del: distinct_append)
  moreover have "NULL \<notin> set (remove1 t (r_owners s))" using D(7) set_remove1_subset [of t "r_owners s"] by (auto simp: rw_threads_def)
  moreover have "w_heirs ?s (rwq R rs ws) = w_heirs s (rwq R rs ws)" by (simp add: w_heirs_def)
  ultimately have R': "rw_core lock ?s ?R rs ws"
    using R h len D(7,11) by (simp add: rw_core_def rw_threads_def)
  have e: "rwsem_release (rw_w s) t lock =
      (if readers R - 1 = 0 then i_rwsem_do_wake_up (rw_w ?s) lock else Some (rw_w ?s))"
    using D(1,10,11) h p tn t length_pos_if_in_set [OF t]
    by (auto simp: rwsem_release_def set_rw_Some)
  show ?thesis
  proof (cases "readers R - 1 = 0")
    case True
    then obtain w' where "i_rwsem_do_wake_up (rw_w ?s) lock = Some w'" "rw_inv lock (?s\<lparr>rw_w := w'\<rparr>)"
      using rw_do_wake_up [OF R'] h len by auto
    moreover have "?s\<lparr>rw_w := w'\<rparr> = s\<lparr>rw_w := w', r_owners := remove1 t (r_owners s)\<rparr>" by simp
    ultimately show ?thesis using e True by metis
  next
    case False
    then have "rw_live ?s ?R rs ws" using len by (auto simp: rw_live_def)
    then show ?thesis using e False rw_invI [OF R'] by auto
  qed
qed

lemma rw_release_write:
  assumes inv: "rw_inv lock s" and t: "t \<in> set (w_owners s)"
  shows "\<exists>w'. rwsem_release (rw_w s) t lock = Some w' \<and> rw_inv lock (s\<lparr>rw_w := w', w_owners := remove1 t (w_owners s)\<rparr>)"
proof -
  obtain R rs ws where R: "rw_core lock s R rs ws" by (rule rw_invE [OF inv])
  note D = rw_coreD [OF R]
  have th: "t \<in> set (w_heirs s (rwq R rs ws))" using t by (simp add: w_heirs_def)
  note h = rw_heir [OF R th]
  have o: "w_owners s = [t]" "pending (rwq R rs ws) (w_asleep s) = []"
    using h(2) t by (auto simp: w_heirs_def append_eq_Cons_conv)
  have tn: "t \<noteq> NULL" using D(7) t by (auto simp: rw_threads_def)
  let ?R = "R\<lparr>holder_pid := - 1\<rparr>"
  let ?s = "s\<lparr>rw_w := upd_rw (rw_w s) lock ?R, w_owners := []\<rparr>"
  have "w_heirs ?s (rwq R rs ws) = []" using o(2) by (simp add: w_heirs_def)
  moreover have "distinct (rw_threads ?s)" "NULL \<notin> set (rw_threads ?s)"
    using D(6,7) h(3) by (simp_all add: rw_threads_def)
  ultimately have R': "rw_core lock ?s ?R rs ws"
    using R h(3) D(11) by (simp add: rw_core_def)
  obtain w' where w': "i_rwsem_do_wake_up (rw_w ?s) lock = Some w'" "rw_inv lock (?s\<lparr>rw_w := w'\<rparr>)"
    using rw_do_wake_up [OF R'] h(3) by auto
  have "?s\<lparr>rw_w := w'\<rparr> = s\<lparr>rw_w := w', w_owners := remove1 t (w_owners s)\<rparr>" using o by simp
  moreover have "rwsem_release (rw_w s) t lock = Some w'"
    using D(1,11) h(1,4) tn w'(1) by (simp add: rwsem_release_def set_rw_Some)
  ultimately show ?thesis using w'(2) by metis
qed

subsection \<open>Properties\<close>

lemma rw_inv_enter:
  assumes inv: "rw_inv lock s" and t: "rw_idle s t" and n: "rw_node s n"
  shows "\<exists>r w'. rwsem_acquire_read_enter (rw_w s) (thread_ctx t) lock n = Some (r, w') \<and>
      (r = Some 0 \<and> rw_inv lock (s\<lparr>rw_w := w', r_owners := t # r_owners s\<rparr>) \<or>
       r = None \<and> rw_inv lock (s\<lparr>rw_w := w', r_asleep := (t, n) # r_asleep s\<rparr>))" (is ?R)
    and "\<exists>r w'. rwsem_acquire_write_enter (rw_w s) (thread_ctx t) lock n = Some (r, w') \<and>
      (r = Some 0 \<and> rw_inv lock (s\<lparr>rw_w := w', w_owners := t # w_owners s\<rparr>) \<or>
       r = None \<and> rw_inv lock (s\<lparr>rw_w := w', w_asleep := (t, n) # w_asleep s\<rparr>))" (is ?W)
proof -
  obtain R rs ws where R: "rw_core lock s R rs ws" by (rule rw_invE [OF inv])
  have t0: "t \<noteq> NULL" "lock \<noteq> NULL" using t rw_coreD(11) [OF R] by (simp_all add: rw_idle_def)
  have "holder_pid R \<noteq> pid (rw_w s) t"
    using rw_not_heir [OF R] w_heirs_threads [of s "rwq R rs ws"] t by (auto simp: rw_idle_def)
  then have "rwsem_acquire_write_enter (rw_w s) (thread_ctx t) lock n = write_loop (rw_w s) t lock n"
    using t0 rw_coreD(1) [OF R] by (simp add: rwsem_acquire_write_enter_def)
  then show ?W using rw_write_loop [OF R n t] by simp
  show ?R using rw_read_loop [OF R n t] t0 by (simp add: rwsem_acquire_read_enter_def)
qed

interpretation rw_sys: step_invariant "rw_step lock" "rw_inv lock"
proof unfold_locales
  fix s s'
  assume inv: "rw_inv lock s" and st: "rw_step lock s s'"
  from st show "rw_inv lock s'"
  proof cases
    case (read_got t n w')
    then show ?thesis using rw_inv_enter(1) [OF inv, of t n] by auto
  next
    case (read_sleep t n w')
    then show ?thesis using rw_inv_enter(1) [OF inv, of t n] by auto
  next
    case (read_resume_got t n w')
    then show ?thesis using rw_read_resume [OF inv, of t n] by (auto simp: EINTR_def)
  next
    case (read_resume_error t n ret w')
    then show ?thesis using rw_read_resume [OF inv, of t n] by auto
  next
    case (read_resume_sleep t n w')
    then show ?thesis using rw_read_resume [OF inv, of t n] by auto
  next
    case (write_got t n w')
    then show ?thesis using rw_inv_enter(2) [OF inv, of t n] by auto
  next
    case (write_sleep t n w')
    then show ?thesis using rw_inv_enter(2) [OF inv, of t n] by auto
  next
    case (write_resume_got t n w')
    then show ?thesis using rw_write_resume [OF inv, of t n] by (auto simp: EINTR_def)
  next
    case (write_resume_error t n ret w')
    then show ?thesis using rw_write_resume [OF inv, of t n] by auto
  next
    case (write_resume_sleep t n w')
    then show ?thesis using rw_write_resume [OF inv, of t n] by auto
  next
    case (release_read t w')
    then show ?thesis using rw_release_read [OF inv, of t] by auto
  next
    case (release_write t w')
    then show ?thesis using rw_release_write [OF inv, of t] by auto
  qed
qed

definition rw_space :: "rww \<Rightarrow> addr \<Rightarrow> bool" where
  "rw_space w lock \<longleftrightarrow> (\<exists>R. deref (rwsems w) lock = Some R \<and> read_queue R \<noteq> write_queue R \<and>
     (\<forall>q\<in>{read_queue R, write_queue R}. alloc (tw_list (r_tq w)) q \<and> alloc (tw_queues (r_tq w)) q \<and>
        (\<forall>n. alloc (tw_nodes (r_tq w)) n \<longrightarrow> list_entry n \<noteq> q)))"

definition rw_start :: "rww \<Rightarrow> rw_sys" where
  "rw_start w = \<lparr>rw_w = w, r_asleep = [], w_asleep = [], r_owners = [], w_owners = []\<rparr>"

lemma rwsem_init_ok:
  assumes sp: "rw_space w lock" and p: "inj (pid w)" "\<forall>t. 0 \<le> pid w t"
  shows "\<exists>w0. rwsem_init w lock flags (Some name) = Some (0, w0) \<and> rw_inv lock (rw_start w0) \<and>
    (\<forall>n. node_space (r_tq w) n \<longrightarrow> node_space (r_tq w0) n)"
proof -
  obtain R where R: "deref (rwsems w) lock = Some R" "read_queue R \<noteq> write_queue R"
    and al: "\<And>q. q \<in> {read_queue R, write_queue R} \<Longrightarrow> alloc (tw_list (r_tq w)) q \<and>
      alloc (tw_queues (r_tq w)) q \<and> (\<forall>n. alloc (tw_nodes (r_tq w)) n \<longrightarrow> list_entry n \<noteq> q)"
    using sp by (auto simp: rw_space_def)
  obtain Qr where Qr: "tw_queues (r_tq w) (read_queue R) = Some Qr"
    using al [of "read_queue R"] by (auto simp: alloc_def)
  obtain Qw where Qw: "tw_queues (r_tq w) (write_queue R) = Some Qw"
    using al [of "write_queue R"] by (auto simp: alloc_def)
  obtain q1 where q1: "tq_init (r_tq w) (read_queue R) (Some ''rwsem read queue'') (rw_lock R) = Some q1"
    "tqs_ok q1 [read_queue R \<mapsto> []]" "tw_nodes q1 = tw_nodes (r_tq w)" "\<forall>n. node_space q1 n = node_space (r_tq w) n"
    "\<forall>e. alloc (tw_list q1) e = alloc (tw_list (r_tq w)) e"
    "\<forall>p. p \<noteq> read_queue R \<longrightarrow> tw_queues q1 p = tw_queues (r_tq w) p"
    using tq_init_add [of "r_tq w" "\<lambda>_. None" "read_queue R" Qr "Some ''rwsem read queue''" "rw_lock R"] Qr al by auto
  obtain q2 where q2: "tq_init q1 (write_queue R) (Some ''rwsem write queue'') (rw_lock R) = Some q2"
    "tqs_ok q2 (rwq R [] [])" "\<forall>n. node_space q2 n = node_space q1 n"
    using tq_init_add [OF q1(2), of "write_queue R" Qw "Some ''rwsem write queue''" "rw_lock R"] Qw al R(2) q1(3,5,6)
    by (auto simp: rwq_def)
  have lk: "lock \<noteq> NULL" using R(1) by auto
  define R' where "R' = R\<lparr>readers := 0, rw_name := name, holder_pid := - 1, rw_flags := flags\<rparr>"
  define w0 where "w0 = upd_rw (w\<lparr>r_tq := q2\<rparr>) lock R'"
  have "rwsem_init w lock flags (Some name) = Some (0, w0)"
    using R(1) lk q1(1) q2(1) by (simp add: rwsem_init_def set_rw_def modify_Some R'_def w0_def upd_rw_def)
  moreover have "rwq R' [] [] = rwq R [] []" by (simp add: rwq_def R'_def)
  then have "rw_core lock (rw_start w0) R' [] []"
    using R(2) lk q2(2) p rwq_simps(5) [OF R(2), of "[]" "[]"]
    by (simp add: rw_core_def rw_start_def w0_def sleepers_def rw_threads_def w_heirs_def pending_def) (simp add: R'_def)
  ultimately show ?thesis using q1(4) q2(3) rw_invI by (fastforce simp: rw_live_def w0_def)
qed

lemma rw_reachable_inv:
  assumes "rw_space w lock" "inj (pid w)" "\<forall>t. 0 \<le> pid w t"
    and "rwsem_init w lock flags (Some name) = Some (0, w0)" "(rw_step lock)\<^sup>*\<^sup>* (rw_start w0) s"
  shows "rw_inv lock s"
  using rwsem_init_ok [OF assms(1-3), of flags name] assms(4) rw_sys.run_preserves [OF assms(5)] by auto

text \<open>
  C3. Reader-writer exclusion: under every interleaving of acquisitions and releases, with
  waiters woken while queued, a write owner is the only owner, the count \<open>readers\<close> is the number of
  read owners, and \<open>rwsem_is_write_holding\<close> is true for a write owner.
\<close>

theorem rwsem_exclusion:
  assumes "rw_space w lock" and "inj (pid w)" and "\<forall>t. 0 \<le> pid w t"
    and "rwsem_init w lock flags (Some name) = Some (0, w0)" and "(rw_step lock)\<^sup>*\<^sup>* (rw_start w0) s"
  shows "(\<exists>R. deref (rwsems (rw_w s)) lock = Some R \<and> readers R = int (length (r_owners s))) \<and>
    (\<forall>t\<in>set (w_owners s). w_owners s = [t] \<and> r_owners s = [] \<and> rwsem_is_write_holding (rw_w s) t lock = Some True)"
proof -
  obtain R rs ws where R: "rw_core lock s R rs ws" using rw_reachable_inv [OF assms] by (rule rw_invE)
  note D = rw_coreD [OF R]
  have "w_owners s = [t] \<and> r_owners s = [] \<and> rwsem_is_write_holding (rw_w s) t lock = Some True"
    if t: "t \<in> set (w_owners s)" for t
  proof -
    have th: "t \<in> set (w_heirs s (rwq R rs ws))" using t by (simp add: w_heirs_def)
    have "t \<noteq> NULL" using D(7) t by (auto simp: rw_threads_def)
    then show ?thesis
      using rw_heir [OF R th] t D(1,11) by (auto simp: rwsem_is_write_holding_def w_heirs_def append_eq_Cons_conv)
  qed
  then show ?thesis using D(1,10) by blast
qed

text \<open>
  C13. No lost wake-up: whenever a reader or a writer is queued, the lock is owned, or a thread
  that has already been woken is about to run.
\<close>

theorem rwsem_no_lost_wakeup:
  assumes "rw_space w lock" and "inj (pid w)" and "\<forall>t. 0 \<le> pid w t"
    and "rwsem_init w lock flags (Some name) = Some (0, w0)" and "(rw_step lock)\<^sup>*\<^sup>* (rw_start w0) s"
  shows "\<exists>R rs ws. deref (rwsems (rw_w s)) lock = Some R \<and>
    tqs_ok (r_tq (rw_w s)) [read_queue R \<mapsto> rs, write_queue R \<mapsto> ws] \<and>
    (rs \<noteq> [] \<or> ws \<noteq> [] \<longrightarrow> r_owners s \<noteq> [] \<or> w_owners s \<noteq> [] \<or>
      (\<exists>x\<in>set (r_asleep s) \<union> set (w_asleep s). snd x \<notin> set rs \<union> set ws))"
proof -
  obtain R rs ws where R: "rw_core lock s R rs ws" and L: "rw_live s R rs ws"
    using rw_reachable_inv [OF assms] by (rule rw_invE)
  note D = rw_coreD [OF R] and q = rwq_simps [OF rw_coreD(2) [OF R]]
  have pend: "\<exists>x\<in>set xs. snd x \<notin> set rs \<union> set ws" if "pending (rwq R rs ws) xs \<noteq> []" for xs
    using that q(5) [of rs ws] by (auto simp: pending_def filter_empty_conv)
  have "w_owners s \<noteq> [] \<or> pending (rwq R rs ws) (w_asleep s) \<noteq> []" if "holder_pid R \<noteq> - 1"
    using R that by (auto simp: rw_core_def w_heirs_def)
  then have "r_owners s \<noteq> [] \<or> w_owners s \<noteq> [] \<or> (\<exists>x\<in>set (r_asleep s) \<union> set (w_asleep s). snd x \<notin> set rs \<union> set ws)"
    if "rs \<noteq> [] \<or> ws \<noteq> []"
    using L that pend [of "r_asleep s"] pend [of "w_asleep s"] by (auto simp: rw_live_def)
  then show ?thesis using D(1,3) by (auto simp: sleepers_def rwq_def)
qed

text \<open>A lock at 8 with its queues at 16 and 32 and a wait node at 64.\<close>

definition demo_rww :: rww where
  "demo_rww = \<lparr>r_tq = demo_tqw\<lparr>tw_list := (tw_list demo_tqw)(32 \<mapsto> \<lparr>ln_prev = 0, ln_next = 0\<rparr>),
       tw_queues := (tw_queues demo_tqw)(32 \<mapsto> \<lparr>counter = 0, tq_name = [], tq_lock = 0\<rparr>)\<rparr>,
     rwsems = [8 \<mapsto> \<lparr>readers = 0, holder_pid = 0, read_queue = 16, write_queue = 32, rw_name = [],
       rw_flags = 0, rw_lock = 8\<rparr>], pid = uint\<rparr>"

lemma demo_rww_facts:
  "rw_space demo_rww 8" "inj (pid demo_rww)" "\<forall>t. 0 \<le> pid demo_rww t" "node_space (r_tq demo_rww) 64"
proof -
  show "rw_space demo_rww 8"
    by (auto simp: rw_space_def demo_rww_def deref_def alloc_def demo_tqw_def list_entry_def split: if_splits)
  show "node_space (r_tq demo_rww) 64"
    by (auto simp: demo_rww_def demo_tqw_def node_space_def alloc_def list_entry_def)
  show "inj (pid demo_rww)" by (simp add: demo_rww_def inj_def word_uint_eq_iff)
qed (simp add: demo_rww_def)

text \<open>Thread 1000 takes the write lock; thread 2000 wants to read and goes to sleep.\<close>

lemma demo_rw_contended:
  "\<exists>w0 s. rwsem_init demo_rww 8 RWLOCK_PRIO_WRITE (Some ''demo'') = Some (0, w0) \<and>
    (rw_step 8)\<^sup>*\<^sup>* (rw_start w0) s \<and> w_owners s = [1000] \<and> r_asleep s = [(2000, 64)]"
proof -
  obtain w0 where w0: "rwsem_init demo_rww 8 RWLOCK_PRIO_WRITE (Some ''demo'') = Some (0, w0)"
    "rw_inv 8 (rw_start w0)" "node_space (r_tq w0) 64"
    using rwsem_init_ok [OF demo_rww_facts(1-3)] demo_rww_facts(4) by blast
  define s0 where "s0 = rw_start w0"
  obtain R0 rs0 ws0 where R0: "rw_core 8 s0 R0 rs0 ws0" using w0(2) unfolding s0_def by (rule rw_invE)
  have h0: "holder_pid R0 = - 1" "r_owners s0 = []"
    using R0 by (auto simp: rw_core_def s0_def rw_start_def w_heirs_def pending_def split: if_splits)
  have i0: "rw_idle s0 1000" "rw_node s0 64"
    using w0(3) by (simp_all add: rw_idle_def rw_node_def s0_def rw_start_def)
  have "holder_pid R0 \<noteq> pid (rw_w s0) 1000" using h0(1) rw_coreD(9) [OF R0, of 1000] by simp
  then obtain w1 where w1: "rwsem_acquire_write_enter (rw_w s0) (thread_ctx 1000) 8 64 = Some (Some 0, w1)"
    "r_tq w1 = r_tq (rw_w s0)"
    using writer_should_wait_eq [OF R0] h0 rw_coreD(1) [OF R0]
    by (simp add: rwsem_acquire_write_enter_def write_loop_def set_rw_Some)
  define s1 where "s1 = s0\<lparr>rw_w := w1, w_owners := [1000]\<rparr>"
  have st1: "rw_step 8 s0 s1"
    using rw_step.write_got [OF i0 w1(1)] by (simp add: s1_def s0_def rw_start_def)
  have "rw_inv 8 s1" using rw_sys.step_preserves [OF _ st1] w0(2) by (simp add: s0_def)
  then obtain R1 rs1 ws1 where R1: "rw_core 8 s1 R1 rs1 ws1" by (rule rw_invE)
  have h1: "holder_pid R1 \<noteq> - 1" "readers R1 = 0"
    using R1 h0(2) by (auto simp: rw_core_def s1_def w_heirs_def)
  have i1: "rw_idle s1 2000" "rw_node s1 64"
    using w0(3) w1(2) by (simp_all add: rw_idle_def rw_node_def s1_def s0_def rw_start_def)
  obtain r w2 where w2: "rwsem_acquire_read_enter (rw_w s1) (thread_ctx 2000) 8 64 = Some (r, w2)"
    using rw_inv_enter(1) [OF \<open>rw_inv 8 s1\<close> i1] by blast
  then have "r = None"
    using reader_should_wait_eq [OF R1] h1 rw_coreD(1) [OF R1]
    by (auto simp: rwsem_acquire_read_enter_def read_loop_def bind_eq_Some_conv split: if_splits)
  then have "rw_step 8 s1 (s1\<lparr>rw_w := w2, r_asleep := [(2000, 64)]\<rparr>)"
    using rw_step.read_sleep [OF i1, of 8 w2] w2 by (simp add: s1_def s0_def rw_start_def)
  then have "(rw_step 8)\<^sup>*\<^sup>* s0 (s1\<lparr>rw_w := w2, r_asleep := [(2000, 64)]\<rparr>)"
    using st1 by (meson converse_rtranclp_into_rtranclp rtranclp.rtrancl_refl)
  then show ?thesis using w0(1) unfolding s0_def by (intro exI conjI) (auto simp: s1_def)
qed

theorem rwsem_exclusion_witness:
  "\<exists>w0 s. rwsem_init demo_rww 8 RWLOCK_PRIO_WRITE (Some ''demo'') = Some (0, w0) \<and>
    (rw_step 8)\<^sup>*\<^sup>* (rw_start w0) s \<and> w_owners s = [1000] \<and> r_owners s = [] \<and>
    rwsem_is_write_holding (rw_w s) 1000 8 = Some True"
proof -
  obtain w0 s where s: "rwsem_init demo_rww 8 RWLOCK_PRIO_WRITE (Some ''demo'') = Some (0, w0)"
    "(rw_step 8)\<^sup>*\<^sup>* (rw_start w0) s" "w_owners s = [1000]"
    using demo_rw_contended by blast
  then show ?thesis using rwsem_exclusion [OF demo_rww_facts(1-3) s(1,2)] by auto
qed

theorem rwsem_no_lost_wakeup_witness:
  "\<exists>w0 s R rs ws. rwsem_init demo_rww 8 RWLOCK_PRIO_WRITE (Some ''demo'') = Some (0, w0) \<and>
    (rw_step 8)\<^sup>*\<^sup>* (rw_start w0) s \<and> r_asleep s = [(2000, 64)] \<and>
    deref (rwsems (rw_w s)) 8 = Some R \<and> tqs_ok (r_tq (rw_w s)) [read_queue R \<mapsto> rs, write_queue R \<mapsto> ws]"
proof -
  obtain w0 s where s: "rwsem_init demo_rww 8 RWLOCK_PRIO_WRITE (Some ''demo'') = Some (0, w0)"
    "(rw_step 8)\<^sup>*\<^sup>* (rw_start w0) s" "r_asleep s = [(2000, 64)]"
    using demo_rw_contended by blast
  then show ?thesis using rwsem_no_lost_wakeup [OF demo_rww_facts(1-3) s(1,2)] by blast
qed

end
