(* ===== verification/Completion.thy ===== *)
theory Completion
  imports Sleep_Lock
begin

text \<open>
  Completions (\<open>kernel/lock/completion.c\<close>): a counter that \<open>complete\<close> raises and a wait consumes, with
  a queue of waiters. Every access but \<open>completion_reinit\<close> and the wake-ups of \<open>complete_all\<close> is
  made under \<open>c->lock\<close>; a critical section is one step, and \<open>complete_all\<close> is cut where it gives up
  the lock before it wakes the waiters it has moved to its own queue.
\<close>

subsection \<open>Definitions\<close>

definition MAX_COMPLETIONS :: int where "MAX_COMPLETIONS = 65535"

record completion_t =
  c_done :: int
  c_queue :: addr
  c_lock :: addr

record cpw =
  c_tq :: tqw
  comps :: "addr \<rightharpoonup> completion_t"

definition set_comp :: "cpw \<Rightarrow> addr \<Rightarrow> (completion_t \<Rightarrow> completion_t) \<Rightarrow> cpw option" where
  "set_comp w c f = do { cs \<leftarrow> modify (comps w) c f; Some (w\<lparr>comps := cs\<rparr>) }"

definition completion_init :: "cpw \<Rightarrow> addr \<Rightarrow> cpw option" where
  "completion_init w c = do {
     w1 \<leftarrow> set_comp w c (\<lambda>C. C\<lparr>c_done := 0\<rparr>);
     C \<leftarrow> deref (comps w1) c;
     q \<leftarrow> tq_init (c_tq w1) (c_queue C) (Some ''completion_queue'') (c_lock C);
     Some (w1\<lparr>c_tq := q\<rparr>) }"

definition completion_reinit :: "cpw \<Rightarrow> addr \<Rightarrow> cpw option" where
  "completion_reinit w c = set_comp w c (\<lambda>C. C\<lparr>c_done := 0\<rparr>)"

definition i_try_wait_for_completion :: "cpw \<Rightarrow> addr \<Rightarrow> (bool \<times> cpw) option" where
  "i_try_wait_for_completion w c = do {
     C \<leftarrow> deref (comps w) c;
     if c_done C \<le> 0 then Some (False, w)
     else if c_done C \<noteq> MAX_COMPLETIONS then do {
       w1 \<leftarrow> set_comp w c (\<lambda>C. C\<lparr>c_done := c_done C - 1\<rparr>);
       Some (True, w1) }
     else Some (True, w) }"

definition i_completion_do_wake :: "cpw \<Rightarrow> addr \<Rightarrow> cpw option" where
  "i_completion_do_wake w c = do {
     C \<leftarrow> deref (comps w) c;
     k \<leftarrow> tq_size (c_tq w) (c_queue C);
     if k > 0 then do {
       (_, q) \<leftarrow> tq_wakeup (c_tq w) (c_queue C) 0 0;
       Some (w\<lparr>c_tq := q\<rparr>) }
     else Some w }"

definition try_wait_for_completion :: "cpw \<Rightarrow> addr \<Rightarrow> (bool \<times> cpw) option" where
  "try_wait_for_completion w c =
     (if c = NULL then Some (False, w) else i_try_wait_for_completion w c)"

text \<open>
  The loop test of \<open>wait_for_completion\<close>: the first result tells whether the call returns; if not
  the thread sleeps on \<open>waiter\<close>.
\<close>

definition completion_loop :: "cpw \<Rightarrow> addr \<Rightarrow> addr \<Rightarrow> addr \<Rightarrow> (bool \<times> cpw) option" where
  "completion_loop w self c waiter = do {
     (got, w1) \<leftarrow> i_try_wait_for_completion w c;
     C \<leftarrow> deref (comps w1) c;
     if \<not> got then do {
       (ret, q) \<leftarrow> tq_wait_begin (c_tq w1) self (c_queue C) waiter THREAD_UNINTERRUPTIBLE;
       if ret = 0 then Some (False, w1\<lparr>c_tq := q\<rparr>) else None }
     else if c_done C > 0 then do { w2 \<leftarrow> i_completion_do_wake w1 c; Some (True, w2) }
     else Some (True, w1) }"

definition wait_for_completion_enter :: "cpw \<Rightarrow> addr \<Rightarrow> addr \<Rightarrow> addr \<Rightarrow> (bool \<times> cpw) option" where
  "wait_for_completion_enter w self c waiter =
     (if self = NULL then None
      else if c = NULL then Some (True, w)
      else completion_loop w self c waiter)"

definition wait_for_completion_resume :: "cpw \<Rightarrow> addr \<Rightarrow> addr \<Rightarrow> addr \<Rightarrow> (bool \<times> cpw) option" where
  "wait_for_completion_resume w self c waiter = do {
     C \<leftarrow> deref (comps w) c;
     (_, _, q) \<leftarrow> tq_wait_end (c_tq w) (c_queue C) waiter;
     completion_loop (w\<lparr>c_tq := q\<rparr>) self c waiter }"

definition complete :: "cpw \<Rightarrow> addr \<Rightarrow> cpw option" where
  "complete w c =
     (if c = NULL then Some w
      else do {
        C \<leftarrow> deref (comps w) c;
        w1 \<leftarrow> (if c_done C \<noteq> MAX_COMPLETIONS then set_comp w c (\<lambda>C. C\<lparr>c_done := c_done C + 1\<rparr>) else Some w);
        i_completion_do_wake w1 c })"

text \<open>\<open>temp\<close> is the queue on the caller's stack.\<close>

definition complete_all_move :: "cpw \<Rightarrow> addr \<Rightarrow> addr \<Rightarrow> cpw option" where
  "complete_all_move w c temp =
     (if c = NULL then Some w
      else do {
        q \<leftarrow> tq_init (c_tq w) temp (Some ''completion_temp'') NULL;
        w1 \<leftarrow> set_comp (w\<lparr>c_tq := q\<rparr>) c (\<lambda>C. C\<lparr>c_done := MAX_COMPLETIONS\<rparr>);
        C \<leftarrow> deref (comps w1) c;
        (_, q1) \<leftarrow> tq_bulk_move (c_tq w1) temp (c_queue C);
        Some (w1\<lparr>c_tq := q1\<rparr>) })"

definition complete_all_wake :: "cpw \<Rightarrow> addr \<Rightarrow> addr \<Rightarrow> cpw option" where
  "complete_all_wake w c temp =
     (if c = NULL then Some w
      else do {
        T \<leftarrow> deref (tw_queues (c_tq w)) temp;
        if counter T > 0 then do {
          (_, q) \<leftarrow> tq_wakeup_all (c_tq w) temp 0 0;
          Some (w\<lparr>c_tq := q\<rparr>) }
        else Some w })"

definition complete_all :: "cpw \<Rightarrow> addr \<Rightarrow> addr \<Rightarrow> cpw option" where
  "complete_all w c temp = do { w1 \<leftarrow> complete_all_move w c temp; complete_all_wake w1 c temp }"

definition completion_done :: "cpw \<Rightarrow> addr \<Rightarrow> bool option" where
  "completion_done w c =
     (if c = NULL then Some False
      else do { C \<leftarrow> deref (comps w) c; k \<leftarrow> tq_size (c_tq w) (c_queue C); Some (k = 0) })"

subsection \<open>Interleaved calls\<close>

text \<open>
  \<open>c_asleep\<close>: the threads inside \<open>tq_wait\<close> with their wait nodes; \<open>temps\<close>: the queues of
  \<open>complete_all\<close> calls that have moved the waiters and not woken them yet; \<open>completed\<close> and \<open>taken\<close>
  count the calls of \<open>complete\<close> and the waits that returned with success; \<open>flooded\<close> is set by
  \<open>complete_all\<close>.
\<close>

record cp_sys =
  cp_w :: cpw
  c_asleep :: "(addr \<times> addr) list"
  temps :: "addr list"
  completed :: nat
  taken :: nat
  flooded :: bool

definition temp_space :: "cpw \<Rightarrow> addr \<Rightarrow> addr \<Rightarrow> bool" where
  "temp_space w c temp \<longleftrightarrow> alloc (tw_list (c_tq w)) temp \<and> alloc (tw_queues (c_tq w)) temp \<and>
     (\<forall>n. alloc (tw_nodes (c_tq w)) n \<longrightarrow> list_entry n \<noteq> temp) \<and>
     (\<forall>C. deref (comps w) c = Some C \<longrightarrow> c_queue C \<noteq> temp)"

inductive cp_step :: "addr \<Rightarrow> cp_sys \<Rightarrow> cp_sys \<Rightarrow> bool" for c where
  wait_done: "t \<noteq> NULL \<Longrightarrow> node_space (c_tq (cp_w s)) n \<Longrightarrow> n \<notin> snd ` set (c_asleep s) \<Longrightarrow>
    wait_for_completion_enter (cp_w s) t c n = Some (True, w') \<Longrightarrow>
    cp_step c s (s\<lparr>cp_w := w', taken := taken s + 1\<rparr>)"
| wait_sleep: "t \<noteq> NULL \<Longrightarrow> node_space (c_tq (cp_w s)) n \<Longrightarrow> n \<notin> snd ` set (c_asleep s) \<Longrightarrow>
    wait_for_completion_enter (cp_w s) t c n = Some (False, w') \<Longrightarrow>
    cp_step c s (s\<lparr>cp_w := w', c_asleep := (t, n) # c_asleep s\<rparr>)"
| resume_done: "(t, n) \<in> set (c_asleep s) \<Longrightarrow> t \<noteq> NULL \<Longrightarrow>
    wait_for_completion_resume (cp_w s) t c n = Some (True, w') \<Longrightarrow>
    cp_step c s (s\<lparr>cp_w := w', c_asleep := remove1 (t, n) (c_asleep s), taken := taken s + 1\<rparr>)"
| resume_sleep: "(t, n) \<in> set (c_asleep s) \<Longrightarrow> t \<noteq> NULL \<Longrightarrow>
    wait_for_completion_resume (cp_w s) t c n = Some (False, w') \<Longrightarrow>
    cp_step c s (s\<lparr>cp_w := w', c_asleep := (t, n) # remove1 (t, n) (c_asleep s)\<rparr>)"
| try_wait: "try_wait_for_completion (cp_w s) c = Some (r, w') \<Longrightarrow>
    cp_step c s (s\<lparr>cp_w := w', taken := taken s + of_bool r\<rparr>)"
| reinit: "completion_reinit (cp_w s) c = Some w' \<Longrightarrow> cp_step c s (s\<lparr>cp_w := w'\<rparr>)"
| complete: "complete (cp_w s) c = Some w' \<Longrightarrow> cp_step c s (s\<lparr>cp_w := w', completed := completed s + 1\<rparr>)"
| all_move: "temp_space (cp_w s) c temp \<Longrightarrow> temp \<notin> set (temps s) \<Longrightarrow>
    complete_all_move (cp_w s) c temp = Some w' \<Longrightarrow>
    cp_step c s (s\<lparr>cp_w := w', temps := temp # temps s, flooded := True\<rparr>)"
| all_wake: "temp \<in> set (temps s) \<Longrightarrow> complete_all_wake (cp_w s) c temp = Some w' \<Longrightarrow>
    cp_step c s (s\<lparr>cp_w := w', temps := remove1 temp (temps s)\<rparr>)"

subsection \<open>The operations branch by branch\<close>

definition upd_done :: "cpw \<Rightarrow> addr \<Rightarrow> completion_t \<Rightarrow> int \<Rightarrow> cpw" where
  "upd_done w c C d = w\<lparr>comps := (comps w)(c \<mapsto> C\<lparr>c_done := d\<rparr>)\<rparr>"

definition take_one :: "int \<Rightarrow> int" where
  "take_one d = (if 0 < d \<and> d \<noteq> MAX_COMPLETIONS then d - 1 else d)"

lemma upd_done_simps [simp]:
  "c_tq (upd_done w c C d) = c_tq w"
  "c \<noteq> NULL \<Longrightarrow> deref (comps (upd_done w c C d)) c = Some (C\<lparr>c_done := d\<rparr>)"
  by (simp_all add: upd_done_def)

lemma upd_done_same: "deref (comps w) c = Some C \<Longrightarrow> upd_done w c C (c_done C) = w"
  by (cases w) (auto simp: upd_done_def deref_def split: if_splits)

lemma set_comp_done: "deref (comps w) c = Some C \<Longrightarrow> set_comp w c (\<lambda>C. C\<lparr>c_done := f (c_done C)\<rparr>) = Some (upd_done w c C (f (c_done C)))"
  by (simp add: set_comp_def modify_Some upd_done_def)

lemma try_wait_eq:
  assumes "deref (comps w) c = Some C"
  shows "i_try_wait_for_completion w c = Some (0 < c_done C, upd_done w c C (take_one (c_done C)))"
  using assms upd_done_same [OF assms] set_comp_done [OF assms, of "\<lambda>d. d - 1"]
  by (auto simp: i_try_wait_for_completion_def take_one_def)

lemma do_wake_ok:
  assumes C: "deref (comps w) c = Some C" and sl: "sleepers (c_tq w) Qs xs" and Q: "Qs (c_queue C) = Some ns"
  shows "\<exists>q. i_completion_do_wake w c = Some (w\<lparr>c_tq := q\<rparr>) \<and> sleepers q (Qs(c_queue C \<mapsto> tl ns)) xs \<and>
    (\<forall>m. node_space q m = node_space (c_tq w) m)"
proof (cases ns)
  case Nil
  then show ?thesis
    using C sl Q sleepers_size [OF sl Q]
    by (intro exI [of _ "c_tq w"]) (simp add: i_completion_do_wake_def fun_upd_idem)
next
  case (Cons n ms)
  then obtain q t where "tq_wakeup (c_tq w) (c_queue C) 0 0 = Some (Inr t, q)"
    "sleepers q (Qs(c_queue C \<mapsto> ms)) xs" "\<forall>m. node_space q m = node_space (c_tq w) m"
    using sleepers_wake [OF sl, of "c_queue C" n ms] Q by auto
  then show ?thesis
    using C sleepers_size [OF sl Q] Cons by (intro exI [of _ q]) (simp add: i_completion_do_wake_def)
qed

subsection \<open>Invariant\<close>

definition cp_ok :: "cpw \<Rightarrow> addr \<Rightarrow> completion_t \<Rightarrow> (addr \<rightharpoonup> addr list) \<Rightarrow> (addr \<times> addr) list \<Rightarrow> addr list \<Rightarrow> bool" where
  "cp_ok w c C Qs xs ts \<longleftrightarrow> deref (comps w) c = Some C \<and> sleepers (c_tq w) Qs xs \<and>
     dom Qs = insert (c_queue C) (set ts) \<and> c_queue C \<notin> set ts \<and> distinct ts \<and>
     0 \<le> c_done C \<and> c_done C \<le> MAX_COMPLETIONS"

text \<open>While completions are left, a thread that waits in the queue is not the only one asleep.\<close>

definition cp_live :: "completion_t \<Rightarrow> (addr \<rightharpoonup> addr list) \<Rightarrow> (addr \<times> addr) list \<Rightarrow> bool" where
  "cp_live C Qs xs \<longleftrightarrow> (0 < c_done C \<and> Qs (c_queue C) \<noteq> Some [] \<longrightarrow>
     (\<exists>x\<in>set xs. snd x \<notin> set (the (Qs (c_queue C)))))"

definition cp_credit :: "cp_sys \<Rightarrow> completion_t \<Rightarrow> bool" where
  "cp_credit s C \<longleftrightarrow> (\<not> flooded s \<and> int (completed s) < MAX_COMPLETIONS \<longrightarrow>
     c_done C + int (taken s) \<le> int (completed s))"

definition cp_rel :: "addr \<Rightarrow> cp_sys \<Rightarrow> completion_t \<Rightarrow> (addr \<rightharpoonup> addr list) \<Rightarrow> bool" where
  "cp_rel c s C Qs \<longleftrightarrow> cp_ok (cp_w s) c C Qs (c_asleep s) (temps s) \<and> cp_live C Qs (c_asleep s) \<and> cp_credit s C"

definition cp_inv :: "addr \<Rightarrow> cp_sys \<Rightarrow> bool" where
  "cp_inv c s \<longleftrightarrow> (\<exists>C Qs. cp_rel c s C Qs)"

lemma cp_okD:
  assumes "cp_ok w c C Qs xs ts"
  shows "deref (comps w) c = Some C" "c \<noteq> NULL" "sleepers (c_tq w) Qs xs"
    "dom Qs = insert (c_queue C) (set ts)" "c_queue C \<notin> set ts" "distinct ts"
    "0 \<le> c_done C" "c_done C \<le> MAX_COMPLETIONS"
  using assms by (auto simp: cp_ok_def)

lemma cp_ok_queue:
  assumes "cp_ok w c C Qs xs ts"
  obtains ns where "Qs (c_queue C) = Some ns"
  using cp_okD(4) [OF assms] by (metis domD insertI1)

lemma cp_ok_upd:
  assumes ok: "cp_ok w c C Qs xs ts" and d: "0 \<le> d" "d \<le> MAX_COMPLETIONS"
    and sl: "sleepers q (Qs(c_queue C \<mapsto> ns)) ys"
  shows "cp_ok ((upd_done w c C d)\<lparr>c_tq := q\<rparr>) c (C\<lparr>c_done := d\<rparr>) (Qs(c_queue C \<mapsto> ns)) ys ts"
  using cp_okD [OF ok] d sl by (auto simp: cp_ok_def upd_done_def)

lemma cp_live_woken:
  assumes "sleepers w Qs xs" "Qs (c_queue C) = Some ns"
  shows "cp_live C (Qs(c_queue C \<mapsto> tl ns)) xs"
proof (cases ns)
  case (Cons n ms)
  then have "queued Qs n" using assms(2) by (force simp: queued_def)
  then have "n \<in> snd ` set xs" using assms(1) by (simp add: sleepers_def)
  moreover have "n \<notin> set ms" using sleepers_distinct [OF assms] Cons by simp
  ultimately show ?thesis using Cons by (auto simp: cp_live_def)
qed (simp add: cp_live_def)

lemma completion_loop_ok:
  assumes ok: "cp_ok w c C Qs xs ts" and t: "t \<noteq> NULL" and n: "node_space (c_tq w) n" "n \<notin> snd ` set xs"
  shows "\<exists>w' Qs'. completion_loop w t c n = Some (0 < c_done C, w') \<and>
    cp_ok w' c (C\<lparr>c_done := take_one (c_done C)\<rparr>) Qs' (if 0 < c_done C then xs else (t, n) # xs) ts \<and>
    cp_live (C\<lparr>c_done := take_one (c_done C)\<rparr>) Qs' (if 0 < c_done C then xs else (t, n) # xs)"
proof -
  note S = cp_okD [OF ok]
  obtain ns where Q: "Qs (c_queue C) = Some ns" by (rule cp_ok_queue [OF ok])
  define d where "d = take_one (c_done C)"
  have d: "0 \<le> d" "d \<le> MAX_COMPLETIONS" "c_done C \<le> 0 \<Longrightarrow> d = c_done C"
    using S(7,8) by (auto simp: d_def take_one_def)
  have e: "i_try_wait_for_completion w c = Some (0 < c_done C, upd_done w c C d)"
    using try_wait_eq [OF S(1)] by (simp add: d_def)
  have C': "deref (comps (upd_done w c C d)) c = Some (C\<lparr>c_done := d\<rparr>)" using S(2) by simp
  consider "c_done C \<le> 0" | "0 < c_done C" "0 < d" | "0 < c_done C" "d = 0" using d by linarith
  then show ?thesis
  proof cases
    case 1
    obtain q where q: "tq_wait_begin (c_tq w) t (c_queue C) n THREAD_UNINTERRUPTIBLE = Some (0, q)"
      "sleepers q (Qs(c_queue C \<mapsto> ns @ [n])) ((t, n) # xs)"
      using sleepers_begin [OF S(3) Q n t] by blast
    then have "completion_loop w t c n = Some (0 < c_done C, (upd_done w c C d)\<lparr>c_tq := q\<rparr>)"
      using 1 e C' by (simp add: completion_loop_def)
    then show ?thesis
      using cp_ok_upd [OF ok d(1,2) q(2)] 1 d(3) by (auto simp: d_def [symmetric] cp_live_def)
  next
    case 2
    obtain q where q: "i_completion_do_wake (upd_done w c C d) c = Some ((upd_done w c C d)\<lparr>c_tq := q\<rparr>)"
      "sleepers q (Qs(c_queue C \<mapsto> tl ns)) xs"
      using do_wake_ok [OF C', of Qs xs ns] S(3) Q by auto
    then have "completion_loop w t c n = Some (0 < c_done C, (upd_done w c C d)\<lparr>c_tq := q\<rparr>)"
      using 2 e C' by (simp add: completion_loop_def)
    then show ?thesis
      using cp_ok_upd [OF ok d(1,2) q(2)] cp_live_woken [OF S(3), of "C\<lparr>c_done := d\<rparr>" ns] Q 2
      by (auto simp: d_def [symmetric])
  next
    case 3
    have "completion_loop w t c n = Some (0 < c_done C, (upd_done w c C d)\<lparr>c_tq := c_tq w\<rparr>)"
      using 3 e C' by (simp add: completion_loop_def upd_done_def)
    moreover have "Qs(c_queue C \<mapsto> ns) = Qs" using Q by auto
    ultimately show ?thesis
      using cp_ok_upd [OF ok d(1,2), of "c_tq w" ns xs] S(3) 3
      by (auto simp: d_def [symmetric] cp_live_def)
  qed
qed

lemma cp_invI:
  "cp_ok (cp_w s) c C Qs (c_asleep s) (temps s) \<Longrightarrow> cp_live C Qs (c_asleep s) \<Longrightarrow> cp_credit s C \<Longrightarrow> cp_inv c s"
  by (auto simp: cp_inv_def cp_rel_def)

lemma cp_inv_loop:
  assumes ok: "cp_ok w c C Qs xs (temps s)" and cr: "cp_credit s C" and t: "t \<noteq> NULL"
    and n: "node_space (c_tq w) n" "n \<notin> snd ` set xs" and e: "completion_loop w t c n = Some (r, w')"
  shows "cp_inv c (s\<lparr>cp_w := w', c_asleep := (if r then xs else (t, n) # xs), taken := taken s + of_bool r\<rparr>)"
proof -
  let ?C = "C\<lparr>c_done := take_one (c_done C)\<rparr>" and ?xs = "if r then xs else (t, n) # xs"
  obtain Qs' where Q: "r = (0 < c_done C)" "cp_ok w' c ?C Qs' ?xs (temps s)" "cp_live ?C Qs' ?xs"
    using completion_loop_ok [OF ok t n] e by auto
  have "cp_credit (s\<lparr>cp_w := w', c_asleep := ?xs, taken := taken s + of_bool r\<rparr>) ?C"
    using cr cp_okD(7,8) [OF ok] Q(1) by (auto simp: cp_credit_def take_one_def)
  then show ?thesis using Q(2,3) by (intro cp_invI [where C = ?C and Qs = Qs']) simp_all
qed

text \<open>
  A thread leaves \<open>tq_wait\<close> when its node has left the queues, or still sits in the queue of the
  completion; a node in the queue of a \<open>complete_all\<close> fails the assertion in \<open>tq_wait\<close>.
\<close>

lemma cp_ok_resume:
  assumes ok: "cp_ok w c C Qs xs ts" and x: "(t, n) \<in> set xs"
    and e: "tq_wait_end (c_tq w) (c_queue C) n = Some (ret, d, q)"
  shows "\<exists>Qs'. cp_ok (w\<lparr>c_tq := q\<rparr>) c C Qs' (remove1 (t, n) xs) ts \<and> node_space q n \<and> n \<notin> snd ` set (remove1 (t, n) xs)"
proof -
  note S = cp_okD [OF ok]
  have sp: "node_space (c_tq w) n" by (rule sleepers_space [OF S(3) x])
  have dn: "distinct (map snd xs)" using S(3) by (simp add: sleepers_def)
  have "snd y \<noteq> n" if "y \<in> set (remove1 (t, n) xs)" for y
    using remove1_map_neq [OF dn x that] by simp
  then have fr: "n \<notin> snd ` set (remove1 (t, n) xs)" by blast
  show ?thesis
  proof (cases "queued Qs n")
    case False
    then have "q = c_tq w" using sleepers_woken [OF S(3) x, of "c_queue C"] e by auto
    then show ?thesis
      using sleepers_remove [OF S(3) x] False S sp fr by (intro exI [of _ Qs]) (auto simp: cp_ok_def)
  next
    case True
    then obtain p ns where p: "Qs p = Some ns" "n \<in> set ns" by (auto simp: queued_def)
    have tqs: "tqs_ok (c_tq w) Qs" using S(3) by (simp add: sleepers_def)
    have pq: "p = c_queue C" using tq_wait_end_elsewhere [OF tqs p] e by force
    obtain as bs where ab: "ns = as @ n # bs" using p(2) by (meson split_list)
    have "Qs (c_queue C) = Some (as @ n # bs)" using p(1) pq ab by simp
    from sleepers_cancel [OF S(3) x this] have "sleepers q (Qs(c_queue C \<mapsto> as @ bs)) (remove1 (t, n) xs)"
      "node_space q n" using e sp by auto
    then show ?thesis
      using S fr by (intro exI [of _ "Qs(c_queue C \<mapsto> as @ bs)"]) (auto simp: cp_ok_def)
  qed
qed

lemma cp_inv_enter:
  assumes R: "cp_rel c s C Qs" and t: "t \<noteq> NULL" and n: "node_space (c_tq (cp_w s)) n" "n \<notin> snd ` set (c_asleep s)"
    and e: "wait_for_completion_enter (cp_w s) t c n = Some (r, w')"
  shows "cp_inv c (s\<lparr>cp_w := w', c_asleep := (if r then c_asleep s else (t, n) # c_asleep s), taken := taken s + of_bool r\<rparr>)"
proof -
  have ok: "cp_ok (cp_w s) c C Qs (c_asleep s) (temps s)" "cp_credit s C" using R by (auto simp: cp_rel_def)
  have "completion_loop (cp_w s) t c n = Some (r, w')"
    using e t cp_okD(2) [OF ok(1)] by (simp add: wait_for_completion_enter_def)
  then show ?thesis by (rule cp_inv_loop [OF ok t n])
qed

lemma cp_inv_resume:
  assumes R: "cp_rel c s C Qs" and x: "(t, n) \<in> set (c_asleep s)" and t: "t \<noteq> NULL"
    and e: "wait_for_completion_resume (cp_w s) t c n = Some (r, w')"
  shows "cp_inv c (s\<lparr>cp_w := w', c_asleep := (if r then remove1 (t, n) (c_asleep s) else (t, n) # remove1 (t, n) (c_asleep s)),
    taken := taken s + of_bool r\<rparr>)"
proof -
  have ok: "cp_ok (cp_w s) c C Qs (c_asleep s) (temps s)" "cp_credit s C" using R by (auto simp: cp_rel_def)
  obtain ret d q where q: "tq_wait_end (c_tq (cp_w s)) (c_queue C) n = Some (ret, d, q)"
    "completion_loop ((cp_w s)\<lparr>c_tq := q\<rparr>) t c n = Some (r, w')"
    using e cp_okD(1) [OF ok(1)] by (auto simp: wait_for_completion_resume_def bind_eq_Some_conv)
  obtain Qs' where "cp_ok ((cp_w s)\<lparr>c_tq := q\<rparr>) c C Qs' (remove1 (t, n) (c_asleep s)) (temps s)"
    "node_space q n" "n \<notin> snd ` set (remove1 (t, n) (c_asleep s))"
    using cp_ok_resume [OF ok(1) x q(1)] by blast
  then show ?thesis using cp_inv_loop [OF _ ok(2) t _ _ q(2)] by auto
qed

lemma cp_ok_done:
  "cp_ok w c C Qs xs ts \<Longrightarrow> 0 \<le> d \<Longrightarrow> d \<le> MAX_COMPLETIONS \<Longrightarrow> cp_ok (upd_done w c C d) c (C\<lparr>c_done := d\<rparr>) Qs xs ts"
  by (auto simp: cp_ok_def upd_done_def)

lemma cp_live_le: "cp_live C Qs xs \<Longrightarrow> d \<le> c_done C \<Longrightarrow> cp_live (C\<lparr>c_done := d\<rparr>) Qs xs"
  by (auto simp: cp_live_def)

lemma cp_inv_try:
  assumes R: "cp_rel c s C Qs" and e: "try_wait_for_completion (cp_w s) c = Some (r, w')"
  shows "cp_inv c (s\<lparr>cp_w := w', taken := taken s + of_bool r\<rparr>)"
proof -
  have ok: "cp_ok (cp_w s) c C Qs (c_asleep s) (temps s)" "cp_live C Qs (c_asleep s)" "cp_credit s C"
    using R by (auto simp: cp_rel_def)
  note S = cp_okD [OF ok(1)]
  let ?d = "take_one (c_done C)"
  have r: "r = (0 < c_done C)" "w' = upd_done (cp_w s) c C ?d"
    using e S(2) try_wait_eq [OF S(1)] by (auto simp: try_wait_for_completion_def)
  have d: "0 \<le> ?d" "?d \<le> c_done C" using S(7) by (auto simp: take_one_def)
  have "cp_credit (s\<lparr>cp_w := w', taken := taken s + of_bool r\<rparr>) (C\<lparr>c_done := ?d\<rparr>)"
    using ok(3) S(7,8) r(1) by (auto simp: cp_credit_def take_one_def)
  then show ?thesis
    using cp_ok_done [OF ok(1) d(1)] d(2) S(8) cp_live_le [OF ok(2) d(2)] r(2)
    by (intro cp_invI [where C = "C\<lparr>c_done := ?d\<rparr>" and Qs = Qs]) simp_all
qed

lemma cp_inv_reinit:
  assumes R: "cp_rel c s C Qs" and e: "completion_reinit (cp_w s) c = Some w'"
  shows "cp_inv c (s\<lparr>cp_w := w'\<rparr>)"
proof -
  have ok: "cp_ok (cp_w s) c C Qs (c_asleep s) (temps s)" "cp_live C Qs (c_asleep s)" "cp_credit s C"
    using R by (auto simp: cp_rel_def)
  note S = cp_okD [OF ok(1)]
  have w': "w' = upd_done (cp_w s) c C 0"
    using e set_comp_done [OF S(1), of "\<lambda>_. 0"] by (simp add: completion_reinit_def)
  have "cp_rel c (s\<lparr>cp_w := w'\<rparr>) (C\<lparr>c_done := 0\<rparr>) Qs"
    using cp_ok_done [OF ok(1), of 0] cp_live_le [OF ok(2) S(7)] ok(3) S(7,8)
    by (auto simp: cp_rel_def w' cp_credit_def MAX_COMPLETIONS_def)
  then show ?thesis by (auto simp: cp_inv_def)
qed

lemma cp_inv_complete:
  assumes R: "cp_rel c s C Qs" and e: "complete (cp_w s) c = Some w'"
  shows "cp_inv c (s\<lparr>cp_w := w', completed := completed s + 1\<rparr>)"
proof -
  have ok: "cp_ok (cp_w s) c C Qs (c_asleep s) (temps s)" "cp_credit s C" using R by (auto simp: cp_rel_def)
  note S = cp_okD [OF ok(1)]
  obtain ns where Q: "Qs (c_queue C) = Some ns" by (rule cp_ok_queue [OF ok(1)])
  define d where "d = (if c_done C \<noteq> MAX_COMPLETIONS then c_done C + 1 else c_done C)"
  let ?w = "upd_done (cp_w s) c C d"
  have d: "0 \<le> d" "d \<le> MAX_COMPLETIONS" using S(7,8) by (auto simp: d_def)
  have e': "i_completion_do_wake ?w c = Some w'"
    using e S(1,2) upd_done_same [OF S(1)] set_comp_done [OF S(1), of "\<lambda>d. d + 1"]
    by (auto simp: complete_def d_def split: if_splits)
  obtain q where q: "w' = ?w\<lparr>c_tq := q\<rparr>" "sleepers q (Qs(c_queue C \<mapsto> tl ns)) (c_asleep s)"
    using do_wake_ok [of ?w c "C\<lparr>c_done := d\<rparr>" Qs "c_asleep s" ns] S(2,3) Q e' by auto
  have "cp_credit (s\<lparr>cp_w := w', completed := completed s + 1\<rparr>) (C\<lparr>c_done := d\<rparr>)"
    using ok(2) by (auto simp: cp_credit_def d_def)
  then show ?thesis
    using cp_ok_upd [OF ok(1) d q(2)] cp_live_woken [OF S(3), of "C\<lparr>c_done := d\<rparr>" ns] Q
    by (intro cp_invI [where C = "C\<lparr>c_done := d\<rparr>" and Qs = "Qs(c_queue C \<mapsto> tl ns)"]) (simp_all add: q(1))
qed

lemma cp_inv_move:
  assumes R: "cp_rel c s C Qs" and sp: "temp_space (cp_w s) c temp" and nt: "temp \<notin> set (temps s)"
    and e: "complete_all_move (cp_w s) c temp = Some w'"
  shows "cp_inv c (s\<lparr>cp_w := w', temps := temp # temps s, flooded := True\<rparr>)"
proof -
  have ok: "cp_ok (cp_w s) c C Qs (c_asleep s) (temps s)" using R by (auto simp: cp_rel_def)
  note S = cp_okD [OF ok]
  obtain ns where Q: "Qs (c_queue C) = Some ns" by (rule cp_ok_queue [OF ok])
  have ne: "temp \<noteq> c_queue C" using sp S(1) by (auto simp: temp_space_def)
  have new: "temp \<notin> dom Qs" using S(4) nt ne by simp
  obtain q where q: "tq_init (c_tq (cp_w s)) temp (Some ''completion_temp'') NULL = Some q"
    "sleepers q (Qs(temp \<mapsto> [])) (c_asleep s)"
    using sleepers_queue_add [OF S(3) new, of "Some ''completion_temp''" NULL] sp by (auto simp: temp_space_def)
  obtain q1 where q1: "tq_bulk_move q temp (c_queue C) = Some (0, q1)"
    "sleepers q1 (Qs(temp \<mapsto> ns, c_queue C \<mapsto> [])) (c_asleep s)"
    using sleepers_bulk_move [OF q(2), of temp "c_queue C" ns] Q ne by auto
  have w': "w' = (upd_done (cp_w s) c C MAX_COMPLETIONS)\<lparr>c_tq := q1\<rparr>"
    using e S(1,2) q(1) q1(1) by (simp add: complete_all_move_def set_comp_def modify_Some upd_done_def)
  have "cp_ok w' c (C\<lparr>c_done := MAX_COMPLETIONS\<rparr>) (Qs(temp \<mapsto> ns, c_queue C \<mapsto> [])) (c_asleep s) (temp # temps s)"
    using S nt ne q1(2) by (auto simp: cp_ok_def w' upd_done_def MAX_COMPLETIONS_def)
  then show ?thesis
    by (intro cp_invI [where C = "C\<lparr>c_done := MAX_COMPLETIONS\<rparr>" and Qs = "Qs(temp \<mapsto> ns, c_queue C \<mapsto> [])"])
      (simp_all add: cp_live_def cp_credit_def)
qed

lemma cp_inv_wake:
  assumes R: "cp_rel c s C Qs" and tm: "temp \<in> set (temps s)"
    and e: "complete_all_wake (cp_w s) c temp = Some w'"
  shows "cp_inv c (s\<lparr>cp_w := w', temps := remove1 temp (temps s)\<rparr>)"
proof -
  have ok: "cp_ok (cp_w s) c C Qs (c_asleep s) (temps s)" "cp_live C Qs (c_asleep s)" "cp_credit s C"
    using R by (auto simp: cp_rel_def)
  note S = cp_okD [OF ok(1)]
  have ne: "c_queue C \<noteq> temp" using S(5) tm by auto
  have "temp \<in> dom Qs" using S(4) tm by simp
  then obtain ns where Q: "Qs temp = Some ns" by blast
  have tqs: "tqs_ok (c_tq (cp_w s)) Qs" using S(3) by (simp add: sleepers_def)
  obtain T where T: "deref (tw_queues (c_tq (cp_w s))) temp = Some T" "counter T = int (length ns)"
    using tq_ok_queue [OF tqs_okD [OF tqs Q]] by auto
  obtain q where q: "w' = (cp_w s)\<lparr>c_tq := q\<rparr>" "sleepers q (Qs(temp \<mapsto> [])) (c_asleep s)"
  proof (cases "ns = []")
    case True
    then have "w' = (cp_w s)\<lparr>c_tq := c_tq (cp_w s)\<rparr>" "Qs(temp \<mapsto> []) = Qs"
      using e S(2) T Q by (auto simp: complete_all_wake_def)
    then show thesis using that [of "c_tq (cp_w s)"] S(3) by simp
  next
    case False
    obtain q where "tq_wakeup_all (c_tq (cp_w s)) temp 0 0 = Some (int (length ns), q)"
      "sleepers q (Qs(temp \<mapsto> [])) (c_asleep s)" using sleepers_wake_all [OF S(3) Q] by blast
    moreover from this have "w' = (cp_w s)\<lparr>c_tq := q\<rparr>"
      using e S(2) T False by (simp add: complete_all_wake_def)
    ultimately show thesis using that by blast
  qed
  have "sleepers q (Qs(temp := None)) (c_asleep s)" using sleepers_queue_drop [OF q(2), of temp] by simp
  then have "cp_ok w' c C (Qs(temp := None)) (c_asleep s) (remove1 temp (temps s))"
    using S ne by (auto simp: cp_ok_def q(1) set_remove1_eq)
  then show ?thesis
    using ok(2,3) ne by (intro cp_invI [where C = C and Qs = "Qs(temp := None)"])
      (simp_all add: cp_live_def cp_credit_def)
qed

interpretation cp_sys: step_invariant "cp_step c" "cp_inv c"
proof unfold_locales
  fix s s'
  assume "cp_inv c s" and st: "cp_step c s s'"
  then obtain C Qs where R: "cp_rel c s C Qs" by (auto simp: cp_inv_def)
  from st show "cp_inv c s'"
  proof cases
    case (wait_done t n w')
    then show ?thesis using cp_inv_enter [OF R, of t n True w'] by simp
  next
    case (wait_sleep t n w')
    then show ?thesis using cp_inv_enter [OF R, of t n False w'] by simp
  next
    case (resume_done t n w')
    then show ?thesis using cp_inv_resume [OF R, of t n True w'] by simp
  next
    case (resume_sleep t n w')
    then show ?thesis using cp_inv_resume [OF R, of t n False w'] by simp
  next
    case (try_wait r w')
    then show ?thesis using cp_inv_try [OF R, of r w'] by simp
  next
    case (reinit w')
    then show ?thesis using cp_inv_reinit [OF R, of w'] by simp
  next
    case (complete w')
    then show ?thesis using cp_inv_complete [OF R, of w'] by simp
  next
    case (all_move temp w')
    then show ?thesis using cp_inv_move [OF R, of temp w'] by simp
  next
    case (all_wake temp w')
    then show ?thesis using cp_inv_wake [OF R, of temp w'] by simp
  qed
qed

text \<open>The state right after \<open>completion_init\<close>.\<close>

definition comp_space :: "cpw \<Rightarrow> addr \<Rightarrow> bool" where
  "comp_space w c \<longleftrightarrow> (\<exists>C. deref (comps w) c = Some C \<and> alloc (tw_list (c_tq w)) (c_queue C) \<and>
     alloc (tw_queues (c_tq w)) (c_queue C) \<and> (\<forall>n. alloc (tw_nodes (c_tq w)) n \<longrightarrow> list_entry n \<noteq> c_queue C))"

definition cp_start :: "cpw \<Rightarrow> cp_sys" where
  "cp_start w = \<lparr>cp_w = w, c_asleep = [], temps = [], completed = 0, taken = 0, flooded = False\<rparr>"

lemma completion_init_ok:
  assumes "comp_space w c"
  shows "\<exists>w0. completion_init w c = Some w0 \<and> cp_inv c (cp_start w0) \<and>
    (\<forall>n. node_space (c_tq w) n \<longrightarrow> node_space (c_tq w0) n)"
proof -
  obtain C where C: "deref (comps w) c = Some C" "alloc (tw_list (c_tq w)) (c_queue C)"
    "alloc (tw_queues (c_tq w)) (c_queue C)" "\<And>n. alloc (tw_nodes (c_tq w)) n \<Longrightarrow> list_entry n \<noteq> c_queue C"
    using assms by (auto simp: comp_space_def)
  have n: "c \<noteq> NULL" using C(1) by auto
  have "sleepers (c_tq w) (\<lambda>_. None) []" by (simp add: sleepers_def queued_def)
  from sleepers_queue_add [OF this _ C(2,3,4), of "Some ''completion_queue''" "c_lock C"]
  obtain q where q: "tq_init (c_tq w) (c_queue C) (Some ''completion_queue'') (c_lock C) = Some q"
    "sleepers q [c_queue C \<mapsto> []] []" "\<forall>m. node_space q m = node_space (c_tq w) m" by auto
  let ?w0 = "(upd_done w c C 0)\<lparr>c_tq := q\<rparr>"
  have "completion_init w c = Some ?w0"
    using n C(1) q(1) by (simp add: completion_init_def set_comp_def modify_Some upd_done_def)
  moreover have "cp_inv c (cp_start ?w0)"
    using q(2) n by (intro cp_invI [where C = "C\<lparr>c_done := 0\<rparr>" and Qs = "[c_queue C \<mapsto> []]"])
      (simp_all add: cp_start_def cp_ok_def upd_done_def cp_live_def cp_credit_def MAX_COMPLETIONS_def)
  ultimately show ?thesis using q(3) by auto
qed

lemma cp_run:
  assumes "comp_space w c" "completion_init w c = Some w0" "(cp_step c)\<^sup>*\<^sup>* (cp_start w0) s"
  obtains C Qs where "cp_rel c s C Qs"
  using cp_sys.run_preserves [OF assms(3)] completion_init_ok [OF assms(1)] assms(2) by (auto simp: cp_inv_def)

text \<open>A woken sleeper that finds a completion returns from its call.\<close>

lemma cp_woken_returns:
  assumes ok: "cp_ok w c C Qs xs ts" and x: "(t, n) \<in> set xs" "\<not> queued Qs n" and d: "0 < c_done C"
  shows "\<exists>w'. wait_for_completion_resume w t c n = Some (True, w')"
proof -
  note S = cp_okD [OF ok]
  obtain ns where Q: "Qs (c_queue C) = Some ns" by (rule cp_ok_queue [OF ok])
  have e: "wait_for_completion_resume w t c n = completion_loop w t c n"
    using sleepers_woken [OF S(3) x, of "c_queue C"] S(1) by (auto simp: wait_for_completion_resume_def)
  have "\<exists>w'. i_completion_do_wake (upd_done w c C (take_one (c_done C))) c = Some w'"
    using do_wake_ok [of "upd_done w c C (take_one (c_done C))" c "C\<lparr>c_done := take_one (c_done C)\<rparr>" Qs xs ns] S(2,3) Q
    by auto
  then show ?thesis
    using try_wait_eq [OF S(1)] S(2) d by (auto simp: e completion_loop_def)
qed

lemma cp_live_progress:
  assumes R: "cp_rel c s C Qs" and d: "0 < c_done C" "Qs (c_queue C) \<noteq> Some []"
  shows "\<exists>(t, n) \<in> set (c_asleep s). (\<exists>w'. wait_for_completion_resume (cp_w s) t c n = Some (True, w')) \<or>
    (\<exists>temp \<in> set (temps s). n \<in> set (the (Qs temp)))"
proof -
  have ok: "cp_ok (cp_w s) c C Qs (c_asleep s) (temps s)" and lv: "cp_live C Qs (c_asleep s)"
    using R by (auto simp: cp_rel_def)
  obtain t n where x: "(t, n) \<in> set (c_asleep s)" "n \<notin> set (the (Qs (c_queue C)))"
    using lv d by (auto simp: cp_live_def)
  show ?thesis
  proof (cases "queued Qs n")
    case False
    then show ?thesis using cp_woken_returns [OF ok x(1) _ d(1)] by (intro bexI [OF _ x(1)]) simp
  next
    case True
    then obtain p ns where p: "Qs p = Some ns" "n \<in> set ns" by (auto simp: queued_def)
    then have "p \<noteq> c_queue C" using x(2) by auto
    moreover have "p \<in> dom Qs" using p by auto
    ultimately have "p \<in> set (temps s)" using cp_okD(4) [OF ok] by simp
    then show ?thesis using p by (intro bexI [OF _ x(1)]) (auto intro!: bexI [of _ p])
  qed
qed

subsection \<open>Properties\<close>


text \<open>
  C14. A wait never returns without a completion: as long as \<open>complete_all\<close> has not been called and
  \<open>complete\<close> fewer than \<open>MAX_COMPLETIONS\<close> times, the waits that returned and the completions left
  are together at most the calls of \<open>complete\<close>, and the counter stays in its range.
\<close>

theorem completion_credits:
  assumes "comp_space w c" and "completion_init w c = Some w0" and "(cp_step c)\<^sup>*\<^sup>* (cp_start w0) s"
    and "\<not> flooded s" and "int (completed s) < MAX_COMPLETIONS"
  shows "\<exists>C. deref (comps (cp_w s)) c = Some C \<and> 0 \<le> c_done C \<and> c_done C < MAX_COMPLETIONS \<and>
    c_done C + int (taken s) \<le> int (completed s)"
proof -
  obtain C Qs where R: "cp_rel c s C Qs" by (rule cp_run [OF assms(1-3)])
  then have "cp_ok (cp_w s) c C Qs (c_asleep s) (temps s)" "cp_credit s C" by (simp_all add: cp_rel_def)
  then show ?thesis using cp_okD(1,7) assms(4,5) by (fastforce simp: cp_credit_def)
qed

text \<open>
  \<open>completion_done\<close> tests the queue, not the counter: it answers true on a completion nobody has
  completed yet.
\<close>

lemma completion_done_tests_queue:
  assumes "comp_space w c" "completion_init w c = Some w0"
  shows "completion_done w0 c = Some True \<and> (\<exists>w1. try_wait_for_completion w0 c = Some (False, w1))"
proof -
  have "(cp_step c)\<^sup>*\<^sup>* (cp_start w0) (cp_start w0)" by simp
  then obtain C Qs where "cp_rel c (cp_start w0) C Qs" by (rule cp_run [OF assms])
  then have ok: "cp_ok w0 c C Qs [] []" "cp_credit (cp_start w0) C" by (auto simp: cp_rel_def cp_start_def)
  note S = cp_okD [OF ok(1)]
  obtain ns where Q: "Qs (c_queue C) = Some ns" by (rule cp_ok_queue [OF ok(1)])
  have "queued Qs m" if "m \<in> set ns" for m using Q that by (auto simp: queued_def)
  then have "ns = []" using S(3) by (cases ns) (auto simp: sleepers_def)
  moreover have "c_done C \<le> 0" using ok(2) by (simp add: cp_credit_def cp_start_def MAX_COMPLETIONS_def)
  ultimately show ?thesis
    using S(1,2) sleepers_size [OF S(3) Q] try_wait_eq [OF S(1)]
    by (simp add: completion_done_def try_wait_for_completion_def)
qed

text \<open>A completion at 8 whose queue is the one of \<^const>\<open>demo_tqw\<close>.\<close>

definition demo_cpw :: cpw where
  "demo_cpw = \<lparr>c_tq = demo_tqw, comps = [8 \<mapsto> \<lparr>c_done = 0, c_queue = 16, c_lock = 8\<rparr>]\<rparr>"

lemma demo_cpw_space: "comp_space demo_cpw 8" "node_space (c_tq demo_cpw) 64"
  using demo_tqw_facts by (auto simp: comp_space_def demo_cpw_def deref_def alloc_def demo_tqw_def
      list_entry_def split: if_splits)

lemma complete_total:
  assumes "cp_rel c s C Qs"
  shows "\<exists>w'. complete (cp_w s) c = Some w'"
proof -
  have ok: "cp_ok (cp_w s) c C Qs (c_asleep s) (temps s)" using assms by (simp add: cp_rel_def)
  note S = cp_okD [OF ok]
  obtain ns where Q: "Qs (c_queue C) = Some ns" by (rule cp_ok_queue [OF ok])
  show ?thesis
    using S(1,2) do_wake_ok [OF S(1,3) Q] set_comp_done [OF S(1), of "\<lambda>d. d + 1"] Q S(3)
      do_wake_ok [of "upd_done (cp_w s) c C (c_done C + 1)" c "C\<lparr>c_done := c_done C + 1\<rparr>" Qs "c_asleep s" ns]
    by (auto simp: complete_def)
qed

lemma demo_run:
  "\<exists>w0 s. completion_init demo_cpw 8 = Some w0 \<and> (cp_step 8)\<^sup>*\<^sup>* (cp_start w0) s \<and>
    c_asleep s = [(1000, 64)] \<and> completed s = 1 \<and> \<not> flooded s"
proof -
  obtain w0 where w0: "completion_init demo_cpw 8 = Some w0" "node_space (c_tq w0) 64"
    using completion_init_ok [OF demo_cpw_space(1)] demo_cpw_space(2) by auto
  have r0: "(cp_step 8)\<^sup>*\<^sup>* (cp_start w0) (cp_start w0)" by simp
  obtain C Qs where R: "cp_rel 8 (cp_start w0) C Qs" by (rule cp_run [OF demo_cpw_space(1) w0(1) r0])
  then have ok: "cp_ok w0 8 C Qs [] []" "c_done C \<le> 0"
    by (auto simp: cp_rel_def cp_start_def cp_credit_def MAX_COMPLETIONS_def)
  obtain w1 where w1: "wait_for_completion_enter w0 1000 8 64 = Some (False, w1)"
    using completion_loop_ok [OF ok(1), of 1000 64] w0(2) ok(2) by (auto simp: wait_for_completion_enter_def)
  define s1 where "s1 = (cp_start w0)\<lparr>cp_w := w1, c_asleep := [(1000, 64)]\<rparr>"
  have st1: "cp_step 8 (cp_start w0) s1"
    using cp_step.wait_sleep [of 1000 "cp_start w0" 64 8 w1] w1 w0(2) by (simp add: s1_def cp_start_def)
  then have r1: "(cp_step 8)\<^sup>*\<^sup>* (cp_start w0) s1" by blast
  obtain C1 Qs1 where R1: "cp_rel 8 s1 C1 Qs1" by (rule cp_run [OF demo_cpw_space(1) w0(1) r1])
  obtain w2 where w2: "complete (cp_w s1) 8 = Some w2" using complete_total [OF R1] by blast
  have "cp_step 8 s1 (s1\<lparr>cp_w := w2, completed := completed s1 + 1\<rparr>)" by (rule cp_step.complete [OF w2])
  then have "(cp_step 8)\<^sup>*\<^sup>* (cp_start w0) (s1\<lparr>cp_w := w2, completed := completed s1 + 1\<rparr>)"
    using r1 by (rule rtranclp.rtrancl_into_rtrancl [rotated])
  then show ?thesis using w0(1) by (intro exI conjI) (auto simp: s1_def cp_start_def)
qed


theorem completion_credits_witness:
  "\<exists>w0 s. completion_init demo_cpw 8 = Some w0 \<and> (cp_step 8)\<^sup>*\<^sup>* (cp_start w0) s \<and> completed s = 1 \<and> taken s \<le> 1"
proof -
  obtain w0 s where s: "completion_init demo_cpw 8 = Some w0" "(cp_step 8)\<^sup>*\<^sup>* (cp_start w0) s"
    "completed s = 1" "\<not> flooded s" using demo_run by blast
  then have "taken s \<le> 1"
    using completion_credits [OF demo_cpw_space(1) s(1,2,4)] by (auto simp: MAX_COMPLETIONS_def)
  then show ?thesis using s by blast
qed

end
