(* ===== verification/Early_Alloc.thy ===== *)
theory Early_Alloc
  imports Linked_List
begin

text \<open>
  The boot-time allocator (\<open>kernel/mm/early_allocator.c\<close>). A free chunk keeps its header inside the
  free memory: \<open>chunks\<close> holds the headers, \<open>ea_list\<close> the list nodes, among them the twelve heads
  \<open>free_lists[i]\<close> at \<open>free_lists + 16 * i\<close>. Addresses and sizes are 64-bit words with the wrap-around
  of the C code; \<open>None\<close> is a failed assertion, the panic on exhausted memory, or a shift by 64.
\<close>

subsection \<open>Definitions\<close>

definition EARLYALLOC_CHUNK_MAGIC :: u64 where "EARLYALLOC_CHUNK_MAGIC = 0xEAACCCCCEAACCCCC"
definition EARLYALLOC_SMALLEST_ORDER :: int where "EARLYALLOC_SMALLEST_ORDER = 5"
definition EARLYALLOC_SMALLEST_CHUNK :: u64 where
  "EARLYALLOC_SMALLEST_CHUNK = push_bit (nat EARLYALLOC_SMALLEST_ORDER) 1"
definition EARLYALLOC_LARGEST_ORDER :: int where "EARLYALLOC_LARGEST_ORDER = 16"
definition EARLYALLOC_LARGEST_CHUNK :: u64 where
  "EARLYALLOC_LARGEST_CHUNK = push_bit (nat EARLYALLOC_LARGEST_ORDER) 1"
definition EARLYALLOC_ORDERS :: int where
  "EARLYALLOC_ORDERS = EARLYALLOC_LARGEST_ORDER - EARLYALLOC_SMALLEST_ORDER + 1"

definition EARLYALLOC_ALIGN_MASK :: "u64 \<Rightarrow> u64" where
  "EARLYALLOC_ALIGN_MASK align = align - 1"

definition EARLYALLOC_ALIGN :: "u64 \<Rightarrow> u64 \<Rightarrow> u64" where
  "EARLYALLOC_ALIGN x align = (x + EARLYALLOC_ALIGN_MASK align) AND NOT (EARLYALLOC_ALIGN_MASK align)"

record earalloc_chunk =
  ch_magic :: u64
  ch_size :: u64

record earalloc_params =
  ea_list :: list_heap
  chunks :: "addr \<rightharpoonup> earalloc_chunk"
  free_lists :: addr
  ea_current :: u64
  ea_end :: u64

text \<open>Address of \<open>free_lists[i]\<close>, and the offset of \<open>list_entry\<close> in a chunk.\<close>

definition free_list_at :: "earalloc_params \<Rightarrow> int \<Rightarrow> addr" where
  "free_list_at P i = free_lists P + 16 * of_int i"

definition chunk_entry :: "addr \<Rightarrow> addr" where "chunk_entry chunk = chunk + 16"
definition chunk_of :: "addr \<Rightarrow> addr" where "chunk_of entry = entry - 16"

function size_to_order_loop :: "u64 \<Rightarrow> int \<Rightarrow> int option" where
  "size_to_order_loop s order =
     (if order < 0 \<or> 64 \<le> order then None
      else if s > push_bit (nat order) 1 then size_to_order_loop s (order + 1)
      else Some order)"
  by pat_completeness auto
termination by (relation "measure (\<lambda>(_, order). nat (64 - order))") auto

declare size_to_order_loop.simps [simp del]

definition i_size_to_order :: "u64 \<Rightarrow> int option" where
  "i_size_to_order sz = size_to_order_loop sz 0"

text \<open>The cast in \<open>__make_chunk\<close> turns raw memory into a chunk, whatever it held before.\<close>

definition i_make_chunk :: "earalloc_params \<Rightarrow> addr \<Rightarrow> u64 \<Rightarrow> (addr \<times> earalloc_params) option" where
  "i_make_chunk P addr sz =
     (if addr = NULL then None
      else do {
        h \<leftarrow> list_entry_init ((ea_list P)(chunk_entry addr \<mapsto> \<lparr>ln_prev = NULL, ln_next = NULL\<rparr>)) (chunk_entry addr);
        Some (addr, P\<lparr>chunks := (chunks P)(addr \<mapsto> \<lparr>ch_magic = EARLYALLOC_CHUNK_MAGIC, ch_size = sz\<rparr>),
          ea_list := h\<rparr>) })"

definition i_add_chunk_to_freelist :: "earalloc_params \<Rightarrow> addr \<Rightarrow> earalloc_params option" where
  "i_add_chunk_to_freelist P chunk = do {
     c \<leftarrow> deref (chunks P) chunk;
     order \<leftarrow> i_size_to_order (ch_size c);
     let list_idx = order - EARLYALLOC_SMALLEST_ORDER;
     if chunk AND (ch_size c - 1) \<noteq> 0 then None
     else if list_idx \<ge> 0 \<and> list_idx < EARLYALLOC_ORDERS then do {
       h \<leftarrow> list_entry_push_back (ea_list P) (free_list_at P list_idx) (chunk_entry chunk);
       Some (P\<lparr>ea_list := h\<rparr>) }
     else Some P }"

text \<open>
  The inner loop of \<open>__free_region_to_chunks\<close> returns the order it stops at and the new \<open>start\<close>.
\<close>

function region_chunk :: "earalloc_params \<Rightarrow> u64 \<Rightarrow> int \<Rightarrow> (int \<times> u64 \<times> earalloc_params) option" where
  "region_chunk P start order =
     (if order \<ge> EARLYALLOC_SMALLEST_ORDER then
        (if start AND (push_bit (nat order) 1 - 1) = 0 \<and> order \<le> EARLYALLOC_LARGEST_ORDER then do {
           (chunk, P1) \<leftarrow> i_make_chunk P start (push_bit (nat order) 1);
           P2 \<leftarrow> i_add_chunk_to_freelist P1 chunk;
           Some (order, start + push_bit (nat order) 1, P2) }
         else region_chunk P start (order - 1))
      else Some (order, start, P))"
  by pat_completeness auto
termination by (relation "measure (\<lambda>(_, _, order). nat order)") (auto simp: EARLYALLOC_SMALLEST_ORDER_def)

declare region_chunk.simps [simp del]

partial_function (option) i_free_region_to_chunks ::
  "earalloc_params \<Rightarrow> u64 \<Rightarrow> u64 \<Rightarrow> earalloc_params option" where
  "i_free_region_to_chunks P start end =
     (if start < end then do {
        let remaining = end - start;
        order0 \<leftarrow> i_size_to_order remaining;
        let order = (if push_bit (nat order0) 1 > remaining then order0 - 1 else order0);
        (order', start', P1) \<leftarrow> region_chunk P start order;
        i_free_region_to_chunks P1 (if order' < EARLYALLOC_SMALLEST_ORDER then start' + 1 else start') end }
      else Some P)"

fun init_lists :: "earalloc_params \<Rightarrow> int list \<Rightarrow> earalloc_params option" where
  "init_lists P [] = Some P"
| "init_lists P (i # is) = do {
     h \<leftarrow> list_entry_init (ea_list P) (free_list_at P i);
     init_lists (P\<lparr>ea_list := h\<rparr>) is }"

definition early_allocator_init :: "earalloc_params \<Rightarrow> u64 \<Rightarrow> u64 \<Rightarrow> earalloc_params option" where
  "early_allocator_init P pa_start pa_end =
     (if \<not> (pa_start \<noteq> NULL \<and> pa_end \<noteq> NULL \<and> pa_end > pa_start) then None
      else do {
        P1 \<leftarrow> init_lists P [0..EARLYALLOC_ORDERS - 1];
        let start_aligned = EARLYALLOC_ALIGN pa_start EARLYALLOC_SMALLEST_CHUNK;
        if \<not> start_aligned < pa_end then None
        else Some (P1\<lparr>ea_current := start_aligned, ea_end := pa_end\<rparr>) })"

text \<open>The loop that halves a chunk down to the target order.\<close>

function split_chunk :: "earalloc_params \<Rightarrow> addr \<Rightarrow> int \<Rightarrow> int \<Rightarrow> earalloc_params option" where
  "split_chunk P chunk order target_order =
     (if order > target_order then do {
        let half_size = push_bit (nat (order - 1)) 1;
        (buddy, P1) \<leftarrow> i_make_chunk P (chunk + half_size) half_size;
        P2 \<leftarrow> i_add_chunk_to_freelist P1 buddy;
        cs \<leftarrow> modify (chunks P2) chunk (\<lambda>c. c\<lparr>ch_size := half_size\<rparr>);
        split_chunk (P2\<lparr>chunks := cs\<rparr>) chunk (order - 1) target_order }
      else Some P)"
  by pat_completeness auto
termination by (relation "measure (\<lambda>(_, _, order, target). nat (order - target))") auto

declare split_chunk.simps [simp del]

definition pop_chunk :: "earalloc_params \<Rightarrow> int \<Rightarrow> (addr \<times> earalloc_params) option" where
  "pop_chunk P idx = do {
     (entry, h) \<leftarrow> list_entry_pop_back (ea_list P) (free_list_at P idx);
     let chunk = chunk_of entry;
     c \<leftarrow> deref (chunks P) chunk;
     if ch_magic c = EARLYALLOC_CHUNK_MAGIC then Some (chunk, P\<lparr>ea_list := h\<rparr>) else None }"

function larger_chunk :: "earalloc_params \<Rightarrow> int \<Rightarrow> int \<Rightarrow> (addr \<times> earalloc_params) option" where
  "larger_chunk P order target_order =
     (if order \<le> EARLYALLOC_LARGEST_ORDER then do {
        let idx = order - EARLYALLOC_SMALLEST_ORDER;
        if idx \<ge> EARLYALLOC_ORDERS then Some (NULL, P)
        else do {
          empty \<leftarrow> LIST_IS_EMPTY (ea_list P) (free_list_at P idx);
          if \<not> empty then do {
            (chunk, P1) \<leftarrow> pop_chunk P idx;
            P2 \<leftarrow> split_chunk P1 chunk order target_order;
            Some (chunk, P2) }
          else larger_chunk P (order + 1) target_order } }
      else Some (NULL, P))"
  by pat_completeness auto
termination
  by (relation "measure (\<lambda>(_, order, _). nat (EARLYALLOC_LARGEST_ORDER + 1 - order))") auto

declare larger_chunk.simps [simp del]

definition i_get_chunk_from_freelist :: "earalloc_params \<Rightarrow> int \<Rightarrow> (addr \<times> earalloc_params) option" where
  "i_get_chunk_from_freelist P target_order = do {
     let list_idx = target_order - EARLYALLOC_SMALLEST_ORDER;
     if list_idx < 0 \<or> list_idx \<ge> EARLYALLOC_ORDERS then Some (NULL, P)
     else do {
       empty \<leftarrow> LIST_IS_EMPTY (ea_list P) (free_list_at P list_idx);
       if \<not> empty then pop_chunk P list_idx
       else larger_chunk P (target_order + 1) target_order } }"

definition i_alloc_by_advancing :: "earalloc_params \<Rightarrow> u64 \<Rightarrow> u64 \<Rightarrow> (addr \<times> earalloc_params) option" where
  "i_alloc_by_advancing P sz align = do {
     let current = ea_current P;
     let aligned_addr = EARLYALLOC_ALIGN current align;
     let end_addr = aligned_addr + sz;
     if end_addr > ea_end P then None
     else do {
       P1 \<leftarrow> (if aligned_addr > current then i_free_region_to_chunks P current aligned_addr else Some P);
       Some (aligned_addr, P1\<lparr>ea_current := end_addr\<rparr>) } }"

text \<open>The fallback of a small request repeats the code of \<open>__alloc_by_advancing\<close>.\<close>

definition early_alloc_align :: "earalloc_params \<Rightarrow> u64 \<Rightarrow> u64 \<Rightarrow> (addr \<times> earalloc_params) option" where
  "early_alloc_align P sz align =
     (if \<not> (align > 0 \<and> align AND (align - 1) = 0) then None
      else if sz = 0 then Some (NULL, P)
      else do {
        let chunk_size = (if sz < EARLYALLOC_SMALLEST_CHUNK then EARLYALLOC_SMALLEST_CHUNK else sz);
        order \<leftarrow> i_size_to_order chunk_size;
        let actual_size = push_bit (nat order) 1;
        if actual_size \<le> EARLYALLOC_LARGEST_CHUNK \<and> order \<le> EARLYALLOC_LARGEST_ORDER then do {
          (chunk, P1) \<leftarrow> i_get_chunk_from_freelist P order;
          if chunk \<noteq> NULL then Some (chunk, P1)
          else do {
            let current = ea_current P1;
            let aligned_addr = EARLYALLOC_ALIGN current actual_size;
            let end_addr = aligned_addr + actual_size;
            if end_addr > ea_end P1 then None
            else do {
              P2 \<leftarrow> (if aligned_addr > current then i_free_region_to_chunks P1 current aligned_addr else Some P1);
              Some (aligned_addr, P2\<lparr>ea_current := end_addr\<rparr>) } } }
        else i_alloc_by_advancing P sz align })"

definition early_alloc :: "earalloc_params \<Rightarrow> u64 \<Rightarrow> (addr \<times> earalloc_params) option" where
  "early_alloc P sz = early_alloc_align P sz EARLYALLOC_SMALLEST_CHUNK"

definition early_alloc_end_ptr :: "earalloc_params \<Rightarrow> addr" where
  "early_alloc_end_ptr P = ea_current P"

text \<open>A sequence of requests, as the boot code makes them.\<close>

fun alloc_all :: "earalloc_params \<Rightarrow> (u64 \<times> u64) list \<Rightarrow> (addr list \<times> earalloc_params) option" where
  "alloc_all P [] = Some ([], P)"
| "alloc_all P ((sz, align) # rs) = do {
     (p, P1) \<leftarrow> early_alloc_align P sz align;
     (ps, P2) \<leftarrow> alloc_all P1 rs;
     Some (p # ps, P2) }"

subsection \<open>Powers of two and alignment\<close>

lemma unat_pow2: "k < 64 \<Longrightarrow> unat ((2::u64) ^ k) = 2 ^ k"
proof -
  assume "k < 64"
  then have "(2::nat) ^ k < 2 ^ LENGTH(64)" by (intro power_strict_increasing) auto
  moreover have "(2::u64) ^ k = of_nat (2 ^ k)" by simp
  ultimately show ?thesis by (metis mod_less unat_of_nat)
qed

lemma push_bit_one [simp]: "push_bit k (1::u64) = 2 ^ k"
  by (simp add: push_bit_of_1)

lemma aligned_iff: "k < 64 \<Longrightarrow> (w::u64) AND (2 ^ k - 1) = 0 \<longleftrightarrow> 2 ^ k dvd unat w"
proof -
  assume k: "k < 64"
  have "w AND (2 ^ k - 1) = take_bit k w" by (simp add: take_bit_eq_mask mask_eq_exp_minus_1)
  moreover have "unat (take_bit k w) = unat w mod 2 ^ k" using k by (simp add: take_bit_eq_mod unat_mod unat_pow2)
  ultimately show ?thesis by (metis dvd_eq_mod_eq_0 unat_eq_zero)
qed

lemma power_of_two_word:
  assumes "0 < (a::u64)" "a AND (a - 1) = 0"
  obtains k where "k < 64" "a = 2 ^ k"
proof -
  have a0: "0 < unat a" using assms(1) by (simp add: unat_gt_0)
  obtain k where k: "2 ^ k \<le> unat a" "unat a < 2 ^ (k + 1)"
    using ex_power_ivl1 [of 2 "unat a"] a0 by auto
  have "unat a < 2 ^ 64" using unsigned_less [of a, where 'a = nat] by simp
  then have "(2::nat) ^ k < 2 ^ 64" using k(1) by (rule le_less_trans [rotated])
  then have k64: "k < 64" by (rule power_less_imp_less_exp [rotated]) simp
  have "unat a = 2 ^ k"
  proof (rule ccontr)
    assume "unat a \<noteq> 2 ^ k"
    then have m: "2 ^ k \<le> unat a - 1" "unat a - 1 < 2 ^ (k + 1)" using k by auto
    have "unat (a - 1) = unat a - 1" using assms(1) unat_minus_one [of a] by auto
    moreover have "n div 2 ^ k = 1" if "2 ^ k \<le> n" "n < 2 ^ (k + 1)" for n :: nat
      using that by (simp add: div_nat_eqI)
    ultimately have "bit (unat a) k" "bit (unat (a - 1)) k"
      using k m by (simp_all add: bit_iff_odd)
    then have "bit a k" "bit (a - 1) k" by (simp_all add: bit_unsigned_iff)
    then show False using assms(2) by (metis bit_0_eq bit_and_iff bot_apply bot_bool_def)
  qed
  then have "a = 2 ^ k" using unat_pow2 [OF k64] by (simp add: word_unat_eq_iff)
  then show thesis using that k64 by blast
qed

lemma align_up:
  assumes "k < 64" "unat x + 2 ^ k \<le> 2 ^ 64"
  shows "2 ^ k dvd unat (EARLYALLOC_ALIGN x (2 ^ k))" "unat x \<le> unat (EARLYALLOC_ALIGN x (2 ^ k))"
    "unat (EARLYALLOC_ALIGN x (2 ^ k)) < unat x + 2 ^ k"
proof -
  let ?y = "x + (2 ^ k - 1)"
  have u: "unat ((2::u64) ^ k - 1) = 2 ^ k - 1" using assms(1) by (simp add: unat_minus_one unat_pow2)
  have y: "unat ?y = unat x + (2 ^ k - 1)"
  proof -
    have "(1::nat) \<le> 2 ^ k" by simp
    then have "unat x + (2 ^ k - 1) < 2 ^ 64" using assms(2) by linarith
    then show ?thesis using u unat_add_lem [of x "2 ^ k - 1"] by simp
  qed
  have "EARLYALLOC_ALIGN x (2 ^ k) = ?y AND NOT (mask k)"
    by (simp add: EARLYALLOC_ALIGN_def EARLYALLOC_ALIGN_MASK_def mask_eq_exp_minus_1)
  also have "\<dots> = ?y - take_bit k ?y"
  proof -
    have "(?y AND NOT (mask k)) + take_bit k ?y = (?y AND NOT (mask k)) OR take_bit k ?y"
      by (rule disjunctive_add_eq_or) (simp add: bit_eq_iff bit_simps)
    also have "\<dots> = ?y" by (rule bit_eqI) (auto simp: bit_simps)
    finally show ?thesis by (simp add: algebra_simps)
  qed
  also have "unat \<dots> = unat ?y - unat ?y mod 2 ^ k"
    using assms(1) by (simp add: take_bit_eq_mod unat_sub word_le_nat_alt unat_mod unat_pow2)
  finally have e: "unat (EARLYALLOC_ALIGN x (2 ^ k)) = unat ?y div 2 ^ k * 2 ^ k"
    by (simp add: minus_mod_eq_div_mult)
  have "unat ?y = unat (EARLYALLOC_ALIGN x (2 ^ k)) + unat ?y mod 2 ^ k"
    unfolding e by (rule div_mult_mod_eq [symmetric])
  moreover have "unat ?y mod 2 ^ k < 2 ^ k" by simp
  ultimately show "unat x \<le> unat (EARLYALLOC_ALIGN x (2 ^ k))"
    "unat (EARLYALLOC_ALIGN x (2 ^ k)) < unat x + 2 ^ k" using y by linarith+
  show "2 ^ k dvd unat (EARLYALLOC_ALIGN x (2 ^ k))" by (simp add: e)
qed

lemma size_to_order_loop_ok:
  assumes "unat s \<le> 2 ^ M" "M < 64" "n \<le> M" "n = 0 \<or> 2 ^ (n - 1) < unat s"
  shows "\<exists>m. size_to_order_loop s (int n) = Some (int m) \<and> m \<le> M \<and> unat s \<le> 2 ^ m \<and> (m = 0 \<or> 2 ^ (m - 1) < unat s)"
  using assms
proof (induction "M - n" arbitrary: n)
  case 0
  then have "n = M" by simp
  then have "\<not> (2::u64) ^ n < s" using 0 by (simp add: word_less_nat_alt unat_pow2)
  then have "size_to_order_loop s (int n) = Some (int n)"
    using 0 by (subst size_to_order_loop.simps) simp
  then show ?case using 0 \<open>n = M\<close> by blast
next
  case (Suc d)
  then have n: "n < M" "n < 64" by simp_all
  have c: "(2::u64) ^ n < s \<longleftrightarrow> 2 ^ n < unat s" using n by (simp add: word_less_nat_alt unat_pow2)
  have l: "size_to_order_loop s (int n) = (if 2 ^ n < unat s then size_to_order_loop s (int (Suc n)) else Some (int n))"
    using n c by (subst size_to_order_loop.simps) (simp add: add.commute)
  show ?case
  proof (cases "2 ^ n < unat s")
    case True
    then show ?thesis using Suc.hyps(1) [of "Suc n"] Suc.hyps(2) Suc.prems n l by auto
  next
    case False
    then have "size_to_order_loop s (int n) = Some (int n)" "unat s \<le> 2 ^ n" using l by auto
    then show ?thesis using Suc.prems n by (intro exI [of _ n]) auto
  qed
qed

lemma size_to_order_ok:
  assumes "unat s \<le> 2 ^ M" "M < 64"
  obtains m where "i_size_to_order s = Some (int m)" "m \<le> M" "unat s \<le> 2 ^ m" "m = 0 \<or> 2 ^ (m - 1) < unat s"
  using size_to_order_loop_ok [OF assms, of 0] unfolding i_size_to_order_def by auto

lemma size_to_order_pow2: "k < 64 \<Longrightarrow> i_size_to_order (2 ^ k) = Some (int k)"
proof -
  assume k: "k < 64"
  have u: "unat ((2::u64) ^ k) = 2 ^ k" by (rule unat_pow2 [OF k])
  then have "unat ((2::u64) ^ k) \<le> 2 ^ k" by simp
  then obtain m where m: "i_size_to_order (2 ^ k) = Some (int m)" "m \<le> k" "unat ((2::u64) ^ k) \<le> 2 ^ m"
    using k by (rule size_to_order_ok)
  then have "k \<le> m" unfolding u by (simp add: power_le_imp_le_exp)
  then show ?thesis using m(1,2) by simp
qed

subsection \<open>Free chunks\<close>

lemmas ea_consts = EARLYALLOC_SMALLEST_ORDER_def EARLYALLOC_LARGEST_ORDER_def EARLYALLOC_ORDERS_def
  EARLYALLOC_SMALLEST_CHUNK_def EARLYALLOC_LARGEST_CHUNK_def

definition region :: "u64 \<Rightarrow> nat \<Rightarrow> nat set" where
  "region a n = {unat a ..< unat a + n}"

definition free_chunk :: "earalloc_params \<Rightarrow> nat \<Rightarrow> nat \<Rightarrow> nat \<Rightarrow> addr \<Rightarrow> bool" where
  "free_chunk P lo hi i a \<longleftrightarrow> chunks P a = Some \<lparr>ch_magic = EARLYALLOC_CHUNK_MAGIC, ch_size = 2 ^ (i + 5)\<rparr> \<and>
     2 ^ (i + 5) dvd unat a \<and> lo \<le> unat a \<and> unat a + 2 ^ (i + 5) \<le> hi"

text \<open>
  \<open>F i\<close> lists the chunks of order \<open>i + 5\<close>: each is aligned, carries the magic number, lies between
  \<open>lo\<close> and \<open>hi\<close> and overlaps neither another free chunk nor the memory \<open>R\<close> that was handed out.
\<close>

definition ea_ok :: "earalloc_params \<Rightarrow> nat \<Rightarrow> nat \<Rightarrow> (nat \<Rightarrow> addr list) \<Rightarrow> nat set \<Rightarrow> bool" where
  "ea_ok P lo hi F R \<longleftrightarrow> hi \<le> 2 ^ 63 \<and> 0 < unat (free_lists P) \<and> unat (free_lists P) + 192 \<le> lo \<and>
     (\<forall>i<12. dlist (ea_list P) (free_list_at P (int i)) (map chunk_entry (F i))) \<and>
     (\<forall>i<12. \<forall>a\<in>set (F i). free_chunk P lo hi i a \<and> region a (2 ^ (i + 5)) \<inter> R = {}) \<and>
     (\<forall>i<12. \<forall>j<12. \<forall>a\<in>set (F i). \<forall>b\<in>set (F j). (i, a) \<noteq> (j, b) \<longrightarrow>
        region a (2 ^ (i + 5)) \<inter> region b (2 ^ (j + 5)) = {})"

definition same_params :: "earalloc_params \<Rightarrow> earalloc_params \<Rightarrow> bool" where
  "same_params P Q \<longleftrightarrow> free_lists Q = free_lists P \<and> ea_current Q = ea_current P \<and> ea_end Q = ea_end P"

lemma same_params_refl [simp]: "same_params P P"
  by (simp add: same_params_def)

lemma same_params_trans: "same_params P Q \<Longrightarrow> same_params Q S \<Longrightarrow> same_params P S"
  by (simp add: same_params_def)

lemma region_self [simp]: "unat a \<in> region a (2 ^ k)"
  by (simp add: region_def)

lemma chunk_entry_inj [simp]: "chunk_entry a = chunk_entry b \<longleftrightarrow> a = b"
  by (simp add: chunk_entry_def)

lemma chunk_of_entry [simp]: "chunk_of (chunk_entry a) = a"
  by (simp add: chunk_of_def chunk_entry_def)

lemma pow_ge_32: "(32::nat) \<le> 2 ^ (i + 5)"
  using power_increasing [of 5 "i + 5" "2::nat"] by simp

lemma unat_chunk_entry:
  assumes "unat a + 2 ^ (i + 5) \<le> 2 ^ 63"
  shows "unat (chunk_entry a) = unat a + 16"
proof -
  have "unat a + 16 < 2 ^ 64" using assms pow_ge_32 [of i] by simp
  then show ?thesis using unat_add_of_nat64 [of a 16] by (simp add: chunk_entry_def)
qed

lemma unat_head:
  assumes "ea_ok P lo hi F R" "lo \<le> hi" "i < 12"
  shows "unat (free_list_at P (int i)) = unat (free_lists P) + 16 * i"
proof -
  have "unat (free_lists P) + 16 * i < 2 ^ 64" using assms by (simp add: ea_ok_def)
  then show ?thesis using unat_add_of_nat64 [of "free_lists P" "16 * i"] by (simp add: free_list_at_def)
qed

lemma ea_okD:
  assumes "ea_ok P lo hi F R"
  shows "hi \<le> 2 ^ 63" "0 < lo"
    "i < 12 \<Longrightarrow> dlist (ea_list P) (free_list_at P (int i)) (map chunk_entry (F i))"
    "i < 12 \<Longrightarrow> a \<in> set (F i) \<Longrightarrow> free_chunk P lo hi i a"
    "i < 12 \<Longrightarrow> a \<in> set (F i) \<Longrightarrow> region a (2 ^ (i + 5)) \<inter> R = {}"
    "i < 12 \<Longrightarrow> j < 12 \<Longrightarrow> a \<in> set (F i) \<Longrightarrow> b \<in> set (F j) \<Longrightarrow> (i, a) \<noteq> (j, b) \<Longrightarrow>
       region a (2 ^ (i + 5)) \<inter> region b (2 ^ (j + 5)) = {}"
  using assms unfolding ea_ok_def by simp_all

text \<open>An entry inside \<open>[lo, hi)\<close> is no list head, and the lists share no node.\<close>

lemma entry_not_head:
  assumes ok: "ea_ok P lo hi F R" and i: "i < 12" and a: "lo \<le> unat a" "unat a + 2 ^ (k + 5) \<le> 2 ^ 63"
    and le: "lo \<le> hi"
  shows "chunk_entry a \<noteq> free_list_at P (int i)"
proof
  assume "chunk_entry a = free_list_at P (int i)"
  then have "unat a + 16 = unat (free_lists P) + 16 * i"
    using unat_chunk_entry [OF a(2)] unat_head [OF ok le i] by simp
  moreover have "unat (free_lists P) + 192 \<le> lo" using ok by (simp add: ea_ok_def)
  ultimately show False using a(1) i by simp
qed

definition cells :: "earalloc_params \<Rightarrow> (nat \<Rightarrow> addr list) \<Rightarrow> nat \<Rightarrow> addr set" where
  "cells P F i = insert (free_list_at P (int i)) (chunk_entry ` set (F i))"

lemma cells_disjoint:
  assumes ok: "ea_ok P lo hi F R" and le: "lo \<le> hi" and ij: "i < 12" "j < 12" "i \<noteq> j"
  shows "cells P F i \<inter> cells P F j = {}"
proof -
  have h: "free_list_at P (int i) \<noteq> free_list_at P (int j)"
    using unat_head [OF ok le ij(1)] unat_head [OF ok le ij(2)] ij(3) by (metis add_left_cancel mult_left_cancel zero_neq_numeral)
  have e: "chunk_entry a \<noteq> free_list_at P (int m)" if "k < 12" "m < 12" "a \<in> set (F k)" for a k m
    using entry_not_head [OF ok that(2) _ _ le, of a k] ea_okD(4) [OF ok that(1,3)] ea_okD(1) [OF ok]
    by (auto simp: free_chunk_def)
  have "a \<noteq> b" if "a \<in> set (F i)" "b \<in> set (F j)" for a b
  proof
    assume "a = b"
    then have "region a (2 ^ (i + 5)) \<inter> region a (2 ^ (j + 5)) = {}"
      using ea_okD(6) [OF ok ij(1,2) that] ij(3) by simp
    then show False using region_self by blast
  qed
  then have "chunk_entry ` set (F i) \<inter> chunk_entry ` set (F j) = {}" by auto
  moreover have "free_list_at P (int i) \<notin> chunk_entry ` set (F j)" "free_list_at P (int j) \<notin> chunk_entry ` set (F i)"
    using e [OF ij(2,1)] e [OF ij(1,2)] by force+
  ultimately show ?thesis using h by (auto simp: cells_def)
qed

lemma frame_lists:
  assumes ok: "ea_ok P lo hi F R" and le: "lo \<le> hi" and k: "k < 12" and i: "i < 12"
    and dl: "dlist h' (free_list_at P (int k)) (map chunk_entry xs)"
    and same: "\<And>z. z \<notin> insert e (cells P F k) \<Longrightarrow> h' z = ea_list P z"
    and e: "\<And>j. j < 12 \<Longrightarrow> j \<noteq> k \<Longrightarrow> e \<notin> cells P F j"
  shows "dlist h' (free_list_at P (int i)) (map chunk_entry ((F(k := xs)) i))"
proof (cases "i = k")
  case False
  have "h' z = ea_list P z" if "z \<in> cells P F i" for z
    using same [of z] that cells_disjoint [OF ok le k i] e [OF i False] False by auto
  then have "dlist h' (free_list_at P (int i)) (map chunk_entry (F i)) = dlist (ea_list P) (free_list_at P (int i)) (map chunk_entry (F i))"
    by (intro dlist_cong) (auto simp: cells_def)
  then show ?thesis using ea_okD(3) [OF ok i] False by simp
qed (use dl in simp)

lemma fresh_entry:
  assumes ok: "ea_ok P lo hi F R" and le: "lo \<le> hi" and a: "lo \<le> unat a" "unat a + 2 ^ (k + 5) \<le> 2 ^ 63"
    and dj: "\<And>j b. j < 12 \<Longrightarrow> b \<in> set (F j) \<Longrightarrow> region a (2 ^ (k + 5)) \<inter> region b (2 ^ (j + 5)) = {}" and j: "j < 12"
  shows "a \<notin> set (F j)" "chunk_entry a \<notin> cells P F j"
proof -
  show n: "a \<notin> set (F j)" using dj [OF j, of a] region_self by blast
  show "chunk_entry a \<notin> cells P F j"
    using entry_not_head [OF ok j a le] n by (auto simp: cells_def)
qed

lemma push_new_node:
  assumes d: "dlist h H xs" and e: "e \<noteq> NULL" "e \<notin> insert H (set xs)"
  shows "\<exists>h1 h2. list_entry_init (h(e \<mapsto> n)) e = Some h1 \<and> list_entry_push_back h1 H e = Some h2 \<and>
    dlist h2 H (e # xs) \<and> (\<forall>z. z \<notin> insert e (insert H (set xs)) \<longrightarrow> h2 z = h z)"
proof -
  obtain h1 where h1: "list_entry_init (h(e \<mapsto> n)) e = Some h1" "same_off {e} (h(e \<mapsto> n)) h1"
    using list_entry_init_ok [of "h(e \<mapsto> n)" e] e(1) by (auto simp: alloc_def)
  have z: "h1 z = h z" if "z \<noteq> e" for z using h1(2) that by (auto simp: same_off_def)
  have "dlist h1 H xs = dlist h H xs" using e(2) by (intro dlist_cong z) auto
  then have d1: "dlist h1 H xs" using d by simp
  have "alloc h1 e" using h1(2) e(1) by (simp add: same_off_def)
  then obtain h2 where "list_entry_push_back h1 H e = Some h2" "dlist h2 H (e # xs)"
    "same_off (insert e (insert H (set xs))) h1 h2" using list_entry_push_back_ok [OF d1 _ e(2)] by blast
  then show ?thesis using h1(1) z by (auto simp: same_off_def)
qed

lemma ea_add:
  assumes ok: "ea_ok P lo hi F R" and le: "lo \<le> hi" "hi \<le> hi'" "hi' \<le> 2 ^ 63" and k: "k < 12"
    and a: "2 ^ (k + 5) dvd unat a" "lo \<le> unat a" "unat a + 2 ^ (k + 5) \<le> hi'"
    and R: "region a (2 ^ (k + 5)) \<inter> R = {}"
    and dj: "\<And>j b. j < 12 \<Longrightarrow> b \<in> set (F j) \<Longrightarrow> region a (2 ^ (k + 5)) \<inter> region b (2 ^ (j + 5)) = {}"
  shows "\<exists>P1 P2. i_make_chunk P a (2 ^ (k + 5)) = Some (a, P1) \<and> i_add_chunk_to_freelist P1 a = Some P2 \<and>
    ea_ok P2 lo hi' (F(k := a # F k)) R \<and> same_params P P2 \<and> (\<forall>b. b \<noteq> a \<longrightarrow> chunks P2 b = chunks P b)"
proof -
  let ?e = "chunk_entry a" and ?s = "(2::u64) ^ (k + 5)" and ?H = "free_list_at P (int k)"
  have a63: "unat a + 2 ^ (k + 5) \<le> 2 ^ 63" using a(3) le(3) by simp
  have fresh: "a \<notin> set (F j)" "chunk_entry a \<notin> cells P F j" if "j < 12" for j
    using fresh_entry [OF ok le(1) a(2) a63 _ that] dj by blast+
  have a0: "a \<noteq> NULL" using a(2) ea_okD(2) [OF ok] by auto
  have e0: "?e \<noteq> NULL" using unat_chunk_entry [OF a63] by (metis add_is_0 unat_0 zero_neq_numeral)
  have en: "?e \<notin> insert ?H (set (map chunk_entry (F k)))" using fresh(2) [OF k] by (simp add: cells_def)
  obtain h1 h2 where h: "list_entry_init ((ea_list P)(?e \<mapsto> \<lparr>ln_prev = NULL, ln_next = NULL\<rparr>)) ?e = Some h1"
    "list_entry_push_back h1 ?H ?e = Some h2" "dlist h2 ?H (map chunk_entry (a # F k))"
    "\<forall>z. z \<notin> insert ?e (cells P F k) \<longrightarrow> h2 z = ea_list P z"
    using push_new_node [OF ea_okD(3) [OF ok k] e0 en, of "\<lparr>ln_prev = NULL, ln_next = NULL\<rparr>"]
    by (auto simp: cells_def)
  define P1 where "P1 = P\<lparr>chunks := (chunks P)(a \<mapsto> \<lparr>ch_magic = EARLYALLOC_CHUNK_MAGIC, ch_size = ?s\<rparr>), ea_list := h1\<rparr>"
  have m: "i_make_chunk P a ?s = Some (a, P1)" using a0 h(1) by (simp add: i_make_chunk_def P1_def)
  have "k + 5 < 64" using k by simp
  then have o: "i_size_to_order ?s = Some (int (k + 5))" "a AND (?s - 1) = 0"
    using size_to_order_pow2 aligned_iff [of "k + 5" a] a(1) by auto
  have ad: "i_add_chunk_to_freelist P1 a = Some (P1\<lparr>ea_list := h2\<rparr>)"
    using o a0 h(2) k by (simp add: i_add_chunk_to_freelist_def P1_def ea_consts free_list_at_def)
  let ?F = "F(k := a # F k)"
  have dl: "dlist h2 (free_list_at P (int i)) (map chunk_entry (?F i))" if "i < 12" for i
    using frame_lists [OF ok le(1) k that h(3), of ?e] h(4) fresh(2) by blast
  have fc: "free_chunk (P1\<lparr>ea_list := h2\<rparr>) lo hi' i b \<and> region b (2 ^ (i + 5)) \<inter> R = {}" if "i < 12" "b \<in> set (?F i)" for i b
  proof (cases "b \<in> set (F i)")
    case True
    then have "b \<noteq> a" using fresh(1) [OF that(1)] by blast
    then show ?thesis
      using ea_okD(4,5) [OF ok that(1) True] le(2) by (auto simp: free_chunk_def P1_def)
  next
    case False
    then have "i = k" "b = a" using that(2) by (auto split: if_splits)
    then show ?thesis using a R by (simp add: free_chunk_def P1_def)
  qed
  have dj2: "region b (2 ^ (i + 5)) \<inter> region c (2 ^ (j + 5)) = {}"
    if "i < 12" "j < 12" "b \<in> set (?F i)" "c \<in> set (?F j)" "(i, b) \<noteq> (j, c)" for i j b c
    using ea_okD(6) [OF ok that(1,2), of b c] dj [OF that(1), of b] dj [OF that(2), of c] that(3-5)
    by (auto split: if_splits simp: Int_commute)
  have "ea_ok (P1\<lparr>ea_list := h2\<rparr>) lo hi' ?F R"
    using dl fc dj2 ok le(3) unfolding ea_ok_def by (simp add: P1_def free_list_at_def del: fun_upd_apply)
  then show ?thesis using m ad by (intro exI [of _ P1] exI [of _ "P1\<lparr>ea_list := h2\<rparr>"]) (simp add: P1_def same_params_def)
qed

lemma ea_pop:
  assumes ok: "ea_ok P lo hi F R" and le: "lo \<le> hi" and k: "k < 12" and Fk: "F k = a # xs"
  shows "\<exists>P'. pop_chunk P (int k) = Some (a, P') \<and> ea_ok P' lo hi (F(k := xs)) (R \<union> region a (2 ^ (k + 5))) \<and>
    same_params P P' \<and> chunks P' = chunks P"
proof -
  let ?H = "free_list_at P (int k)" and ?F = "F(k := xs)"
  have fa: "free_chunk P lo hi k a" using ea_okD(4) [OF ok k] Fk by simp
  then have a0: "a \<noteq> NULL" using ea_okD(2) [OF ok] by (auto simp: free_chunk_def)
  have "dlist (ea_list P) ?H (chunk_entry a # map chunk_entry xs)" using ea_okD(3) [OF ok k] Fk by simp
  then obtain h where h: "list_entry_pop_back (ea_list P) ?H = Some (chunk_entry a, h)" "dlist h ?H (map chunk_entry xs)"
    "same_off (cells P F k) (ea_list P) h"
    using list_entry_pop_back_ok Fk by (fastforce simp: cells_def)
  have p: "pop_chunk P (int k) = Some (a, P\<lparr>ea_list := h\<rparr>)"
    using h(1) fa a0 by (simp add: pop_chunk_def deref_def free_chunk_def)
  have an: "a \<notin> set xs" using ea_okD(3) [OF ok k] Fk by (auto simp: dlist_def)
  have z: "h z = ea_list P z" if "z \<notin> insert ?H (cells P F k)" for z using h(3) that by (auto simp: same_off_def)
  have H: "?H \<notin> cells P F j" if "j < 12" "j \<noteq> k" for j
    using cells_disjoint [OF ok le k that(1)] that(2) by (auto simp: cells_def)
  have dl: "dlist h (free_list_at P (int i)) (map chunk_entry (?F i))" if "i < 12" for i
    by (rule frame_lists [OF ok le k that h(2) z H])
  have sub: "set (?F i) \<subseteq> set (F i)" for i using Fk by auto
  have "region b (2 ^ (i + 5)) \<inter> (R \<union> region a (2 ^ (k + 5))) = {}" if "i < 12" "b \<in> set (?F i)" for i b
  proof -
    have "(i, b) \<noteq> (k, a)" using that(2) an by auto
    then show ?thesis
      using ea_okD(5) [OF ok that(1), of b] ea_okD(6) [OF ok that(1) k, of b a] that(2) sub Fk by auto
  qed
  then have "ea_ok (P\<lparr>ea_list := h\<rparr>) lo hi ?F (R \<union> region a (2 ^ (k + 5)))"
    using dl ok sub unfolding ea_ok_def free_chunk_def by (simp add: free_list_at_def subset_iff del: fun_upd_apply)
  then show ?thesis using p by (intro exI [of _ "P\<lparr>ea_list := h\<rparr>"]) (simp add: same_params_def)
qed

subsection \<open>Taking and splitting chunks\<close>

lemma ea_ok_mono: "ea_ok P lo hi F R \<Longrightarrow> R' \<subseteq> R \<Longrightarrow> ea_ok P lo hi F R'"
  unfolding ea_ok_def by blast

lemma ea_ok_header:
  assumes ok: "ea_ok P lo hi F R" and a: "unat a \<in> R"
  shows "ea_ok (P\<lparr>chunks := (chunks P)(a \<mapsto> c)\<rparr>) lo hi F R"
proof -
  have "b \<noteq> a" if "i < 12" "b \<in> set (F i)" for i b
    using ea_okD(5) [OF ok that] a region_self by blast
  then show ?thesis using ok unfolding ea_ok_def free_chunk_def by (simp add: free_list_at_def)
qed

text \<open>A chunk of order \<open>t + 5\<close> taken off the free lists.\<close>

definition taken_chunk :: "earalloc_params \<Rightarrow> nat \<Rightarrow> nat \<Rightarrow> nat set \<Rightarrow> nat \<Rightarrow> addr \<Rightarrow> earalloc_params \<Rightarrow> bool" where
  "taken_chunk P lo hi R t a P' \<longleftrightarrow> a \<noteq> NULL \<and> 2 ^ (t + 5) dvd unat a \<and> lo \<le> unat a \<and> unat a + 2 ^ (t + 5) \<le> hi \<and>
     region a (2 ^ (t + 5)) \<inter> R = {} \<and> (\<exists>F'. ea_ok P' lo hi F' (R \<union> region a (2 ^ (t + 5)))) \<and> same_params P P'"

lemma region_halves:
  assumes "unat b = unat a + 2 ^ m"
  shows "region a (2 ^ m) \<subseteq> region a (2 ^ Suc m)" "region b (2 ^ m) \<subseteq> region a (2 ^ Suc m)"
    "region b (2 ^ m) \<inter> region a (2 ^ m) = {}"
  using assms by (auto simp: region_def)

lemma split_chunk_ok:
  assumes "ea_ok P lo hi F (R \<union> region a (2 ^ (n + 5)))" "lo \<le> hi" "t \<le> n" "n < 12"
    "region a (2 ^ (n + 5)) \<inter> R = {}" "2 ^ (n + 5) dvd unat a" "lo \<le> unat a" "unat a + 2 ^ (n + 5) \<le> hi"
    "deref (chunks P) a = Some c"
  shows "\<exists>P' F'. split_chunk P a (int (n + 5)) (int (t + 5)) = Some P' \<and>
    ea_ok P' lo hi F' (R \<union> region a (2 ^ (t + 5))) \<and> same_params P P'"
  using assms
proof (induction "n - t" arbitrary: n P F c)
  case 0
  then have "split_chunk P a (int (n + 5)) (int (t + 5)) = Some P" by (subst split_chunk.simps) simp
  then show ?case using 0 by auto
next
  case (Suc d)
  then obtain m where n: "n = Suc m" by (cases n) auto
  note ok = Suc.prems(1) and a = Suc.prems(5-8)
  let ?half = "(2::u64) ^ (m + 5)" and ?b = "a + 2 ^ (m + 5)"
  have m: "m < 12" "t \<le> m" "m + 5 < 64" using Suc.prems(3,4) Suc.hyps(2) n by auto
  have hi: "hi \<le> 2 ^ 63" by (rule ea_okD(1) [OF ok])
  have two: "(2::nat) ^ (n + 5) = 2 ^ (m + 5) + 2 ^ (m + 5)" by (simp only: n add_Suc power_Suc mult_2)
  then have "unat a + 2 ^ (m + 5) \<le> 2 ^ 63" using a(4) hi by linarith
  then have "unat a + 2 ^ (m + 5) < 2 ^ 64" by simp
  then have ub: "unat ?b = unat a + 2 ^ (m + 5)"
    using unat_add_of_nat64 [of a "2 ^ (m + 5)"] by simp
  have dv: "2 ^ (m + 5) dvd unat a" by (rule dvd_trans [OF _ a(2)]) (simp add: two)
  let ?R = "R \<union> region a (2 ^ (m + 5))"
  have n5: "Suc (m + 5) = n + 5" by (simp add: n)
  note hv = region_halves [OF ub, unfolded n5]
  have ok': "ea_ok P lo hi F ?R" by (rule ea_ok_mono [OF ok]) (use hv(1) in auto)
  have bR: "region ?b (2 ^ (m + 5)) \<inter> ?R = {}" using hv(2,3) a(1) by auto
  have bF: "region ?b (2 ^ (m + 5)) \<inter> region y (2 ^ (j + 5)) = {}" if "j < 12" "y \<in> set (F j)" for j y
    using ea_okD(5) [OF ok that] hv(2) by auto
  obtain P1 P2 where P2: "i_make_chunk P ?b ?half = Some (?b, P1)" "i_add_chunk_to_freelist P1 ?b = Some P2"
    "ea_ok P2 lo hi (F(m := ?b # F m)) ?R" "same_params P P2" "\<forall>y. y \<noteq> ?b \<longrightarrow> chunks P2 y = chunks P y"
    using ea_add [OF ok' Suc.prems(2) order_refl hi m(1) _ _ _ bR bF] a(3,4) dv ub two by auto
  have "a \<noteq> ?b" using ub by (metis add_cancel_left_right power_not_zero zero_neq_numeral)
  then have c2: "deref (chunks P2) a = Some c" using P2(5) Suc.prems(9) by (simp add: deref_def split: if_splits)
  let ?P3 = "P2\<lparr>chunks := (chunks P2)(a \<mapsto> c\<lparr>ch_size := ?half\<rparr>)\<rparr>"
  have st: "split_chunk P a (int (n + 5)) (int (t + 5)) = split_chunk ?P3 a (int (m + 5)) (int (t + 5))"
  proof -
    have "int (n + 5) - 1 = int (m + 5)" "int (t + 5) < int (n + 5)" using n m(2) by simp_all
    then show ?thesis
      using P2(1,2) c2 by (subst split_chunk.simps) (simp add: modify_Some Let_def del: of_nat_add)
  qed
  have a0: "a \<noteq> NULL" using c2 by auto
  have ok3: "ea_ok ?P3 lo hi (F(m := ?b # F m)) ?R" by (rule ea_ok_header [OF P2(3)]) simp
  have pre: "d = m - t" "region a (2 ^ (m + 5)) \<inter> R = {}" "unat a + 2 ^ (m + 5) \<le> hi"
    "deref (chunks ?P3) a = Some (c\<lparr>ch_size := ?half\<rparr>)"
    using Suc.hyps(2) n hv(1) a(1,4) two a0 by auto
  obtain P' F' where "split_chunk ?P3 a (int (m + 5)) (int (t + 5)) = Some P'"
    "ea_ok P' lo hi F' (R \<union> region a (2 ^ (t + 5)))" "same_params ?P3 P'"
    using Suc.hyps(1) [OF pre(1) ok3 Suc.prems(2) m(2,1) pre(2) dv a(3) pre(3,4)] by blast
  then show ?case using st P2(4) by (auto simp: same_params_def)
qed

lemma pop_split_ok:
  assumes ok: "ea_ok P lo hi F R" and le: "lo \<le> hi" and n: "n < 12" "t \<le> n" and Fn: "F n = a # xs"
  shows "\<exists>P1 P2. pop_chunk P (int n) = Some (a, P1) \<and> split_chunk P1 a (int (n + 5)) (int (t + 5)) = Some P2 \<and>
    taken_chunk P lo hi R t a P2"
proof -
  obtain P1 where P1: "pop_chunk P (int n) = Some (a, P1)" "ea_ok P1 lo hi (F(n := xs)) (R \<union> region a (2 ^ (n + 5)))"
    "same_params P P1" "chunks P1 = chunks P" using ea_pop [of P lo hi F R, OF ok le n(1) Fn] by blast
  have fa: "free_chunk P lo hi n a" "region a (2 ^ (n + 5)) \<inter> R = {}" using ea_okD(4,5) [OF ok n(1)] Fn by auto
  have a0: "a \<noteq> NULL" using fa ea_okD(2) [OF ok] by (auto simp: free_chunk_def)
  obtain c where c: "deref (chunks P1) a = Some c" using fa P1(4) a0 by (auto simp: free_chunk_def deref_def)
  obtain P2 F' where P2: "split_chunk P1 a (int (n + 5)) (int (t + 5)) = Some P2"
    "ea_ok P2 lo hi F' (R \<union> region a (2 ^ (t + 5)))" "same_params P1 P2"
    using split_chunk_ok [OF P1(2) le n(2,1) fa(2) _ _ _ c] fa(1) by (auto simp: free_chunk_def)
  have pw: "(2::nat) ^ (t + 5) dvd 2 ^ (n + 5)" "(2::nat) ^ (t + 5) \<le> 2 ^ (n + 5)"
    using n(2) by (auto intro: le_imp_power_dvd power_increasing)
  have fa': "2 ^ (n + 5) dvd unat a" "lo \<le> unat a" "unat a + 2 ^ (n + 5) \<le> hi"
    using fa(1) by (simp_all add: free_chunk_def)
  have dv: "2 ^ (t + 5) dvd unat a" by (rule dvd_trans [OF pw(1) fa'(1)])
  have hi: "unat a + 2 ^ (t + 5) \<le> hi" using fa'(3) pw(2) by linarith
  have "region a (2 ^ (t + 5)) \<subseteq> region a (2 ^ (n + 5))" using pw(2) by (auto simp: region_def)
  then have "region a (2 ^ (t + 5)) \<inter> R = {}" using fa(2) by blast
  then have "taken_chunk P lo hi R t a P2"
    unfolding taken_chunk_def using a0 dv fa'(2) hi P2(2) same_params_trans [OF P1(3) P2(3)] by blast
  then show ?thesis using P1(1) P2(1) by blast
qed

lemma larger_chunk_ok:
  assumes ok: "ea_ok P lo hi F R" and le: "lo \<le> hi" and t: "t < n" "n \<le> 12"
  shows "\<exists>a P'. larger_chunk P (int (n + 5)) (int (t + 5)) = Some (a, P') \<and>
    (a = NULL \<and> P' = P \<or> taken_chunk P lo hi R t a P')"
  using t
proof (induction "12 - n" arbitrary: n)
  case 0
  then show ?case by (subst larger_chunk.simps) (simp add: ea_consts)
next
  case (Suc d)
  then have n: "n < 12" by simp
  have idx: "int (n + 5) - 5 = int n" by simp
  have emp: "LIST_IS_EMPTY (ea_list P) (free_list_at P (int n)) = Some (F n = [])"
    using LIST_IS_EMPTY_ok [OF ea_okD(3) [OF ok n]] by simp
  show ?case
  proof (cases "F n")
    case Nil
    have "larger_chunk P (int (n + 5)) (int (t + 5)) = larger_chunk P (int (Suc n + 5)) (int (t + 5))"
      using n emp Nil by (subst larger_chunk.simps) (simp add: ea_consts algebra_simps)
    then show ?thesis using Suc.hyps(1) [of "Suc n"] Suc.hyps(2) Suc.prems n by simp
  next
    case (Cons a xs)
    obtain P1 P2 where P2: "pop_chunk P (int n) = Some (a, P1)"
      "split_chunk P1 a (int (n + 5)) (int (t + 5)) = Some P2" "taken_chunk P lo hi R t a P2"
      using pop_split_ok [OF ok le n _ Cons, of t] Suc.prems by auto
    then have "larger_chunk P (int (n + 5)) (int (t + 5)) = Some (a, P2)"
      using n emp Cons by (subst larger_chunk.simps) (simp add: ea_consts)
    then show ?thesis using P2(3) by blast
  qed
qed

lemma get_chunk_ok:
  assumes ok: "ea_ok P lo hi F R" and le: "lo \<le> hi" and t: "t < 12"
  shows "\<exists>a P'. i_get_chunk_from_freelist P (int (t + 5)) = Some (a, P') \<and>
    (a = NULL \<and> P' = P \<or> taken_chunk P lo hi R t a P')"
proof -
  have emp: "LIST_IS_EMPTY (ea_list P) (free_list_at P (int t)) = Some (F t = [])"
    using LIST_IS_EMPTY_ok [OF ea_okD(3) [OF ok t]] by simp
  show ?thesis
  proof (cases "F t")
    case Nil
    then have "i_get_chunk_from_freelist P (int (t + 5)) = larger_chunk P (int (Suc t + 5)) (int (t + 5))"
      using t emp by (simp add: i_get_chunk_from_freelist_def ea_consts Let_def add.commute)
    then show ?thesis using larger_chunk_ok [OF ok le, of t "Suc t"] t by simp
  next
    case (Cons a xs)
    obtain P1 where "pop_chunk P (int t) = Some (a, P1)"
      "split_chunk P1 a (int (t + 5)) (int (t + 5)) = Some P1" "taken_chunk P lo hi R t a P1"
      using pop_split_ok [OF ok le t order_refl Cons] by (auto simp: split_chunk.simps)
    then show ?thesis using t emp Cons by (auto simp: i_get_chunk_from_freelist_def ea_consts)
  qed
qed

subsection \<open>Turning a gap into chunks\<close>

lemma ea_ok_hi: "ea_ok P lo hi F R \<Longrightarrow> hi \<le> hi' \<Longrightarrow> hi' \<le> 2 ^ 63 \<Longrightarrow> ea_ok P lo hi' F R"
  unfolding ea_ok_def free_chunk_def by fastforce

lemma region_chunk_ok:
  assumes ok: "ea_ok P lo (unat start) F R" and R: "R \<subseteq> {..<unat start}" and lo: "lo \<le> unat start"
    and n: "unat start + 2 ^ n \<le> E" and E: "E \<le> 2 ^ 63"
  shows "\<exists>o' s' P' F'. region_chunk P start (int n) = Some (o', s', P') \<and>
    (o' < 5 \<and> s' = start \<and> P' = P \<or>
     5 \<le> o' \<and> unat start < unat s' \<and> unat s' \<le> E \<and> ea_ok P' lo (unat s') F' R \<and> same_params P P')"
  using n
proof (induction n)
  case 0
  then show ?case by (subst region_chunk.simps) (simp add: ea_consts)
next
  case (Suc m)
  let ?n = "Suc m"
  have down: "unat start + 2 ^ m \<le> E" using Suc.prems by simp
  consider (small) "?n < 5" | (skip) "5 \<le> ?n" "\<not> (2 ^ ?n dvd unat start \<and> ?n \<le> 16)"
    | (hit) "5 \<le> ?n" "2 ^ ?n dvd unat start" "?n \<le> 16" by linarith
  then show ?case
  proof cases
    case small
    then show ?thesis by (subst region_chunk.simps) (simp add: ea_consts)
  next
    case skip
    have "(2::nat) ^ ?n \<le> 2 ^ 63" using Suc.prems E by linarith
    then have "?n \<le> 63" by (rule power_le_imp_le_exp [rotated]) simp
    then have al: "start AND (2 ^ ?n - 1) = 0 \<longleftrightarrow> 2 ^ ?n dvd unat start" by (intro aligned_iff) simp
    have "region_chunk P start (int ?n) = region_chunk P start (int m)"
      using skip al by (subst region_chunk.simps) (auto simp: ea_consts nat_add_distrib)
    then show ?thesis using Suc.IH [OF down] by simp
  next
    case hit
    obtain k where k: "?n = k + 5" "k < 12" using hit le_Suc_ex [OF hit(1)] by (auto simp: add.commute)
    have al: "start AND (2 ^ ?n - 1) = 0" using aligned_iff [of ?n start] hit by simp
    have dv: "2 ^ (k + 5) dvd unat start" and top: "unat start + 2 ^ (k + 5) \<le> E" using hit(2) Suc.prems k(1) by metis+
    have us: "unat (start + 2 ^ (k + 5)) = unat start + 2 ^ (k + 5)"
    proof -
      have "unat start + 2 ^ (k + 5) \<le> 2 ^ 63" using top E by linarith
      then have "unat start + 2 ^ (k + 5) < 2 ^ 64" by simp
      then show ?thesis using unat_add_of_nat64 [of start "2 ^ (k + 5)"] by simp
    qed
    have dR: "region start (2 ^ (k + 5)) \<inter> R = {}" using R by (auto simp: region_def)
    have dF: "region start (2 ^ (k + 5)) \<inter> region b (2 ^ (j + 5)) = {}" if "j < 12" "b \<in> set (F j)" for j b
      using ea_okD(4) [OF ok that] by (auto simp: region_def free_chunk_def)
    have le: "unat start \<le> unat start + 2 ^ (k + 5)" "unat start + 2 ^ (k + 5) \<le> 2 ^ 63" using top E by linarith+
    obtain P1 P2 where P2: "i_make_chunk P start (2 ^ (k + 5)) = Some (start, P1)"
      "i_add_chunk_to_freelist P1 start = Some P2"
      "ea_ok P2 lo (unat start + 2 ^ (k + 5)) (F(k := start # F k)) R" "same_params P P2"
      using ea_add [OF ok lo le k(2) dv lo order_refl dR dF] by blast
    have "region_chunk P start (int ?n) = Some (int ?n, start + 2 ^ (k + 5), P2)"
      using hit al P2(1,2) by (subst region_chunk.simps) (simp add: ea_consts k(1) [symmetric] del: of_nat_Suc)
    then show ?thesis
      using hit(1) P2(3,4) us top by (intro exI [of _ "int ?n"] exI [of _ "start + 2 ^ (k + 5)"]) auto
  qed
qed

lemma largest_order:
  assumes "0 < unat r" "unat r \<le> 2 ^ 63"
  obtains o0 n where "i_size_to_order r = Some o0"
    "(if push_bit (nat o0) 1 > r then o0 - 1 else o0) = int n" "2 ^ n \<le> unat r"
proof -
  obtain m where m: "i_size_to_order r = Some (int m)" "m \<le> 63" "unat r \<le> 2 ^ m" "m = 0 \<or> 2 ^ (m - 1) < unat r"
    using size_to_order_ok [OF assms(2)] by auto
  have c: "r < 2 ^ m \<longleftrightarrow> unat r < 2 ^ m" using m(2) by (simp add: word_less_nat_alt unat_pow2)
  show thesis
  proof (cases "unat r < 2 ^ m")
    case True
    then have "m \<noteq> 0" using assms(1) by (cases m) auto
    then show thesis using that [of "int m" "m - 1"] m c True by simp
  next
    case False
    then show thesis using that [of "int m" m] m c by simp
  qed
qed

lemma free_region_ok:
  assumes "ea_ok P lo (unat start) F R" "R \<subseteq> {..<unat start}" "lo \<le> unat start" "unat start \<le> unat en" "unat en \<le> 2 ^ 63"
  shows "\<exists>P' F'. i_free_region_to_chunks P start en = Some P' \<and> ea_ok P' lo (unat en) F' R \<and> same_params P P'"
  using assms
proof (induction "unat en - unat start" arbitrary: P F start rule: less_induct)
  case less
  show ?case
  proof (cases "start < en")
    case False
    then have "start = en" using less.prems(4) by (simp add: word_less_nat_alt word_unat_eq_iff)
    then show ?thesis using less.prems(1) by (subst i_free_region_to_chunks.simps) auto
  next
    case True
    have r: "unat (en - start) = unat en - unat start" using True by (simp add: unat_sub)
    have "0 < unat (en - start)" "unat (en - start) \<le> 2 ^ 63"
      using True r less.prems(5) by (simp_all add: word_less_nat_alt)
    then obtain o0 n where o: "i_size_to_order (en - start) = Some o0"
      "(if push_bit (nat o0) 1 > en - start then o0 - 1 else o0) = int n" "2 ^ n \<le> unat (en - start)"
      by (rule largest_order)
    have top: "unat start + 2 ^ n \<le> unat en" using o(3) r True by (simp add: word_less_nat_alt)
    obtain o' s' P1 F1 where rc: "region_chunk P start (int n) = Some (o', s', P1)"
      and alt: "o' < 5 \<and> s' = start \<and> P1 = P \<or>
        5 \<le> o' \<and> unat start < unat s' \<and> unat s' \<le> unat en \<and> ea_ok P1 lo (unat s') F1 R \<and> same_params P P1"
      using region_chunk_ok [OF less.prems(1-3) top less.prems(5)] by blast
    define s2 where "s2 = (if o' < 5 then s' + 1 else s')"
    have u1: "unat (start + 1) = unat start + 1"
      using True less.prems(5) unat_add_of_nat64 [of start 1] by (simp add: word_less_nat_alt)
    have s2: "unat start < unat s2" "unat s2 \<le> unat en" "\<exists>F2. ea_ok P1 lo (unat s2) F2 R" "same_params P P1"
      using alt u1 True ea_ok_hi [OF less.prems(1), of "unat start + 1"] less.prems(5)
      by (auto simp: s2_def word_less_nat_alt)
    have st: "i_free_region_to_chunks P start en = i_free_region_to_chunks P1 s2 en"
      using True o(1,2) rc by (subst i_free_region_to_chunks.simps) (simp add: s2_def ea_consts Let_def)
    obtain F2 where "ea_ok P1 lo (unat s2) F2 R" using s2(3) by blast
    then obtain P' F' where "i_free_region_to_chunks P1 s2 en = Some P'" "ea_ok P' lo (unat en) F' R" "same_params P1 P'"
      using less.hyps [of s2 P1 F2] s2(1,2) less.prems(2-5) by fastforce
    then show ?thesis using st s2(4) same_params_trans by metis
  qed
qed

subsection \<open>Invariant of the allocator\<close>

text \<open>\<open>R\<close> is the memory handed out so far.\<close>

definition ea_inv :: "earalloc_params \<Rightarrow> nat \<Rightarrow> nat set \<Rightarrow> bool" where
  "ea_inv P lo R \<longleftrightarrow> (\<exists>F. ea_ok P lo (unat (ea_current P)) F R) \<and> lo \<le> unat (ea_current P) \<and>
     unat (ea_current P) \<le> unat (ea_end P) \<and> unat (ea_end P) \<le> 2 ^ 62 \<and> R \<subseteq> {..<unat (ea_current P)}"

definition handed_out :: "earalloc_params \<Rightarrow> nat \<Rightarrow> nat set \<Rightarrow> nat \<Rightarrow> addr \<Rightarrow> earalloc_params \<Rightarrow> bool" where
  "handed_out P lo R n p P' \<longleftrightarrow> p \<noteq> NULL \<and> lo \<le> unat p \<and> unat p + n \<le> unat (ea_current P') \<and> region p n \<inter> R = {} \<and>
     ea_inv P' lo (R \<union> region p n) \<and> ea_end P' = ea_end P \<and> ea_current P \<le> ea_current P'"

lemma advance_ok:
  assumes inv: "ea_inv P lo R" and k: "k \<le> 62" and sz: "0 < unat sz" "unat sz \<le> 2 ^ 63"
    and al: "al = EARLYALLOC_ALIGN (ea_current P) (2 ^ k)"
  shows "unat (ea_end P) < unat al + unat sz \<Longrightarrow> i_alloc_by_advancing P sz (2 ^ k) = None"
    and "unat al + unat sz \<le> unat (ea_end P) \<Longrightarrow>
      \<exists>P'. i_alloc_by_advancing P sz (2 ^ k) = Some (al, P') \<and> handed_out P lo R (unat sz) al P'"
    and "2 ^ k dvd unat al" "unat al < unat (ea_current P) + 2 ^ k"
proof -
  let ?c = "ea_current P" and ?e = "ea_end P"
  obtain F where ok: "ea_ok P lo (unat ?c) F R" and lo: "lo \<le> unat ?c" and ce: "unat ?c \<le> unat ?e"
    and e: "unat ?e \<le> 2 ^ 62" and R: "R \<subseteq> {..<unat ?c}" using inv by (auto simp: ea_inv_def)
  have "(2::nat) ^ k \<le> 2 ^ 62" using k by (intro power_increasing) auto
  then have c63: "unat ?c + 2 ^ k \<le> 2 ^ 63" using ce e by simp
  then have "unat ?c + 2 ^ k \<le> 2 ^ 64" by simp
  with k have A: "2 ^ k dvd unat al" "unat ?c \<le> unat al" "unat al < unat ?c + 2 ^ k"
    unfolding al by (auto intro!: align_up)
  then show "2 ^ k dvd unat al" "unat al < unat ?c + 2 ^ k" by auto
  have a63: "unat al \<le> 2 ^ 63" using A(3) c63 by simp
  have "unat al + unat sz < 2 ^ 64" using A(3) c63 sz(2) by simp
  then have u: "unat (al + sz) = unat al + unat sz" using unat_add_lem [of al sz] by simp
  show "i_alloc_by_advancing P sz (2 ^ k) = None" if "unat ?e < unat al + unat sz"
    using that u by (simp add: i_alloc_by_advancing_def Let_def al [symmetric] word_less_nat_alt)
  assume fits: "unat al + unat sz \<le> unat ?e"
  obtain P1 F1 where P1: "(if al > ?c then i_free_region_to_chunks P ?c al else Some P) = Some P1"
    "ea_ok P1 lo (unat al) F1 R" "same_params P P1"
  proof (cases "?c < al")
    case True
    then show thesis using free_region_ok [OF ok R lo A(2) a63] that by auto
  next
    case False
    then have "al = ?c" using A(2) by (simp add: word_less_nat_alt word_unat_eq_iff)
    then show thesis using that [of P F] ok by simp
  qed
  let ?P' = "P1\<lparr>ea_current := al + sz\<rparr>"
  have "i_alloc_by_advancing P sz (2 ^ k) = Some (al, ?P')"
    using P1(1) fits u
    by (auto simp: i_alloc_by_advancing_def Let_def al [symmetric] word_less_nat_alt split: if_splits)
  moreover have dR: "region al (unat sz) \<inter> R = {}" using R A(2) by (auto simp: region_def)
  moreover have "ea_ok ?P' lo (unat (al + sz)) F1 (R \<union> region al (unat sz))"
  proof -
    have "region b (2 ^ (i + 5)) \<inter> region al (unat sz) = {}" if "i < 12" "b \<in> set (F1 i)" for i b
      using ea_okD(4) [OF P1(2) that] by (auto simp: region_def free_chunk_def)
    moreover have "ea_ok P1 lo (unat al + unat sz) F1 R" using ea_ok_hi [OF P1(2), of "unat al + unat sz"] fits e by simp
    ultimately show ?thesis unfolding ea_ok_def free_chunk_def u by (simp add: free_list_at_def Int_Un_distrib)
  qed
  moreover have "R \<union> region al (unat sz) \<subseteq> {..<unat (al + sz)}" using R A(2) u by (auto simp: region_def)
  ultimately show "\<exists>P'. i_alloc_by_advancing P sz (2 ^ k) = Some (al, P') \<and> handed_out P lo R (unat sz) al P'"
    using P1(3) A(2) lo fits u e ea_okD(2) [OF ok]
    by (intro exI [of _ ?P']) (auto simp: handed_out_def ea_inv_def same_params_def word_le_nat_alt)
qed

lemma handed_out_less: "handed_out P lo R n p P' \<Longrightarrow> m \<le> n \<Longrightarrow> handed_out P lo R m p P'"
proof -
  assume h: "handed_out P lo R n p P'" and m: "m \<le> n"
  have sub: "region p m \<subseteq> region p n" using m by (auto simp: region_def)
  then have "ea_inv P' lo (R \<union> region p m)"
    using h ea_ok_mono [of P' lo _ _ "R \<union> region p n" "R \<union> region p m"] unfolding handed_out_def ea_inv_def by blast
  then show ?thesis using h m sub unfolding handed_out_def by auto
qed

lemma taken_handed_out:
  assumes inv: "ea_inv P lo R" and t: "taken_chunk P lo (unat (ea_current P)) R t a P'"
  shows "handed_out P lo R (2 ^ (t + 5)) a P'"
proof -
  have "region a (2 ^ (t + 5)) \<subseteq> {..<unat (ea_current P)}" using t by (auto simp: taken_chunk_def region_def)
  then show ?thesis
    using inv t by (auto simp: handed_out_def ea_inv_def taken_chunk_def same_params_def)
qed

text \<open>A request is small when it fits the largest chunk; it is then aligned to its rounded size.\<close>

definition aligned_for :: "u64 \<Rightarrow> u64 \<Rightarrow> addr \<Rightarrow> bool" where
  "aligned_for sz align p \<longleftrightarrow>
     (if unat sz \<le> 2 ^ 16 then \<forall>k. k \<le> 5 \<or> 2 ^ (k - 1) < unat sz \<longrightarrow> 2 ^ k dvd unat p
      else unat align dvd unat p)"

lemma small_order:
  assumes "unat sz \<le> 2 ^ 63" "sz \<noteq> 0"
  obtains m where "i_size_to_order (if sz < EARLYALLOC_SMALLEST_CHUNK then EARLYALLOC_SMALLEST_CHUNK else sz) = Some (int m)"
    "5 \<le> m" "m \<le> 63" "unat sz \<le> 2 ^ m" "m = 5 \<or> 2 ^ (m - 1) < unat sz" "m \<le> 16 \<longleftrightarrow> unat sz \<le> 2 ^ 16"
proof -
  let ?c = "if sz < EARLYALLOC_SMALLEST_CHUNK then EARLYALLOC_SMALLEST_CHUNK else sz"
  have c: "unat ?c = max 32 (unat sz)" by (auto simp: ea_consts word_less_nat_alt max_def)
  then have "unat ?c \<le> 2 ^ 63" using assms(1) by simp
  then obtain m where m: "i_size_to_order ?c = Some (int m)" "m \<le> 63" "unat ?c \<le> 2 ^ m" "m = 0 \<or> 2 ^ (m - 1) < unat ?c"
    by (rule size_to_order_ok) simp
  have "(2::nat) ^ 5 \<le> 2 ^ m" using m(3) c by simp
  then have m5: "5 \<le> m" by (rule power_le_imp_le_exp [rotated]) simp
  have lw: "m = 5 \<or> 2 ^ (m - 1) < unat sz"
  proof (cases "m = 5")
    case False
    then have "(2::nat) ^ 5 \<le> 2 ^ (m - 1)" using m5 by (intro power_increasing) auto
    then show ?thesis using m(4) c False m5 by auto
  qed simp
  have "unat sz \<le> 2 ^ 16" if "m \<le> 16"
  proof -
    have "(2::nat) ^ m \<le> 2 ^ 16" using that by (intro power_increasing) auto
    then show ?thesis using m(3) c by simp
  qed
  moreover have "m \<le> 16" if "unat sz \<le> 2 ^ 16"
  proof (rule ccontr)
    assume "\<not> m \<le> 16"
    then have "(2::nat) ^ 16 \<le> 2 ^ (m - 1)" by (intro power_increasing) auto
    then show False using lw that \<open>\<not> m \<le> 16\<close> by simp
  qed
  ultimately show thesis using that [of m] m(1,2,3) m5 lw c by auto
qed

lemma aligned_small:
  assumes "m = 5 \<or> 2 ^ (m - 1) < unat sz" "unat sz \<le> 2 ^ m" "5 \<le> m" "2 ^ m dvd unat p" "unat sz \<le> 2 ^ 16"
  shows "aligned_for sz align p"
proof -
  have "2 ^ k dvd unat p" if "k \<le> 5 \<or> 2 ^ (k - 1) < unat sz" for k
  proof -
    have "k \<le> m"
    proof (cases "k \<le> 5")
      case False
      then have "2 ^ (k - 1) < unat sz" using that by blast
      then have "(2::nat) ^ (k - 1) < 2 ^ m" using assms(2) by (rule less_le_trans)
      then have "k - 1 < m" by (rule power_less_imp_less_exp [rotated]) simp
      then show ?thesis by simp
    qed (use assms(3) in simp)
    then show ?thesis using le_imp_power_dvd [of k m "2::nat"] assms(4) dvd_trans by blast
  qed
  then show ?thesis using assms(5) by (simp add: aligned_for_def)
qed

lemma early_alloc_align_eq:
  assumes a: "0 < align" "align AND (align - 1) = 0" and sz: "sz \<noteq> 0" and m: "m \<le> 63"
    and o: "i_size_to_order (if sz < EARLYALLOC_SMALLEST_CHUNK then EARLYALLOC_SMALLEST_CHUNK else sz) = Some (int m)"
  shows "early_alloc_align P sz align =
    (if m \<le> 16 then do {
       (chunk, P1) \<leftarrow> i_get_chunk_from_freelist P (int m);
       if chunk \<noteq> NULL then Some (chunk, P1) else i_alloc_by_advancing P1 (2 ^ m) (2 ^ m) }
     else i_alloc_by_advancing P sz align)"
proof -
  have "(2::u64) ^ m \<le> 2 ^ 16 \<longleftrightarrow> (2::nat) ^ m \<le> 2 ^ 16" using m unat_pow2 [of m] by (simp add: word_le_nat_alt)
  also have "\<dots> \<longleftrightarrow> m \<le> 16" by (rule power_increasing_iff) simp
  finally have c: "(2::u64) ^ m \<le> EARLYALLOC_LARGEST_CHUNK \<and> int m \<le> EARLYALLOC_LARGEST_ORDER \<longleftrightarrow> m \<le> 16"
    by (simp add: ea_consts)
  show ?thesis
    using a sz c unfolding early_alloc_align_def i_alloc_by_advancing_def Let_def o by (simp cong: if_cong)
qed

lemma early_alloc_align_cases:
  assumes inv: "ea_inv P lo R" and sz: "sz \<noteq> 0" "unat sz \<le> 2 ^ 63"
    and a: "0 < align" "align AND (align - 1) = 0" "unat align \<le> 2 ^ 62"
  shows "(\<exists>p P'. early_alloc_align P sz align = Some (p, P') \<and> handed_out P lo R (unat sz) p P' \<and> aligned_for sz align p) \<or>
    early_alloc_align P sz align = None \<and>
    unat (ea_end P) < unat (ea_current P) + (if unat sz \<le> 2 ^ 16 then 2 ^ 17 else unat align + unat sz)"
proof -
  obtain m where m: "i_size_to_order (if sz < EARLYALLOC_SMALLEST_CHUNK then EARLYALLOC_SMALLEST_CHUNK else sz) = Some (int m)"
    "5 \<le> m" "m \<le> 63" "unat sz \<le> 2 ^ m" "m = 5 \<or> 2 ^ (m - 1) < unat sz" "m \<le> 16 \<longleftrightarrow> unat sz \<le> 2 ^ 16"
    by (rule small_order [OF sz(2,1)])
  note eq = early_alloc_align_eq [OF a(1,2) sz(1) m(3,1), of P]
  show ?thesis
  proof (cases "m \<le> 16")
    case True
    then have s16: "unat sz \<le> 2 ^ 16" using m(6) by simp
    obtain t where t: "m = t + 5" "t < 12" using m(2) True le_Suc_ex [OF m(2)] by (auto simp: add.commute)
    obtain F where ok: "ea_ok P lo (unat (ea_current P)) F R" "lo \<le> unat (ea_current P)" using inv by (auto simp: ea_inv_def)
    obtain c P1 where g: "i_get_chunk_from_freelist P (int m) = Some (c, P1)"
      "c = NULL \<and> P1 = P \<or> taken_chunk P lo (unat (ea_current P)) R t c P1"
      using get_chunk_ok [OF ok t(2)] t(1) by auto
    show ?thesis
    proof (cases "c = NULL")
      case False
      then have tk: "taken_chunk P lo (unat (ea_current P)) R t c P1" using g(2) by simp
      have "handed_out P lo R (unat sz) c P1"
        using handed_out_less [OF taken_handed_out [OF inv tk]] m(4) t(1) by simp
      moreover have "aligned_for sz align c"
        using aligned_small [OF m(5,4,2) _ s16] tk t(1) by (simp add: taken_chunk_def)
      ultimately show ?thesis using eq g(1) True False by auto
    next
      case True
      then have e: "early_alloc_align P sz align = i_alloc_by_advancing P (2 ^ m) (2 ^ m)"
        using eq g \<open>m \<le> 16\<close> by (simp add: taken_chunk_def)
      have u: "unat ((2::u64) ^ m) = 2 ^ m" using m(3) by (intro unat_pow2) simp
      let ?al = "EARLYALLOC_ALIGN (ea_current P) (2 ^ m)"
      have p16: "(2::nat) ^ m \<le> 2 ^ 16" using \<open>m \<le> 16\<close> by (intro power_increasing) auto
      have pre: "m \<le> 62" "0 < unat ((2::u64) ^ m)" "unat ((2::u64) ^ m) \<le> 2 ^ 63" using \<open>m \<le> 16\<close> p16 u by simp_all
      note adv = advance_ok [OF inv pre refl, unfolded u]
      show ?thesis
      proof (cases "unat ?al + 2 ^ m \<le> unat (ea_end P)")
        case True
        then show ?thesis
          using adv(2) e handed_out_less m(4) aligned_small [OF m(5,4,2) adv(3) s16] by metis
      next
        case False
        then have "unat (ea_end P) < unat (ea_current P) + 2 ^ 17" using adv(4) p16 by simp
        then show ?thesis using False adv(1) e s16 by simp
      qed
    qed
  next
    case False
    then have s16: "\<not> unat sz \<le> 2 ^ 16" using m(6) by simp
    obtain k where k: "k < 64" "align = 2 ^ k" by (rule power_of_two_word [OF a(1,2)])
    have ua: "unat align = 2 ^ k" using k by (simp add: unat_pow2)
    then have "k \<le> 62" using a(3) by (auto intro: power_le_imp_le_exp [of 2])
    have "0 < unat sz" using sz(1) by (simp add: unat_gt_0)
    note adv = advance_ok [OF inv \<open>k \<le> 62\<close> this sz(2) refl, folded k(2)]
    let ?al = "EARLYALLOC_ALIGN (ea_current P) align"
    have e: "early_alloc_align P sz align = i_alloc_by_advancing P sz align" using eq False by simp
    have "aligned_for sz align ?al" using adv(3) ua s16 by (simp add: aligned_for_def)
    then show ?thesis
      using adv(1,2,4) e ua s16 by (cases "unat ?al + unat sz \<le> unat (ea_end P)") auto
  qed
qed

subsection \<open>Initialisation and sequences of requests\<close>

definition ea_space :: "earalloc_params \<Rightarrow> u64 \<Rightarrow> bool" where
  "ea_space P pa_start \<longleftrightarrow> 0 < unat (free_lists P) \<and> unat (free_lists P) + 192 \<le> unat pa_start \<and>
     (\<forall>i<12. alloc (ea_list P) (free_list_at P (int i)))"

lemma init_lists_ok:
  assumes "n \<le> 12" "\<And>i. i < 12 \<Longrightarrow> alloc (ea_list P) (free_list_at P (int i))"
    "\<And>i j. i < 12 \<Longrightarrow> j < 12 \<Longrightarrow> free_list_at P (int i) = free_list_at P (int j) \<Longrightarrow> i = j"
    "\<And>i. i < n \<Longrightarrow> dlist (ea_list P) (free_list_at P (int i)) []"
  shows "\<exists>h. init_lists P (map int [n..<12]) = Some (P\<lparr>ea_list := h\<rparr>) \<and>
    (\<forall>i<12. dlist h (free_list_at P (int i)) [])"
  using assms
proof (induction "12 - n" arbitrary: n P)
  case 0
  then show ?case by (intro exI [of _ "ea_list P"]) simp
next
  case (Suc d)
  then have n: "n < 12" by simp
  let ?H = "free_list_at P (int n)"
  obtain h where h: "list_entry_init (ea_list P) ?H = Some h" "dlist h ?H []" "same_off {?H} (ea_list P) h"
    using list_entry_init_ok [OF Suc.prems(2) [OF n]] by blast
  let ?Q = "P\<lparr>ea_list := h\<rparr>"
  have fl: "free_list_at ?Q i = free_list_at P i" for i by (simp add: free_list_at_def)
  have dl: "dlist h (free_list_at P (int i)) []" if i: "i < Suc n" for i
  proof (cases "i = n")
    case False
    then have "free_list_at P (int i) \<noteq> ?H" using Suc.prems(3) [of i n] i n by auto
    then show ?thesis using same_off_dlist [OF h(3), of "free_list_at P (int i)" "[]"] Suc.prems(4) [of i] i False by auto
  qed (use h(2) in simp)
  have "\<exists>h'. init_lists ?Q (map int [Suc n..<12]) = Some (?Q\<lparr>ea_list := h'\<rparr>) \<and> (\<forall>i<12. dlist h' (free_list_at ?Q (int i)) [])"
    using Suc.hyps(1) [of "Suc n" ?Q] Suc.hyps(2) Suc.prems(2,3) n h(3) dl by (auto simp: fl same_off_def)
  then show ?case using h(1) n by (auto simp: fl upt_conv_Cons)
qed

lemma orders_list: "[0..EARLYALLOC_ORDERS - 1] = map int [0..<12]"
  by code_simp

lemma ea_space_lists:
  assumes sp: "ea_space P pa_start"
  shows "\<exists>h. init_lists P [0..EARLYALLOC_ORDERS - 1] = Some (P\<lparr>ea_list := h\<rparr>) \<and>
    (\<forall>i<12. dlist h (free_list_at P (int i)) [])"
proof -
  have u: "unat (free_list_at P (int i)) = unat (free_lists P) + 16 * i" if "i < 12" for i
  proof -
    have "unat (free_lists P) + 16 * i < 2 ^ 64"
      using sp that unsigned_less [of pa_start, where 'a = nat] by (simp add: ea_space_def)
    then show ?thesis using unat_add_of_nat64 [of "free_lists P" "16 * i"] by (simp add: free_list_at_def)
  qed
  have inj: "i = j" if "i < 12" "j < 12" "free_list_at P (int i) = free_list_at P (int j)" for i j
  proof -
    have "unat (free_lists P) + 16 * i = unat (free_lists P) + 16 * j"
      unfolding u [OF that(1), symmetric] u [OF that(2), symmetric] that(3) ..
    then show ?thesis by simp
  qed
  show ?thesis unfolding orders_list
    using init_lists_ok [of 0 P] sp inj by (auto simp: ea_space_def)
qed

lemma init_ok:
  assumes sp: "ea_space P pa_start" and e: "unat pa_end \<le> 2 ^ 62"
    and i: "early_allocator_init P pa_start pa_end = Some P0"
  shows "ea_inv P0 (unat pa_start) {}" "ea_end P0 = pa_end"
proof -
  obtain h where h: "init_lists P [0..EARLYALLOC_ORDERS - 1] = Some (P\<lparr>ea_list := h\<rparr>)"
    "\<forall>i<12. dlist h (free_list_at P (int i)) []" using ea_space_lists [OF sp] by blast
  let ?s = "EARLYALLOC_ALIGN pa_start (2 ^ 5)"
  have c: "pa_start < pa_end" "?s < pa_end" "P0 = P\<lparr>ea_list := h, ea_current := ?s, ea_end := pa_end\<rparr>"
    using i h(1) by (auto simp: early_allocator_init_def Let_def EARLYALLOC_SMALLEST_CHUNK_def
        EARLYALLOC_SMALLEST_ORDER_def split: if_splits)
  then show "ea_end P0 = pa_end" by simp
  have "unat pa_start + 2 ^ 5 \<le> 2 ^ 64" using c(1) e by (simp add: word_less_nat_alt)
  then have "unat pa_start \<le> unat ?s" by (intro align_up(2)) simp_all
  moreover have "ea_ok P0 (unat pa_start) (unat ?s) (\<lambda>_. []) {}"
  proof -
    have fl: "free_list_at P0 = free_list_at P" "ea_list P0 = h" "free_lists P0 = free_lists P"
      by (simp_all add: c(3) free_list_at_def fun_eq_iff)
    have "unat ?s \<le> 2 ^ 63" using c(2) e by (simp add: word_less_nat_alt)
    then show ?thesis using h(2) sp by (simp add: ea_ok_def fl ea_space_def)
  qed
  ultimately show "ea_inv P0 (unat pa_start) {}"
    using c(2) e by (auto simp: ea_inv_def c(3) word_less_nat_alt)
qed

definition request_ok :: "u64 \<times> u64 \<Rightarrow> bool" where
  "request_ok r \<longleftrightarrow> fst r \<noteq> 0 \<and> unat (fst r) \<le> 2 ^ 63 \<and> unat (snd r) \<le> 2 ^ 62"

lemma alloc_all_ok:
  assumes "ea_inv P lo R" "\<forall>r\<in>set rs. request_ok r" "alloc_all P rs = Some (ps, P')"
  shows "(\<exists>R'. ea_inv P' lo R') \<and> length ps = length rs \<and> ea_current P \<le> ea_current P' \<and> ea_end P' = ea_end P \<and> ea_current P' \<le> ea_end P' \<and>
    (\<forall>i<length rs. lo \<le> unat (ps ! i) \<and> unat (ps ! i) + unat (fst (rs ! i)) \<le> unat (ea_current P') \<and>
       aligned_for (fst (rs ! i)) (snd (rs ! i)) (ps ! i) \<and> region (ps ! i) (unat (fst (rs ! i))) \<inter> R = {}) \<and>
    (\<forall>i<length rs. \<forall>j<i. region (ps ! i) (unat (fst (rs ! i))) \<inter> region (ps ! j) (unat (fst (rs ! j))) = {})"
  using assms
proof (induction rs arbitrary: P R ps)
  case Nil
  then show ?case by (auto simp: ea_inv_def word_le_nat_alt)
next
  case (Cons r rs)
  obtain sz al where r: "r = (sz, al)" by force
  obtain p P1 qs where p: "early_alloc_align P sz al = Some (p, P1)" "alloc_all P1 rs = Some (qs, P')" "ps = p # qs"
    using Cons.prems(3) r by (auto simp: bind_eq_Some_conv)
  have al: "0 < al" "al AND (al - 1) = 0" using p(1) by (auto simp: early_alloc_align_def split: if_splits)
  have h: "handed_out P lo R (unat sz) p P1" "aligned_for sz al p"
    using early_alloc_align_cases [OF Cons.prems(1) _ _ al, of sz] Cons.prems(2) r p(1)
    by (auto simp: request_ok_def)
  have inv1: "ea_inv P1 lo (R \<union> region p (unat sz))" and le: "ea_current P \<le> ea_current P1" "ea_end P1 = ea_end P"
    using h(1) by (simp_all add: handed_out_def)
  have "\<forall>r\<in>set rs. request_ok r" using Cons.prems(2) by simp
  note IH = Cons.IH [OF inv1 this p(2)]
  have here: "lo \<le> unat p" "unat p + unat sz \<le> unat (ea_current P')" "region p (unat sz) \<inter> R = {}"
    using h(1) IH unfolding handed_out_def word_le_nat_alt by auto
  show ?case
    using IH here h(2) le r p(3) by (auto simp: nth_Cons less_Suc_eq_0_disj split: nat.splits)
qed

subsection \<open>Properties\<close>

text \<open>
  C7. The memory that a sequence of requests obtains from a fresh allocator: every block lies between
  \<open>pa_start\<close> and \<open>early_alloc_end_ptr\<close>, itself at most \<open>pa_end\<close>; no two blocks overlap; a request of
  at most 64 KB is aligned to its size rounded up to a power of two (at least 32), a larger one to
  the alignment asked for.
\<close>

theorem early_alloc_regions:
  assumes "ea_space P pa_start" and "unat pa_end \<le> 2 ^ 62" and "early_allocator_init P pa_start pa_end = Some P0"
    and "\<forall>r\<in>set rs. request_ok r" and "alloc_all P0 rs = Some (ps, P')"
  shows "length ps = length rs \<and> early_alloc_end_ptr P' \<le> pa_end \<and>
    (\<forall>i<length rs. unat pa_start \<le> unat (ps ! i) \<and>
       unat (ps ! i) + unat (fst (rs ! i)) \<le> unat (early_alloc_end_ptr P') \<and>
       aligned_for (fst (rs ! i)) (snd (rs ! i)) (ps ! i)) \<and>
    (\<forall>i<length rs. \<forall>j<i. region (ps ! i) (unat (fst (rs ! i))) \<inter> region (ps ! j) (unat (fst (rs ! j))) = {})"
  using alloc_all_ok [OF init_ok(1) [OF assms(1-3)] assms(4,5)] init_ok(2) [OF assms(1-3)]
  unfolding early_alloc_end_ptr_def by auto


text \<open>List heads at 4096, memory from 8193 to 1048576.\<close>

definition demo_ea :: earalloc_params where
  "demo_ea = \<lparr>ea_list = (\<lambda>_. Some \<lparr>ln_prev = 0, ln_next = 0\<rparr>), chunks = (\<lambda>_. None), free_lists = 4096,
     ea_current = 0, ea_end = 0\<rparr>"

lemma demo_ea_space: "ea_space demo_ea 8193"
proof -
  have "free_list_at demo_ea (int i) \<noteq> NULL" if "i < 12" for i
  proof -
    have "unat (free_list_at demo_ea (int i)) = 4096 + 16 * i"
      using unat_add_of_nat64 [of 4096 "16 * i"] that by (simp add: free_list_at_def demo_ea_def)
    then show ?thesis by (metis add_is_0 unat_0 zero_neq_numeral)
  qed
  then show ?thesis by (simp add: ea_space_def alloc_def demo_ea_def)
qed

lemma demo_ea_init: "\<exists>P0. early_allocator_init demo_ea 8193 1048576 = Some P0 \<and> early_alloc_end_ptr P0 = 8224"
proof -
  have "\<exists>h. init_lists demo_ea [0..EARLYALLOC_ORDERS - 1] = Some (demo_ea\<lparr>ea_list := h\<rparr>)"
    using ea_space_lists [OF demo_ea_space] by blast
  moreover have "EARLYALLOC_ALIGN 8193 EARLYALLOC_SMALLEST_CHUNK = 8224"
    by (simp add: EARLYALLOC_ALIGN_def EARLYALLOC_ALIGN_MASK_def EARLYALLOC_SMALLEST_CHUNK_def EARLYALLOC_SMALLEST_ORDER_def)
  ultimately show ?thesis
    by (auto simp: early_allocator_init_def early_alloc_end_ptr_def Let_def)
qed

lemma demo_ea_request:
  assumes "early_allocator_init demo_ea 8193 1048576 = Some P0" "early_alloc_end_ptr P0 = 8224"
  shows "\<exists>p P1. alloc_all P0 [(100, 8)] = Some ([p], P1)"
proof -
  have e: "unat (1048576 :: u64) \<le> 2 ^ 62" by simp
  note P0 = init_ok [OF demo_ea_space e assms(1)]
  have a: "0 < (8::u64)" "(8::u64) AND (8 - 1) = 0" by simp_all
  show ?thesis
    using early_alloc_align_cases [OF P0(1) _ _ a, of 100] P0(2) assms(2) by (auto simp: early_alloc_end_ptr_def)
qed

theorem early_alloc_regions_witness:
  "\<exists>P0 p P1. early_allocator_init demo_ea 8193 1048576 = Some P0 \<and> alloc_all P0 [(100, 8)] = Some ([p], P1) \<and>
    8193 \<le> unat p \<and> unat p + 100 \<le> 1048576 \<and> 128 dvd unat p"
proof -
  obtain P0 where P0: "early_allocator_init demo_ea 8193 1048576 = Some P0" "early_alloc_end_ptr P0 = 8224"
    using demo_ea_init by blast
  obtain p P1 where p: "alloc_all P0 [(100, 8)] = Some ([p], P1)" using demo_ea_request [OF P0] by blast
  have "8193 \<le> unat p \<and> unat p + 100 \<le> unat (early_alloc_end_ptr P1) \<and> early_alloc_end_ptr P1 \<le> 1048576 \<and>
    aligned_for 100 8 p"
    using early_alloc_regions [OF demo_ea_space _ P0(1) _ p] by (simp add: request_ok_def)
  then have "8193 \<le> unat p \<and> unat p + 100 \<le> 1048576 \<and> 2 ^ 7 dvd unat p"
    by (auto simp: word_le_nat_alt aligned_for_def dest: spec [of _ 7])
  then show ?thesis using P0(1) p by auto
qed


text \<open>The alignment asked for does not bind a small request.\<close>

lemma early_alloc_small_ignores_align:
  "\<exists>P0 p P1. early_allocator_init demo_ea 8193 1048576 = Some P0 \<and> early_alloc_align P0 32 4096 = Some (p, P1) \<and>
    \<not> 4096 dvd unat p"
proof -
  obtain P0 where P0: "early_allocator_init demo_ea 8193 1048576 = Some P0" "ea_current P0 = 8224"
    using demo_ea_init by (auto simp: early_alloc_end_ptr_def)
  have e: "unat (1048576 :: u64) \<le> 2 ^ 62" by simp
  note I = init_ok [OF demo_ea_space e P0(1)]
  obtain F where ok: "ea_ok P0 8193 8224 F {}" using I(1) P0(2) by (auto simp: ea_inv_def)
  have "\<not> taken_chunk P0 8193 8224 {} 0 a P'" for a P' by (auto simp: taken_chunk_def)
  then have g: "i_get_chunk_from_freelist P0 5 = Some (NULL, P0)" using get_chunk_ok [OF ok, of 0] by auto
  have o: "i_size_to_order (if (32::u64) < EARLYALLOC_SMALLEST_CHUNK then EARLYALLOC_SMALLEST_CHUNK else 32) = Some (int 5)"
    using size_to_order_pow2 [of 5] by (simp add: EARLYALLOC_SMALLEST_CHUNK_def EARLYALLOC_SMALLEST_ORDER_def)
  have "early_alloc_align P0 32 4096 = i_alloc_by_advancing P0 (2 ^ 5) (2 ^ 5)"
    using early_alloc_align_eq [OF _ _ _ _ o, of 4096 P0] g by simp
  moreover have "EARLYALLOC_ALIGN 8224 32 = 8224" by (simp add: EARLYALLOC_ALIGN_def EARLYALLOC_ALIGN_MASK_def)
  then have "\<exists>P'. i_alloc_by_advancing P0 (2 ^ 5) (2 ^ 5) = Some (8224, P')"
    using advance_ok(2) [OF I(1), of 5 "2 ^ 5" 8224] P0(2) I(2) by auto
  ultimately show ?thesis using P0(1) by auto
qed

end
