(* ===== verification/Spec2Isabelle.thy ===== *)
theory Spec2Isabelle
  imports Linked_List Bits Pipe Kstring Fd_Table Proc_Table Semaphore Mutex Rwsem Completion Early_Alloc
begin

text \<open>
  \<^bold>\<open>Verification of core components of an extended xv6 kernel for RISC-V (\<open>src/kernel\<close>).\<close>

  \<^medskip> \<^bold>\<open>The program.\<close> The kernel is written in C for several harts. At the bottom are data structures
  without locks of their own: the intrusive list (\<open>inc/list.h\<close>), the hash list (\<open>hlist.c\<close>), bit scans
  and bitmaps (\<open>inc/bits.h\<close>), string routines (\<open>string.c\<close>) and the boot allocator
  (\<open>mm/early_allocator.c\<close>). Threads that wait are linked into thread queues
  (\<open>proc/thread_queue.c\<close>), lists of wait nodes on the stacks of the sleeping threads. The sleeping
  locks (\<open>lock/semaphore.c\<close>, \<open>lock/mutex.c\<close>, \<open>lock/rwsem.c\<close>, \<open>lock/completion.c\<close>) are a few fields
  under a spinlock plus such queues. The process table (\<open>proc/pid.c\<close>) is a hash list by pid, the
  descriptor tables (\<open>vfs/fdtable.c\<close>) are arrays with a bitmap and reference counts, and the pipe
  (\<open>pipe.c\<close>) is a ring buffer between a writer and a reader with two thread queues.

  \<^medskip> \<^bold>\<open>How the code is represented.\<close>
  \<^item> A pointer is a 64-bit word and \<open>NULL\<close> is 0. The objects of one C type live in a heap, a partial
    map from addresses to records; the entries of intrusive lists live in a heap of list nodes, at
    the address of the enclosing object plus the offset of the field. Aliasing is therefore the
    one of the code.
  \<^item> A function that can fail to return is written in the option monad. \<open>None\<close> stands for a wild
    access, a failed assertion, a panic or an endless loop, so \<open>f x = Some y\<close> is a statement of memory
    safety and termination. Error codes are negative integers as in the code; an \<open>ERR_PTR\<close> result is
    the left summand of a sum.
  \<^item> Loops are structural recursion where the bound is visible, \<open>function\<close> with a measure where it is
    not, and \<open>partial_function (option)\<close> where the data decide about termination; then a lemma shows
    that the loop returns. No fuel is used anywhere.
  \<^item> Counters and sizes are words where the code lets them wrap (pipe counters, addresses of the
    allocator, hash values, bit masks) and integers where the invariant bounds them (semaphore values
    within \<open>SEM_VALUE_MAX\<close>, \<open>done\<close> of a completion within \<open>MAX_COMPLETIONS\<close>).
  \<^item> Concurrency is interleaving of steps. A critical section under one spinlock is one step. A call
    that sleeps is cut where \<open>tq_wait\<close> gives up the lock, into a part that runs up to the sleep and
    a part that runs after it. A system record holds the memory, the threads asleep inside a
    call and ghost data (owners, counts of successful calls); an \<open>inductive\<close> step relation lets any
    number of threads make any call in any order. Theorems speak about every state reachable from
    the one the initialiser returns.
  \<^item> A C identifier that begins with two underscores has the prefix \<open>i_\<close>; other names are those of the
    source, with a prefix or suffix where a name is taken.

  \<^medskip> \<^bold>\<open>Theories, in the order of dependence.\<close>
  \<^item> \<open>Prelude\<close>: addresses, \<open>deref\<close>, \<open>modify\<close>, \<open>alloc\<close>, error codes, facts on lists and words, the
    collection \<open>heap_simps\<close>.
  \<^item> \<open>Linked_List\<close>: all entry operations of \<open>inc/list.h\<close> with their RCU variants as sequences of single
    stores. \<open>dlist h head xs\<close> is the ring through \<open>head\<close>; each operation is shown to be the list
    operation it stands for and to leave other nodes alone (\<open>same_off\<close>). A reader that runs between the
    stores of an RCU insertion or deletion sees the old or the new list.
  \<^item> \<open>Bits\<close>: table-driven and fallback bit scans, scans of memory, iteration over set bits, 64-bit
    bitmaps, byte swaps. Both implementations are proved equal to the same specification.
  \<^item> \<open>Kstring\<close>: \<open>string.c\<close> on byte memory, with every overlap of \<open>memmove\<close>.
  \<^item> \<open>Pipe\<close>: \<open>pipe.c\<close> as two threads whose steps are the regions between lock operations; the bytes
    read followed by the bytes in the ring are at every moment the bytes written.
  \<^item> \<open>Fd_Table\<close>: \<open>fdtable.c\<close> with the reference counts of the files; \<open>fdt_ok\<close> ties the bitmap, the
    counter and the slots together.
  \<^item> \<open>Hash_List\<close>: \<open>hlist.c\<close>; \<open>hl_ok\<close> is the structure, the locale \<open>hlist_keys\<close> the contract of the
    callbacks, under which put, get and pop are update, lookup and deletion of a finite map.
  \<^item> \<open>Proc_Table\<close>: \<open>pid.c\<close>; its four callbacks interpret \<open>hlist_keys\<close>, and pid allocation is shown to
    find a free pid whenever one exists.
  \<^item> \<open>Thread_Queue\<close>: the list-based queues of \<open>thread_queue.c\<close>; \<open>tqs_ok w Qs\<close> relates all queues of a
    world to the lists of their nodes; the locale \<open>fifo_queue\<close> is the contract, interpreted by the
    operations.
  \<^item> \<open>Sleep_Lock\<close>: what the sleeping locks share: the calling context, the locale \<open>step_invariant\<close>
    and \<open>sleepers w Qs xs\<close>, the relation between queues and threads asleep, with a lemma for each way
    a thread falls asleep, is woken, leaves by itself or is moved to another queue.
  \<^item> \<open>Semaphore\<close>, \<open>Mutex\<close>, \<open>Rwsem\<close>, \<open>Completion\<close>: the four locks. Each has the operations, the step
    relation, an invariant shown step by step and interpreted as a \<open>step_invariant\<close>, and theorems on
    the reachable states: mutual exclusion, conservation of units or completions, absence of lost
    wake-ups.
  \<^item> \<open>Early_Alloc\<close>: \<open>early_allocator.c\<close>; \<open>ea_ok\<close> describes the free lists inside free memory, \<open>ea_inv\<close>
    adds the memory handed out. Blocks do not overlap, are aligned and stay below the end pointer,
    and a request fails only when memory is short.

  \<^medskip> \<^bold>\<open>What the theorems assume.\<close> The objects a call receives exist in the heaps and do not overlap
  (\<open>sem_space\<close>, \<open>ea_space\<close> and the like); wait nodes of different sleeping threads are different. User
  memory, the slab allocator and the callbacks of a hash list are arguments. Thread ids are
  distinct and not negative where a lock stores them. The boot memory ends below \<open>2 ^ 62\<close>, a request is
  at most \<open>2 ^ 63\<close> bytes and an alignment at most \<open>2 ^ 62\<close>, so that the address arithmetic of the allocator
  does not wrap. Every such hypothesis is met by a concrete instance in the witness of its theorem.

  \<^medskip> \<^bold>\<open>Defects the models exhibit.\<close> A wake-up lost between the test and the sleep of a pipe
  (\<open>pipe_lost_wakeup\<close>), the result of a faulting \<open>pipewrite\<close>, the unit a semaphore grants after an
  interrupted wait, \<open>bswap64\<close>, the overrun of \<open>strncpy\<close>, the search of \<open>strstr\<close> behind a short string, the
  bucket test of \<open>hlist_node_in_list\<close>, \<open>completion_done\<close>, the window of \<open>complete_all\<close>, and the
  alignment of small early allocations.

  \<^medskip> \<^bold>\<open>Not modelled.\<close> Spinlocks and memory order below the level of critical sections; the grace periods
  of RCU; the scheduler, of which only falling asleep and waking up appear; the tree-based thread
  queues with the red-black tree; the page and slab allocators, page tables, page cache and
  file systems, which rest on hardware state, block devices and each other; signals; drivers,
  traps and boot code, which are assembly or device access; user programs, host tools and tests.
\<close>

end
